(* ===== verification/LTP_Prelude.thy ===== *)
theory LTP_Prelude
  imports Main "HOL-Library.Word" "HOL-Library.Multiset" "HOL-Library.Signed_Division"
begin

text \<open>
  The shared vocabulary of the development: C strings as character lists, the parts of the
  C library that the modelled sources call (string scanning, decimal conversion, the
  padding and truncating conversions of \<^verbatim>\<open>printf\<close>, wait status macros, signal
  and errno numbers), overwriting a range of a file or buffer, and the generic list lemmas
  the component theories use.

  A C string is the list of its characters before the terminating NUL. Signal and errno
  numbers are those of Linux.
\<close>

named_theorems io_simps \<open>unfolding rules for the models of C library input and output\<close>
named_theorems scan_simps \<open>rules for string scanners\<close>

type_synonym cstr = string

abbreviation nul :: char where
  "nul \<equiv> CHR 0x00"

abbreviation tab :: char where
  "tab \<equiv> CHR 0x09"

abbreviation newline :: char where
  "newline \<equiv> CHR 0x0A"

section \<open>Results of C code\<close>

text \<open>
  A call returns a value, ends the process with an exit status, or does something the C
  standard leaves undefined (an access outside an array, a NULL dereference, a
  \<^verbatim>\<open>free\<close> of a pointer that was not allocated, a write to a string literal).
\<close>

datatype 'a outcome = Ok 'a | Exit int | Fault

fun bind_outcome :: "'a outcome \<Rightarrow> ('a \<Rightarrow> 'b outcome) \<Rightarrow> 'b outcome" where
  "bind_outcome (Ok x) f = f x"
| "bind_outcome (Exit n) f = Exit n"
| "bind_outcome Fault f = Fault"

lemma bind_outcome_Ok_conv [simp]:
  "bind_outcome r f = Ok y \<longleftrightarrow> (\<exists>x. r = Ok x \<and> f x = Ok y)"
  by (cases r) auto

text \<open>An assignment \<^verbatim>\<open>a[i] = v\<close>; out of range it is a fault.\<close>

definition array_set :: "'a list \<Rightarrow> nat \<Rightarrow> 'a \<Rightarrow> 'a list outcome" where
  "array_set xs i v = (if i < length xs then Ok (xs[i := v]) else Fault)"

lemma array_set_Ok [simp]: "i < length xs \<Longrightarrow> array_set xs i v = Ok (xs[i := v])"
  by (simp add: array_set_def)

section \<open>Constants of the operating system\<close>

definition EPERM :: int where "EPERM = 1"
definition ENOENT :: int where "ENOENT = 2"
definition ESRCH :: int where "ESRCH = 3"
definition EINTR :: int where "EINTR = 4"
definition ECHILD :: int where "ECHILD = 10"
definition EEXIST :: int where "EEXIST = 17"
definition ENOTDIR :: int where "ENOTDIR = 20"
definition EINVAL :: int where "EINVAL = 22"

definition SIGHUP :: int where "SIGHUP = 1"
definition SIGINT :: int where "SIGINT = 2"
definition SIGKILL :: int where "SIGKILL = 9"
definition SIGUSR1 :: int where "SIGUSR1 = 10"
definition SIGUSR2 :: int where "SIGUSR2 = 12"
definition SIGALRM :: int where "SIGALRM = 14"
definition SIGTERM :: int where "SIGTERM = 15"

lemmas errno_defs = EPERM_def ENOENT_def ESRCH_def EINTR_def ECHILD_def EEXIST_def
  ENOTDIR_def EINVAL_def

lemmas signal_defs = SIGHUP_def SIGINT_def SIGKILL_def SIGUSR1_def SIGUSR2_def
  SIGALRM_def SIGTERM_def

section \<open>Test result flags\<close>

text \<open>The flags of \<^verbatim>\<open>include/tst_res_flags.h\<close>, which tests use as exit status.\<close>

definition TPASS :: int where "TPASS = 0"
definition TFAIL :: int where "TFAIL = 1"
definition TBROK :: int where "TBROK = 2"
definition TWARN :: int where "TWARN = 4"
definition TINFO :: int where "TINFO = 16"
definition TCONF :: int where "TCONF = 32"

lemmas flag_defs = TPASS_def TFAIL_def TBROK_def TWARN_def TINFO_def TCONF_def

section \<open>Wait status words\<close>

text \<open>The macros of \<^verbatim>\<open>sys/wait.h\<close> on a non-negative status word.\<close>

definition WTERMSIG :: "int \<Rightarrow> int" where
  "WTERMSIG s = s mod 128"

definition WIFEXITED :: "int \<Rightarrow> bool" where
  "WIFEXITED s \<longleftrightarrow> WTERMSIG s = 0"

definition WEXITSTATUS :: "int \<Rightarrow> int" where
  "WEXITSTATUS s = (s div 256) mod 256"

definition WIFSIGNALED :: "int \<Rightarrow> bool" where
  "WIFSIGNALED s \<longleftrightarrow> 0 < WTERMSIG s \<and> WTERMSIG s < 127"

definition WIFSTOPPED :: "int \<Rightarrow> bool" where
  "WIFSTOPPED s \<longleftrightarrow> s mod 256 = 127"

definition WSTOPSIG :: "int \<Rightarrow> int" where
  "WSTOPSIG s = WEXITSTATUS s"

definition core_flag :: "int \<Rightarrow> bool" where
  "core_flag s \<longleftrightarrow> (s div 128) mod 2 = 1"

lemmas wait_defs = WTERMSIG_def WIFEXITED_def WEXITSTATUS_def WIFSIGNALED_def
  WIFSTOPPED_def WSTOPSIG_def core_flag_def

lemma exited_not_signaled: "WIFEXITED s \<Longrightarrow> \<not> WIFSIGNALED s"
  by (simp add: wait_defs)

lemma WEXITSTATUS_bounds: "0 \<le> WEXITSTATUS s" "WEXITSTATUS s < 256"
  by (simp_all add: wait_defs)

section \<open>Decimal conversion\<close>

definition digit_char :: "nat \<Rightarrow> char" where
  "digit_char n = char_of (48 + n)"

lemma digit_char_code:
  "digit_char 0 = CHR ''0''" "digit_char 1 = CHR ''1''" "digit_char (Suc 0) = CHR ''1''"
  "digit_char 2 = CHR ''2''" "digit_char 3 = CHR ''3''" "digit_char 4 = CHR ''4''"
  "digit_char 5 = CHR ''5''" "digit_char 6 = CHR ''6''" "digit_char 7 = CHR ''7''"
  "digit_char 8 = CHR ''8''" "digit_char 9 = CHR ''9''"
  by (simp_all add: digit_char_def char_of_def bit_0)

definition is_digit :: "char \<Rightarrow> bool" where
  "is_digit c \<longleftrightarrow> 48 \<le> (of_char c :: nat) \<and> (of_char c :: nat) \<le> 57"

definition digit_val :: "char \<Rightarrow> nat" where
  "digit_val c = of_char c - 48"

fun dec_nat :: "nat \<Rightarrow> cstr" where
  "dec_nat n = (if n < 10 then [digit_char n]
                else dec_nat (n div 10) @ [digit_char (n mod 10)])"

declare dec_nat.simps [simp del]

text \<open>The conversion \<^verbatim>\<open>%d\<close>.\<close>

definition dec_int :: "int \<Rightarrow> cstr" where
  "dec_int i = (if i < 0 then CHR ''-'' # dec_nat (nat (- i)) else dec_nat (nat i))"

definition is_space :: "char \<Rightarrow> bool" where
  "is_space c \<longleftrightarrow> c \<in> {CHR '' '', CHR 0x09, CHR 0x0A, CHR 0x0B, CHR 0x0C, CHR 0x0D}"

text \<open>\<^verbatim>\<open>digits_val\<close> reads the longest run of leading digits.\<close>

fun digits_val :: "nat \<Rightarrow> cstr \<Rightarrow> nat" where
  "digits_val acc [] = acc"
| "digits_val acc (c # cs) =
     (if is_digit c then digits_val (10 * acc + digit_val c) cs else acc)"

text \<open>
  \<^verbatim>\<open>atoi\<close>: leading white space, an optional sign, the leading digits. The value is not
  cut to 32 bits: the C standard leaves the result open where it does not fit.
\<close>

definition atoi :: "cstr \<Rightarrow> int" where
  "atoi s = (case dropWhile is_space s of
       [] \<Rightarrow> 0
     | c # cs \<Rightarrow>
         if c = CHR ''-'' then - int (digits_val 0 cs)
         else if c = CHR ''+'' then int (digits_val 0 cs)
         else int (digits_val 0 (c # cs)))"

lemma of_char_digit_char [simp]: "n < 10 \<Longrightarrow> (of_char (digit_char n) :: nat) = 48 + n"
  by (simp add: digit_char_def of_char_of)

lemma is_digit_digit_char [simp]: "n < 10 \<Longrightarrow> is_digit (digit_char n)"
  by (simp add: is_digit_def)

lemma digit_val_digit_char [simp]: "n < 10 \<Longrightarrow> digit_val (digit_char n) = n"
  by (simp add: digit_val_def)

lemma dec_nat_digits: "\<forall>c \<in> set (dec_nat n). is_digit c"
  by (induction n rule: dec_nat.induct) (subst dec_nat.simps, auto)

lemma dec_nat_nonempty [simp]: "dec_nat n \<noteq> []"
  by (subst dec_nat.simps) simp

lemma digits_val_append:
  assumes "\<forall>c \<in> set xs. is_digit c"
  shows "digits_val acc (xs @ ys) = digits_val (digits_val acc xs) ys"
  using assms by (induction xs arbitrary: acc) auto

lemma digits_val_dec_nat [simp]: "digits_val 0 (dec_nat n) = n"
proof (induction n rule: dec_nat.induct)
  case (1 n)
  show ?case
  proof (cases "n < 10")
    case True
    then show ?thesis by (subst dec_nat.simps) simp
  next
    case False
    with 1 have "digits_val 0 (dec_nat (n div 10)) = n div 10" by simp
    with False show ?thesis
      by (subst dec_nat.simps) (simp add: digits_val_append dec_nat_digits)
  qed
qed

lemma digits_val_stop:
  assumes "\<not> is_digit c"
  shows "digits_val acc (c # cs) = acc"
  using assms by simp

lemma is_digit_not_space: "is_digit c \<Longrightarrow> \<not> is_space c"
  by (auto simp: is_digit_def is_space_def)

lemma is_digit_not_sign: "is_digit c \<Longrightarrow> c \<noteq> CHR ''-'' \<and> c \<noteq> CHR ''+''"
  by (auto simp: is_digit_def)

lemma dec_nat_Cons: "\<exists>d ds. dec_nat n = d # ds \<and> is_digit d"
  using dec_nat_digits [of n] by (cases "dec_nat n") auto

text \<open>Reading back a printed number that is followed by something that is not a digit.\<close>

lemma atoi_dec_nat:
  assumes "rest = [] \<or> \<not> is_digit (hd rest)"
  shows "atoi (dec_nat n @ rest) = int n"
proof -
  obtain d ds where d: "dec_nat n = d # ds" "is_digit d"
    using dec_nat_Cons by blast
  have "digits_val 0 (dec_nat n @ rest) = digits_val n rest"
    by (simp add: digits_val_append dec_nat_digits)
  also have "\<dots> = n"
    using assms by (cases rest) auto
  finally show ?thesis
    using d by (simp add: atoi_def is_digit_not_space is_digit_not_sign)
qed

lemma length_dec_nat: "n < 10 ^ k \<Longrightarrow> 0 < k \<Longrightarrow> length (dec_nat n) \<le> k"
proof (induction n arbitrary: k rule: dec_nat.induct)
  case (1 n)
  show ?case
  proof (cases "n < 10")
    case True
    with "1.prems" show ?thesis by (subst dec_nat.simps) simp
  next
    case False
    from False "1.prems" have "1 < k"
      by (cases k; cases "k - 1") auto
    moreover from this "1.prems" have "n div 10 < 10 ^ (k - 1)"
      by (cases k) (auto simp: less_mult_imp_div_less mult.commute)
    ultimately have "length (dec_nat (n div 10)) \<le> k - 1"
      using "1.IH" False by simp
    with \<open>1 < k\<close> False show ?thesis by (subst dec_nat.simps) simp
  qed
qed

section \<open>Formatted output\<close>

text \<open>\<^verbatim>\<open>%-w.ps\<close>: cut to \<open>p\<close> characters, padded on the right to \<open>w\<close>.\<close>

definition fmt_left :: "nat \<Rightarrow> nat \<Rightarrow> cstr \<Rightarrow> cstr" where
  "fmt_left w p s = take p s @ replicate (w - length (take p s)) (CHR '' '')"

text \<open>\<^verbatim>\<open>%w.ps\<close>: cut to \<open>p\<close> characters, padded on the left to \<open>w\<close>.\<close>

definition fmt_right :: "nat \<Rightarrow> nat \<Rightarrow> cstr \<Rightarrow> cstr" where
  "fmt_right w p s = replicate (w - length (take p s)) (CHR '' '') @ take p s"

text \<open>\<^verbatim>\<open>%-ws\<close> and \<^verbatim>\<open>%ws\<close>: padded only.\<close>

definition pad_right :: "nat \<Rightarrow> cstr \<Rightarrow> cstr" where
  "pad_right w s = s @ replicate (w - length s) (CHR '' '')"

definition pad_left :: "nat \<Rightarrow> cstr \<Rightarrow> cstr" where
  "pad_left w s = replicate (w - length s) (CHR '' '') @ s"

text \<open>What \<^verbatim>\<open>snprintf(buf, n, ...)\<close> leaves in \<open>buf\<close> for \<open>0 < n\<close>.\<close>

definition snprintf :: "nat \<Rightarrow> cstr \<Rightarrow> cstr" where
  "snprintf n s = take (n - 1) s"

lemma length_fmt_left [simp]: "length (fmt_left w w s) = w"
  by (simp add: fmt_left_def)

lemma set_fmt_left: "set (fmt_left w p s) \<subseteq> insert (CHR '' '') (set s)"
  by (auto simp: fmt_left_def dest: in_set_takeD)

lemma length_snprintf: "length (snprintf n s) \<le> n - 1"
  by (simp add: snprintf_def)

section \<open>Buffers and files\<close>

text \<open>Writing \<open>s\<close> over the bytes from \<open>pos\<close> on, extending the end if needed.\<close>

definition overwrite :: "nat \<Rightarrow> 'a list \<Rightarrow> 'a list \<Rightarrow> 'a list" where
  "overwrite pos s xs = take pos xs @ s @ drop (pos + length s) xs"

lemma length_overwrite:
  "pos + length s \<le> length xs \<Longrightarrow> length (overwrite pos s xs) = length xs"
  by (simp add: overwrite_def)

lemma overwrite_middle:
  assumes "length s = length ys"
  shows "overwrite (length xs) s (xs @ ys @ zs) = xs @ s @ zs"
  using assms by (simp add: overwrite_def)

lemma nth_overwrite:
  assumes "pos \<le> length xs" "i < length (overwrite pos s xs)"
  shows "overwrite pos s xs ! i =
    (if i < pos then xs ! i else if i < pos + length s then s ! (i - pos) else xs ! i)"
  using assms by (auto simp: overwrite_def nth_append)

section \<open>String scanning\<close>

text \<open>
  One call of \<^verbatim>\<open>strtok\<close>: the leading separators are skipped; with nothing left the
  result is NULL, otherwise the token and the rest after the separator that ends it.
\<close>

definition strtok :: "char list \<Rightarrow> cstr \<Rightarrow> (cstr \<times> cstr) option" where
  "strtok sep s =
     (let s' = dropWhile (\<lambda>c. c \<in> set sep) s
      in if s' = [] then None
         else Some (takeWhile (\<lambda>c. c \<notin> set sep) s',
                    drop 1 (dropWhile (\<lambda>c. c \<notin> set sep) s')))"

lemma strtok_shorter:
  assumes "strtok sep s = Some (t, r)"
  shows "length r < length s"
proof -
  let ?s = "dropWhile (\<lambda>c. c \<in> set sep) s"
  from assms have ne: "?s \<noteq> []"
    and r: "r = drop 1 (dropWhile (\<lambda>c. c \<notin> set sep) ?s)"
    by (auto simp: strtok_def Let_def split: if_splits)
  have "length (dropWhile (\<lambda>c. c \<notin> set sep) ?s) \<le> length ?s" "length ?s \<le> length s"
    by (rule length_dropWhile_le)+
  with ne r show ?thesis by (cases ?s) auto
qed

lemma strtok_token:
  assumes "strtok sep s = Some (t, r)"
  shows "t \<noteq> []" "set t \<inter> set sep = {}"
proof -
  let ?s = "dropWhile (\<lambda>c. c \<in> set sep) s"
  from assms have ne: "?s \<noteq> []" and t: "t = takeWhile (\<lambda>c. c \<notin> set sep) ?s"
    by (auto simp: strtok_def Let_def split: if_splits)
  from ne have "hd ?s \<notin> set sep" by (rule hd_dropWhile)
  with ne t show "t \<noteq> []" by (cases ?s) auto
  from t show "set t \<inter> set sep = {}" by (auto dest: set_takeWhileD)
qed

text \<open>The number of characters before the token: its offset in the scanned string.\<close>

definition strtok_skip :: "char list \<Rightarrow> cstr \<Rightarrow> nat" where
  "strtok_skip sep s = length (takeWhile (\<lambda>c. c \<in> set sep) s)"

lemma strtok_skip_0:
  "strtok sep s = Some (t, r) \<Longrightarrow> strtok_skip sep s = 0 \<longleftrightarrow> hd s \<notin> set sep"
  by (cases s) (auto simp: strtok_def strtok_skip_def)

text \<open>All tokens, as a loop of \<^verbatim>\<open>strtok(NULL, sep)\<close> calls finds them.\<close>

function tokens :: "char list \<Rightarrow> cstr \<Rightarrow> cstr list" where
  "tokens sep s = (case strtok sep s of None \<Rightarrow> [] | Some (t, r) \<Rightarrow> t # tokens sep r)"
  by pat_completeness auto
termination
  by (relation "measure (\<lambda>(sep, s). length s)") (auto dest: strtok_shorter)

declare tokens.simps [simp del]

lemma tokens_None: "strtok sep s = None \<Longrightarrow> tokens sep s = []"
  by (subst tokens.simps) simp

lemma tokens_Some: "strtok sep s = Some (t, r) \<Longrightarrow> tokens sep s = t # tokens sep r"
  by (subst tokens.simps) simp

lemma tokens_sound: "t \<in> set (tokens sep s) \<Longrightarrow> t \<noteq> [] \<and> set t \<inter> set sep = {}"
proof (induction sep s rule: tokens.induct)
  case (1 sep s)
  show ?case
  proof (cases "strtok sep s")
    case None
    with "1.prems" show ?thesis by (simp add: tokens_None)
  next
    case (Some p)
    then obtain u r where p: "strtok sep s = Some (u, r)" by (cases p) auto
    with "1.prems" have "t = u \<or> t \<in> set (tokens sep r)" by (simp add: tokens_Some)
    with p "1.IH" [OF p refl] strtok_token [OF p] show ?thesis by auto
  qed
qed

lemma filter_drop_hd:
  assumes "w \<noteq> [] \<Longrightarrow> \<not> P (hd w)"
  shows "filter P w = filter P (drop 1 w)"
  using assms by (cases w) auto

text \<open>The tokens, in order, are the characters of the string that are not separators.\<close>

lemma concat_tokens: "concat (tokens sep s) = filter (\<lambda>c. c \<notin> set sep) s"
proof (induction sep s rule: tokens.induct)
  case (1 sep s)
  let ?s = "dropWhile (\<lambda>c. c \<in> set sep) s"
  let ?w = "dropWhile (\<lambda>c. c \<notin> set sep) ?s"
  have skip: "filter (\<lambda>c. c \<notin> set sep) s = filter (\<lambda>c. c \<notin> set sep) ?s"
    by (induction s) auto
  show ?case
  proof (cases "strtok sep s")
    case None
    then have "?s = []" by (simp add: strtok_def Let_def split: if_splits)
    with None skip show ?thesis by (simp add: tokens_None)
  next
    case (Some p)
    then obtain t r where tr: "strtok sep s = Some (t, r)" by (cases p) auto
    then have t: "t = takeWhile (\<lambda>c. c \<notin> set sep) ?s" and r: "r = drop 1 ?w"
      by (auto simp: strtok_def Let_def split: if_splits)
    have "filter (\<lambda>c. c \<notin> set sep) ?w = filter (\<lambda>c. c \<notin> set sep) (drop 1 ?w)"
      by (rule filter_drop_hd) (metis hd_dropWhile)
    moreover have "?s = t @ ?w" using t by simp
    moreover have "filter (\<lambda>c. c \<notin> set sep) t = t"
      using t by (auto simp: filter_id_conv dest: set_takeWhileD)
    ultimately have "filter (\<lambda>c. c \<notin> set sep) ?s = t @ filter (\<lambda>c. c \<notin> set sep) r"
      using r by (metis filter_append)
    with tr "1.IH" [OF tr refl] skip show ?thesis by (simp add: tokens_Some)
  qed
qed

text \<open>A word followed by a separator is the next token.\<close>

lemma strtok_word:
  assumes "t \<noteq> []" "set t \<inter> set sep = {}" "c \<in> set sep"
  shows "strtok sep (t @ c # r) = Some (t, r)"
proof -
  from assms(1,2) have "dropWhile (\<lambda>c. c \<in> set sep) (t @ c # r) = t @ c # r"
    by (cases t) auto
  moreover from assms(2,3) have "takeWhile (\<lambda>c. c \<notin> set sep) (t @ c # r) = t"
    "dropWhile (\<lambda>c. c \<notin> set sep) (t @ c # r) = c # r"
    by (auto simp: disjoint_iff takeWhile_append2 dropWhile_append2)
  ultimately show ?thesis by (simp add: strtok_def Let_def)
qed

lemma strtok_last:
  assumes "t \<noteq> []" "set t \<inter> set sep = {}"
  shows "strtok sep t = Some (t, [])"
proof -
  from assms have skip: "dropWhile (\<lambda>c. c \<in> set sep) t = t" by (cases t) auto
  from assms have all: "takeWhile (\<lambda>c. c \<notin> set sep) t = t"
    "dropWhile (\<lambda>c. c \<notin> set sep) t = []"
    by (auto simp: disjoint_iff takeWhile_eq_all_conv dropWhile_eq_Nil_conv)
  show ?thesis
    unfolding strtok_def Let_def skip all using assms(1) by simp
qed

fun join :: "char \<Rightarrow> cstr list \<Rightarrow> cstr" where
  "join c [] = []"
| "join c [x] = x"
| "join c (x # y # zs) = x @ c # join c (y # zs)"

lemma tokens_join:
  assumes "c \<in> set sep" "\<forall>w \<in> set ws. w \<noteq> [] \<and> set w \<inter> set sep = {}"
  shows "tokens sep (join c ws) = ws"
  using assms
proof (induction c ws rule: join.induct)
  case (1 c)
  then show ?case by (simp add: tokens_None strtok_def)
next
  case (2 c x)
  then have "strtok sep x = Some (x, [])" by (simp add: strtok_last)
  then show ?case by (simp add: tokens_Some tokens_None strtok_def)
next
  case (3 c x y zs)
  then have "strtok sep (join c (x # y # zs)) = Some (x, join c (y # zs))"
    by (simp add: strtok_word)
  with 3 show ?case by (simp add: tokens_Some)
qed

text \<open>
  \<^verbatim>\<open>fgets(buf, n, fp)\<close> on the unread part of a file: at most \<open>n - 1\<close> characters, up to
  and including the first newline; NULL at the end of the file.
\<close>

fun line_prefix :: "nat \<Rightarrow> cstr \<Rightarrow> cstr" where
  "line_prefix 0 s = []"
| "line_prefix (Suc n) [] = []"
| "line_prefix (Suc n) (c # cs) = (if c = newline then [c] else c # line_prefix n cs)"

definition fgets :: "nat \<Rightarrow> cstr \<Rightarrow> (cstr \<times> cstr) option" where
  "fgets n s = (if s = [] then None
     else let b = line_prefix (n - 1) s in Some (b, drop (length b) s))"

lemma line_prefix_take: "line_prefix n s = take (length (line_prefix n s)) s"
  by (induction n s rule: line_prefix.induct) auto

lemma length_line_prefix: "length (line_prefix n s) \<le> n" "length (line_prefix n s) \<le> length s"
  by (induction n s rule: line_prefix.induct) auto

lemma line_prefix_nonempty: "0 < n \<Longrightarrow> s \<noteq> [] \<Longrightarrow> line_prefix n s \<noteq> []"
  by (cases n; cases s) auto

lemma line_prefix_line:
  "newline \<notin> set l \<Longrightarrow> length l < n \<Longrightarrow> line_prefix n (l @ newline # r) = l @ [newline]"
  by (induction n l rule: line_prefix.induct) auto

lemma fgets_line:
  assumes "newline \<notin> set l" "length l + 1 < n"
  shows "fgets n (l @ newline # r) = Some (l @ [newline], r)"
  using assms by (simp add: fgets_def line_prefix_line Let_def)

lemma fgets_shorter: "1 < n \<Longrightarrow> fgets n s = Some (b, r) \<Longrightarrow> length r < length s"
  using line_prefix_nonempty [of "n - 1" s]
  by (auto simp: fgets_def Let_def split: if_splits)

definition strchr :: "cstr \<Rightarrow> char \<Rightarrow> cstr option" where
  "strchr s c = (case dropWhile (\<lambda>x. x \<noteq> c) s of [] \<Rightarrow> None | r \<Rightarrow> Some r)"

text \<open>\<^verbatim>\<open>strncmp(a, b, n) == 0\<close> and the prefix test it is used for.\<close>

definition strncmp0 :: "cstr \<Rightarrow> cstr \<Rightarrow> nat \<Rightarrow> bool" where
  "strncmp0 a b n \<longleftrightarrow> take n a = take n b"

text \<open>\<^verbatim>\<open>strstr(s, p) != NULL\<close>.\<close>

fun strstr :: "cstr \<Rightarrow> cstr \<Rightarrow> bool" where
  "strstr [] p = (p = [])"
| "strstr (c # cs) p = (take (length p) (c # cs) = p \<or> strstr cs p)"

text \<open>\<^verbatim>\<open>strstr(s, p) - s\<close>, the position of the first occurrence.\<close>

fun strpos :: "cstr \<Rightarrow> cstr \<Rightarrow> nat option" where
  "strpos [] p = (if p = [] then Some 0 else None)"
| "strpos (c # cs) p =
     (if take (length p) (c # cs) = p then Some 0 else map_option Suc (strpos cs p))"

lemma strpos_None: "strpos s p = None \<longleftrightarrow> \<not> strstr s p"
  by (induction s p rule: strpos.induct) auto

lemma strpos_Some: "strpos s p = Some k \<Longrightarrow> k + length p \<le> length s \<and> take (length p) (drop k s) = p"
proof (induction s p arbitrary: k rule: strpos.induct)
  case (1 p)
  then show ?case by (auto split: if_splits)
next
  case (2 c cs p)
  show ?case
  proof (cases "take (length p) (c # cs) = p")
    case True
    then have "length p \<le> length (c # cs)" by (metis length_take min.cobounded1)
    with True 2 show ?thesis by auto
  next
    case False
    with 2 obtain j where "strpos cs p = Some j" "k = Suc j" by auto
    with 2 False show ?thesis by auto
  qed
qed

lemma strpos_split:
  assumes "strpos s p = Some k"
  obtains u v where "s = u @ p @ v" "length u = k"
proof -
  from strpos_Some [OF assms] have k: "k + length p \<le> length s" "take (length p) (drop k s) = p" by auto
  have "s = take k s @ take (length p) (drop k s) @ drop (length p) (drop k s)"
    by (metis append_take_drop_id)
  with k that [of "take k s" "drop (length p) (drop k s)"] show ?thesis by simp
qed

lemma strstr_infix: "strstr s p \<longleftrightarrow> (\<exists>a b. s = a @ p @ b)"
proof (induction s p rule: strstr.induct)
  case (2 c cs p)
  have "take (length p) (c # cs) = p \<longleftrightarrow> (\<exists>b. c # cs = p @ b)"
    by (metis append_eq_conv_conj)
  with 2 show ?case
    by (auto simp: Cons_eq_append_conv)
qed auto

text \<open>The conversion of a wider integer to the 32-bit \<^verbatim>\<open>int\<close>.\<close>

definition to_int32 :: "int \<Rightarrow> int" where
  "to_int32 x = (x + 2 ^ 31) mod 2 ^ 32 - 2 ^ 31"

lemma to_int32_id: "- (2 ^ 31) \<le> x \<Longrightarrow> x < 2 ^ 31 \<Longrightarrow> to_int32 x = x"
  by (simp add: to_int32_def)

section \<open>Numbers in strings\<close>

text \<open>White space, sign and digits as \<^verbatim>\<open>strtoul\<close> and \<^verbatim>\<open>sscanf\<close> read them: negative, value, rest.\<close>

definition scan_number :: "cstr \<Rightarrow> (bool \<times> nat \<times> cstr) option" where
  "scan_number s =
     (let s1 = dropWhile is_space s;
          signed = (s1 \<noteq> [] \<and> (hd s1 = CHR ''-'' \<or> hd s1 = CHR ''+''));
          s2 = (if signed then tl s1 else s1)
      in if s2 = [] \<or> \<not> is_digit (hd s2) then None
         else Some (signed \<and> hd s1 = CHR ''-'', digits_val 0 s2, dropWhile is_digit s2))"

text \<open>\<^verbatim>\<open>%d\<close>: a 64-bit value, the nearest where it does not fit, cut to an \<^verbatim>\<open>int\<close>.\<close>

definition int_of_scan :: "bool \<Rightarrow> nat \<Rightarrow> int" where
  "int_of_scan neg n = to_int32 (if neg then max (- (2 ^ 63)) (- int n) else min (2 ^ 63 - 1) (int n))"

lemma dropWhile_digits:
  assumes "rest = [] \<or> \<not> is_digit (hd rest)"
  shows "dropWhile is_digit (dec_nat n @ rest) = rest"
  using assms dec_nat_digits [of n] by (cases rest) (auto simp: dropWhile_append)

lemma digits_val_dec:
  assumes "rest = [] \<or> \<not> is_digit (hd rest)"
  shows "digits_val 0 (dec_nat n @ rest) = n"
  using assms by (cases rest) (auto simp: digits_val_append dec_nat_digits)

lemma scan_number_dec:
  assumes "rest = [] \<or> \<not> is_digit (hd rest)"
  shows "scan_number (dec_nat n @ rest) = Some (False, n, rest)"
proof -
  obtain d ds where d: "dec_nat n = d # ds" "is_digit d" using dec_nat_Cons by blast
  then have "dropWhile is_space (dec_nat n @ rest) = dec_nat n @ rest" by (simp add: is_digit_not_space)
  moreover have "hd (dec_nat n @ rest) = d" using d by simp
  ultimately show ?thesis
    using d is_digit_not_sign [of d] dropWhile_digits [OF assms, of n] digits_val_dec [OF assms, of n]
    by (simp add: scan_number_def Let_def)
qed

section \<open>Signed integers of a given width\<close>

text \<open>
  Remainder and quotient round towards zero; an operation whose result does not fit the width
  is a signed overflow.
\<close>

abbreviation crem :: "int \<Rightarrow> int \<Rightarrow> int" where
  "crem \<equiv> signed_modulo"

abbreviation cdiv :: "int \<Rightarrow> int \<Rightarrow> int" where
  "cdiv \<equiv> signed_divide"

definition in_width :: "nat \<Rightarrow> int \<Rightarrow> bool" where
  "in_width w x \<longleftrightarrow> - (2 ^ (w - 1)) \<le> x \<and> x < 2 ^ (w - 1)"

definition checked :: "nat \<Rightarrow> int \<Rightarrow> int outcome" where
  "checked w x = (if in_width w x then Ok x else Fault)"

lemma crem_nonneg: "0 \<le> a \<Longrightarrow> 0 < b \<Longrightarrow> crem a b = a mod b"
  by (cases "a = 0") (simp_all add: signed_modulo_int_def)

lemma cdiv_nonneg: "0 \<le> a \<Longrightarrow> 0 < b \<Longrightarrow> cdiv a b = a div b"
  by (cases "a = 0") (simp_all add: signed_divide_int_def)

lemma checked_Ok [simp]: "in_width w x \<Longrightarrow> checked w x = Ok x"
  by (simp add: checked_def)

subsection \<open>Checked memory\<close>

text \<open>Blocks of bytes: reading and writing outside of them is a fault.\<close>

type_synonym bytes = "8 word list"

definition mem_read :: "bytes \<Rightarrow> int \<Rightarrow> int \<Rightarrow> bytes outcome" where
  "mem_read xs off n =
     (if 0 \<le> off \<and> 0 \<le> n \<and> off + n \<le> int (length xs) then Ok (take (nat n) (drop (nat off) xs)) else Fault)"

text \<open>\<^verbatim>\<open>memcpy(buf + off, src, n)\<close> for \<open>n\<close> bytes read before.\<close>

definition mem_write :: "bytes \<Rightarrow> int \<Rightarrow> bytes \<Rightarrow> bytes outcome" where
  "mem_write buf off xs =
     (if 0 \<le> off \<and> off + int (length xs) \<le> int (length buf)
      then Ok (take (nat off) buf @ xs @ drop (nat off + length xs) buf) else Fault)"

lemma mem_read_Ok:
  assumes "off + n \<le> length xs"
  shows "mem_read xs (int off) (int n) = Ok (take n (drop off xs))"
  using assms by (simp add: mem_read_def)

lemma mem_write_Ok:
  assumes "off + length ys \<le> length xs"
  shows "mem_write xs (int off) ys = Ok (take off xs @ ys @ drop (off + length ys) xs)"
  using assms by (simp add: mem_write_def)

end
