(* ===== verification/Splitstr.thy ===== *)
theory Splitstr
  imports LTP_Prelude
begin

text \<open>
  \<^verbatim>\<open>pan/splitstr.c\<close> and \<^verbatim>\<open>lib/string_to_tokens.c\<close>: cutting a string into its tokens.

  Both routines fill an array of pointers. An array is a list of cells whose length is its
  capacity, so that an access out of range is a \<open>Fault\<close>; a cell that \<^verbatim>\<open>malloc\<close> or
  \<^verbatim>\<open>realloc\<close> returned and nothing wrote is \<open>Uninit\<close>; a token is a pointer into the
  copied string, kept with its offset there, because \<^verbatim>\<open>splitstr_free\<close> hands the first
  token's pointer to \<^verbatim>\<open>free\<close>. Whether the allocator succeeds is a parameter.
\<close>

datatype cell = Uninit | NullPtr | Tok (tok_offset: nat) (tok_text: cstr)

record mem_env =
  strdup_ok :: bool
  malloc_ok :: bool
  realloc_ok :: "nat \<Rightarrow> bool"

section \<open>Definitions\<close>

text \<open>
  The \<^verbatim>\<open>while (cur_tok != NULL)\<close> loop. \<open>off\<close> is the offset of the unread string \<open>s\<close>, and
  the call of \<^verbatim>\<open>strtok\<close> at the head of a round is the one that ended the round before.
\<close>

function splitstr_loop ::
    "mem_env \<Rightarrow> char list \<Rightarrow> cell list \<Rightarrow> nat \<Rightarrow> nat \<Rightarrow> nat \<Rightarrow> cstr \<Rightarrow> (cell list \<times> nat \<times> nat) outcome"
where
  "splitstr_loop m sep arg_array num_toks max_toks off s =
     (case strtok sep s of
        None \<Rightarrow> Ok (arg_array, num_toks, max_toks)
      | Some (cur_tok, rest) \<Rightarrow>
          (let start = off + strtok_skip sep s;
               off' = start + length cur_tok + 1
           in case array_set arg_array num_toks (Tok start cur_tok) of
                Ok arr \<Rightarrow>
                  if num_toks + 1 = max_toks then
                    (if realloc_ok m (max_toks + 20)
                     then splitstr_loop m sep (arr @ replicate 20 Uninit) (num_toks + 1)
                            (max_toks + 20) off' rest
                     else Exit 1)
                  else splitstr_loop m sep arr (num_toks + 1) max_toks off' rest
              | Exit n \<Rightarrow> Exit n
              | Fault \<Rightarrow> Fault))"
  by pat_completeness auto
termination
  by (relation "measure (\<lambda>(m, sep, arr, n, mx, off, s). length s)")
    (auto dest: strtok_shorter)

text \<open>\<^verbatim>\<open>for (i = num_toks + 1; i < max_toks; i++) arg_array[i] = NULL\<close>\<close>

fun null_rest :: "nat \<Rightarrow> nat \<Rightarrow> cell list \<Rightarrow> cell list outcome" where
  "null_rest i 0 arr = Ok arr"
| "null_rest i (Suc k) arr =
     bind_outcome (array_set arr i NullPtr) (\<lambda>arr'. null_rest (Suc i) k arr')"

text \<open>The result is the returned array (\<open>None\<close> for NULL) and \<^verbatim>\<open>*argcount\<close>.\<close>

definition splitstr ::
    "mem_env \<Rightarrow> cstr option \<Rightarrow> char list option \<Rightarrow> (cell list option \<times> int) outcome"
where
  "splitstr m str separator =
     (case str of
        None \<Rightarrow> Ok (None, 0)
      | Some s \<Rightarrow>
          if \<not> strdup_ok m then Ok (None, 0)
          else if \<not> malloc_ok m then Ok (None, 0)
          else
            (let sep = (case separator of None \<Rightarrow> [CHR '' '', tab] | Some x \<Rightarrow> x)
             in bind_outcome (splitstr_loop m sep (replicate 20 Uninit) 0 20 0 s)
                  (\<lambda>(arr, num_toks, max_toks).
                     bind_outcome (array_set arr num_toks NullPtr)
                       (\<lambda>arr'. bind_outcome (null_rest (num_toks + 1) (max_toks - (num_toks + 1)) arr')
                          (\<lambda>arr''. Ok (Some arr'', int num_toks))))))"

text \<open>
  \<^verbatim>\<open>splitstr_free\<close>: the pointer in the first cell goes to \<^verbatim>\<open>free\<close>, which is defined for
  the start of the copied string only. The value says whether the copy was released.
\<close>

definition splitstr_free :: "cell list option \<Rightarrow> bool outcome" where
  "splitstr_free p_return =
     (case p_return of
        None \<Rightarrow> Fault
      | Some [] \<Rightarrow> Fault
      | Some (c # cs) \<Rightarrow>
          (case c of
             NullPtr \<Rightarrow> Ok False
           | Tok off t \<Rightarrow> if off = 0 then Ok True else Fault
           | Uninit \<Rightarrow> Fault))"

text \<open>The token texts before the first NULL, as a caller reads the array.\<close>

fun argv_of :: "cell list \<Rightarrow> cstr list" where
  "argv_of (Tok off t # cs) = t # argv_of cs"
| "argv_of _ = []"

text \<open>The \<^verbatim>\<open>for\<close> loop of \<^verbatim>\<open>string_to_tokens\<close> from its second token on.\<close>

function string_to_tokens_loop ::
    "char list \<Rightarrow> nat \<Rightarrow> cell list \<Rightarrow> nat \<Rightarrow> nat \<Rightarrow> cstr \<Rightarrow> (cell list \<times> nat) outcome"
where
  "string_to_tokens_loop sep array_size arr num_toks off s =
     (if num_toks < array_size then
        (case strtok sep s of
           None \<Rightarrow> bind_outcome (array_set arr num_toks NullPtr) (\<lambda>arr'. Ok (arr', num_toks))
         | Some (t, rest) \<Rightarrow>
             (let start = off + strtok_skip sep s
              in case array_set arr num_toks (Tok start t) of
                   Ok arr' \<Rightarrow> string_to_tokens_loop sep array_size arr' (num_toks + 1)
                                (start + length t + 1) rest
                 | Exit n \<Rightarrow> Exit n
                 | Fault \<Rightarrow> Fault))
      else Ok (arr, num_toks))"
  by pat_completeness auto
termination
  by (relation "measure (\<lambda>(sep, sz, arr, n, off, s). length s)") (auto dest: strtok_shorter)

definition string_to_tokens ::
    "cstr \<Rightarrow> cell list option \<Rightarrow> int \<Rightarrow> char list option \<Rightarrow> (cell list option \<times> int) outcome"
where
  "string_to_tokens arg_string arg_array array_size separator =
     (case (arg_array, separator) of
        (Some arr, Some sep) \<Rightarrow>
          if array_size \<le> 1 then Ok (arg_array, -1)
          else
            (case strtok sep arg_string of
               None \<Rightarrow> bind_outcome (array_set arr 0 NullPtr) (\<lambda>arr'. Ok (Some arr', 0))
             | Some (t, rest) \<Rightarrow>
                 (let start = strtok_skip sep arg_string
                  in bind_outcome (array_set arr 0 (Tok start t))
                       (\<lambda>arr'. bind_outcome
                          (string_to_tokens_loop sep (nat array_size) arr' 1
                             (start + length t + 1) rest)
                          (\<lambda>(arr'', num_toks).
                             if num_toks = nat array_size
                             then bind_outcome (array_set arr'' num_toks NullPtr)
                                    (\<lambda>a. Ok (Some a, int num_toks))
                             else Ok (Some arr'', int num_toks)))))
      | _ \<Rightarrow> Ok (arg_array, -1))"

section \<open>Properties\<close>

declare splitstr_loop.simps [simp del] string_to_tokens_loop.simps [simp del]

text \<open>The cells a complete scan of \<open>s\<close> from offset \<open>off\<close> has to produce.\<close>

function token_cells :: "char list \<Rightarrow> nat \<Rightarrow> cstr \<Rightarrow> cell list" where
  "token_cells sep off s =
     (case strtok sep s of
        None \<Rightarrow> []
      | Some (t, r) \<Rightarrow>
          Tok (off + strtok_skip sep s) t
            # token_cells sep (off + strtok_skip sep s + length t + 1) r)"
  by pat_completeness auto
termination
  by (relation "measure (\<lambda>(sep, off, s). length s)") (auto dest: strtok_shorter)

declare token_cells.simps [simp del]

lemma token_cells_None: "strtok sep s = None \<Longrightarrow> token_cells sep off s = []"
  by (subst token_cells.simps) simp

lemma token_cells_Some:
  "strtok sep s = Some (t, r) \<Longrightarrow> token_cells sep off s =
     Tok (off + strtok_skip sep s) t
       # token_cells sep (off + strtok_skip sep s + length t + 1) r"
  by (subst token_cells.simps) simp

lemma argv_of_token_cells: "argv_of (token_cells sep off s @ NullPtr # cs) = tokens sep s"
proof (induction sep off s rule: token_cells.induct)
  case (1 sep off s)
  show ?case
  proof (cases "strtok sep s")
    case None
    then show ?thesis by (simp add: token_cells_None tokens_None)
  next
    case (Some p)
    then obtain t r where tr: "strtok sep s = Some (t, r)" by (cases p) auto
    from "1.IH" [OF tr refl] tr show ?thesis
      by (simp add: token_cells_Some tokens_Some)
  qed
qed

lemma length_token_cells [simp]: "length (token_cells sep off s) = length (tokens sep s)"
proof (induction sep off s rule: token_cells.induct)
  case (1 sep off s)
  show ?case
  proof (cases "strtok sep s")
    case None
    then show ?thesis by (simp add: token_cells_None tokens_None)
  next
    case (Some p)
    then obtain t r where tr: "strtok sep s = Some (t, r)" by (cases p) auto
    from "1.IH" [OF tr refl] tr show ?thesis
      by (simp add: token_cells_Some tokens_Some)
  qed
qed

lemma splitstr_loop_correct:
  assumes "\<And>k. realloc_ok m k" "length arr = max_toks" "num_toks < max_toks"
  shows "\<exists>arr' max'. splitstr_loop m sep arr num_toks max_toks off s =
           Ok (arr', num_toks + length (tokens sep s), max') \<and>
         length arr' = max' \<and> num_toks + length (tokens sep s) < max' \<and>
         take (num_toks + length (tokens sep s)) arr' = take num_toks arr @ token_cells sep off s"
  using assms
proof (induction m sep arr num_toks max_toks off s rule: splitstr_loop.induct)
  case (1 m sep arr num_toks max_toks off s)
  show ?case
  proof (cases "strtok sep s")
    case None
    with "1.prems" show ?thesis
      by (subst splitstr_loop.simps) (simp add: tokens_None token_cells_None)
  next
    case (Some p)
    then obtain t r where tr: "strtok sep s = Some (t, r)" by (cases p) auto
    let ?c = "Tok (off + strtok_skip sep s) t"
    have one: "take (Suc num_toks) (arr[num_toks := ?c]) = take num_toks arr @ [?c]"
      using "1.prems" by (simp add: take_Suc_conv_app_nth)
    note next_round = "1.IH" [OF tr refl refl refl array_set_Ok]
    show ?thesis
    proof (cases "num_toks + 1 = max_toks")
      case True
      then have len: "length arr = Suc num_toks" "max_toks = Suc num_toks"
        using "1.prems" by auto
      show ?thesis
        using one tr next_round(1) len "1.prems"(1)
        by (subst splitstr_loop.simps)
          (simp add: tokens_Some token_cells_Some Let_def "1.prems"(1))
    next
      case False
      with "1.prems" one tr next_round(2) show ?thesis
        by (subst splitstr_loop.simps)
          (auto simp: tokens_Some token_cells_Some Let_def)
    qed
  qed
qed

lemma null_rest_correct:
  "i + k = length arr \<Longrightarrow> null_rest i k arr = Ok (take i arr @ replicate k NullPtr)"
proof (induction i k arr rule: null_rest.induct)
  case (1 i arr)
  then show ?case by simp
next
  case (2 i k arr)
  then have "null_rest (Suc i) k (arr[i := NullPtr]) =
      Ok (take (Suc i) (arr[i := NullPtr]) @ replicate k NullPtr)"
    by simp
  with "2.prems" show ?case by (simp add: take_Suc_conv_app_nth)
qed

abbreviation sep_chars :: "char list option \<Rightarrow> char list" where
  "sep_chars separator \<equiv> (case separator of None \<Rightarrow> [CHR '' '', tab] | Some x \<Rightarrow> x)"

lemma splitstr_result:
  assumes "strdup_ok m" "malloc_ok m" "\<And>k. realloc_ok m k"
  shows "\<exists>k. splitstr m (Some s) separator =
     Ok (Some (token_cells (sep_chars separator) 0 s @ replicate (Suc k) NullPtr),
         int (length (tokens (sep_chars separator) s)))"
proof -
  let ?sep = "sep_chars separator"
  let ?n = "length (tokens ?sep s)"
  obtain arr where loop: "splitstr_loop m ?sep (replicate 20 Uninit) 0 20 0 s = Ok (arr, ?n, length arr)"
    and n: "?n < length arr" and pre: "take ?n arr = token_cells ?sep 0 s"
    using splitstr_loop_correct [of m "replicate 20 Uninit" 20 0 ?sep 0 s] assms(3) by auto
  let ?k = "length arr - Suc ?n"
  have "null_rest (?n + 1) ?k (arr[?n := NullPtr]) =
      Ok (take (?n + 1) (arr[?n := NullPtr]) @ replicate ?k NullPtr)"
    using n by (intro null_rest_correct) simp
  moreover have "take (?n + 1) (arr[?n := NullPtr]) = token_cells ?sep 0 s @ [NullPtr]"
    using n pre by (simp add: take_Suc_conv_app_nth)
  ultimately have "splitstr m (Some s) separator =
      Ok (Some (token_cells ?sep 0 s @ replicate (Suc ?k) NullPtr), int ?n)"
    using assms(1,2) loop n by (simp add: splitstr_def)
  then show ?thesis by blast
qed

lemma string_to_tokens_loop_correct:
  assumes "num_toks \<le> array_size" "array_size \<le> length arr"
  shows "string_to_tokens_loop sep array_size arr num_toks off s =
    (let ts = token_cells sep off s; n = num_toks + length ts
     in if n < array_size
        then Ok (take num_toks arr @ ts @ NullPtr # drop (Suc n) arr, n)
        else Ok (take num_toks arr @ take (array_size - num_toks) ts @ drop array_size arr,
                 array_size))"
  using assms
proof (induction sep array_size arr num_toks off s rule: string_to_tokens_loop.induct)
  case (1 sep array_size arr num_toks off s)
  show ?case
  proof (cases "num_toks < array_size")
    case False
    with "1.prems" show ?thesis by (subst string_to_tokens_loop.simps) (simp add: Let_def)
  next
    case less: True
    show ?thesis
    proof (cases "strtok sep s")
      case None
      with less "1.prems" show ?thesis
        by (subst string_to_tokens_loop.simps)
          (simp add: Let_def token_cells_None tokens_None upd_conv_take_nth_drop)
    next
      case (Some p)
      then obtain t r where tr: "strtok sep s = Some (t, r)" by (cases p) auto
      let ?start = "off + strtok_skip sep s"
      let ?arr = "arr[num_toks := Tok ?start t]"
      have "string_to_tokens_loop sep array_size arr num_toks off s =
          string_to_tokens_loop sep array_size ?arr (num_toks + 1) (?start + length t + 1) r"
        using less tr "1.prems" by (subst string_to_tokens_loop.simps) (simp add: Let_def)
      moreover have "take (num_toks + 1) ?arr = take num_toks arr @ [Tok ?start t]"
        using less "1.prems" by (simp add: take_Suc_conv_app_nth)
      moreover have "take (array_size - num_toks) (c # cs) =
          c # take (array_size - Suc num_toks) cs" for c :: cell and cs
        using less by (simp add: take_Cons')
      ultimately show ?thesis
        using "1.IH" [OF less tr refl refl array_set_Ok] less "1.prems" tr
        by (simp add: Let_def token_cells_Some tokens_Some)
    qed
  qed
qed

text \<open>
  \<^verbatim>\<open>splitstr\<close> never writes outside its array and never leaves a cell of it
  unset: when memory can be had, the array it returns holds exactly the tokens of the
  string, in order, \<^verbatim>\<open>argcount\<close> is their number, and every cell behind them is NULL.
\<close>

lemma splitstr_tokens:
  assumes "strdup_ok m" "malloc_ok m" "\<And>k. realloc_ok m k"
  shows "\<exists>arr. splitstr m (Some s) separator =
           Ok (Some arr, int (length (tokens (sep_chars separator) s))) \<and>
         argv_of arr = tokens (sep_chars separator) s \<and>
         length (tokens (sep_chars separator) s) < length arr \<and>
         (\<forall>i. length (tokens (sep_chars separator) s) \<le> i \<and> i < length arr \<longrightarrow> arr ! i = NullPtr)"
proof -
  from splitstr_result [OF assms, of s separator] obtain k where
    "splitstr m (Some s) separator =
       Ok (Some (token_cells (sep_chars separator) 0 s @ replicate (Suc k) NullPtr),
           int (length (tokens (sep_chars separator) s)))" ..
  moreover have "argv_of (token_cells (sep_chars separator) 0 s @ replicate (Suc k) NullPtr) =
      tokens (sep_chars separator) s"
    using argv_of_token_cells [of "sep_chars separator" 0 s "replicate k NullPtr"] by simp
  ultimately show ?thesis
    by (intro exI [of _ "token_cells (sep_chars separator) 0 s @ replicate (Suc k) NullPtr"])
      (auto simp: nth_append nth_Cons' simp del: replicate.simps simp: replicate_Suc)
qed

definition mem_plenty :: mem_env where
  "mem_plenty = \<lparr>strdup_ok = True, malloc_ok = True, realloc_ok = (\<lambda>_. True)\<rparr>"

text \<open>
  \<^verbatim>\<open>splitstr\<close> undoes joining: words without separators, joined by a separator, come
  back from the array.
\<close>

lemma splitstr_join:
  assumes "strdup_ok m" "malloc_ok m" "\<And>k. realloc_ok m k"
    and "c \<in> set sep" "\<forall>w \<in> set ws. w \<noteq> [] \<and> set w \<inter> set sep = {}"
  shows "\<exists>arr. splitstr m (Some (join c ws)) (Some sep) = Ok (Some arr, int (length ws)) \<and>
     argv_of arr = ws"
proof -
  from tokens_join [OF assms(4,5)] have ts: "tokens sep (join c ws) = ws" .
  from splitstr_result [OF assms(1-3), of "join c ws" "Some sep"] obtain k where
    "splitstr m (Some (join c ws)) (Some sep) =
       Ok (Some (token_cells sep 0 (join c ws) @ NullPtr # replicate k NullPtr), int (length ws))"
    by (auto simp: ts)
  then show ?thesis
    using argv_of_token_cells [of sep 0 "join c ws" "replicate k NullPtr"] ts by auto
qed

definition mem_fine :: "mem_env \<Rightarrow> bool" where
  "mem_fine m \<longleftrightarrow> strdup_ok m \<and> malloc_ok m \<and> (\<forall>k. realloc_ok m k)"

lemma mem_plenty_fine: "mem_fine mem_plenty"
  by (simp add: mem_fine_def mem_plenty_def)

lemma splitstr_cycle:
  assumes "mem_fine m"
  shows "\<exists>arr. splitstr m (Some s) separator = Ok (Some arr, int (length (tokens (sep_chars separator) s))) \<and>
     argv_of arr = tokens (sep_chars separator) s \<and>
     splitstr_free (Some arr) =
       (if tokens (sep_chars separator) s = [] then Ok False
        else if hd s \<in> set (sep_chars separator) then Fault else Ok True)"
proof -
  let ?sep = "sep_chars separator"
  have ok: "strdup_ok m" "malloc_ok m" "\<And>k. realloc_ok m k" using assms by (auto simp: mem_fine_def)
  from splitstr_result [OF ok, of s separator] obtain k where
    p: "splitstr m (Some s) separator = Ok (Some (token_cells ?sep 0 s @ NullPtr # replicate k NullPtr),
      int (length (tokens ?sep s)))" by auto
  have "splitstr_free (Some (token_cells ?sep 0 s @ NullPtr # replicate k NullPtr)) =
    (if tokens ?sep s = [] then Ok False else if hd s \<in> set ?sep then Fault else Ok True)"
  proof (cases "strtok ?sep s")
    case None
    then show ?thesis by (simp add: splitstr_free_def token_cells_None tokens_None)
  next
    case (Some q)
    then obtain t r where tr: "strtok ?sep s = Some (t, r)" by (cases q) auto
    then show ?thesis
      using strtok_skip_0 [OF tr] by (auto simp: splitstr_free_def token_cells_Some tokens_Some)
  qed
  with p show ?thesis by (auto simp: argv_of_token_cells)
qed

text \<open>
  What \<^verbatim>\<open>splitstr_free\<close> does with a result of \<^verbatim>\<open>splitstr\<close>: it releases the
  copied string only when the string starts with a token; a string of separators alone is
  never released, and one that starts with a separator makes it pass \<^verbatim>\<open>free\<close> a pointer
  into the middle of the copy.
\<close>

lemma splitstr_free_behaviour:
  assumes "strdup_ok m" "malloc_ok m" "\<And>k. realloc_ok m k"
    and "splitstr m (Some s) separator = Ok (p, n)"
  shows "splitstr_free p =
    (if tokens (sep_chars separator) s = [] then Ok False
     else if hd s \<in> set (sep_chars separator) then Fault else Ok True)"
  using splitstr_cycle [of m s separator] assms by (auto simp: mem_fine_def)

text \<open>
  With fewer tokens than \<^verbatim>\<open>array_size\<close>, \<^verbatim>\<open>string_to_tokens\<close> stays inside the
  array, returns their number and leaves them in order before a NULL.
\<close>

lemma string_to_tokens_fits:
  assumes "1 < array_size" "nat array_size \<le> length arr" "int (length (tokens sep s)) < array_size"
  shows "\<exists>arr'. string_to_tokens s (Some arr) array_size (Some sep) =
           Ok (Some arr', int (length (tokens sep s))) \<and>
         argv_of arr' = tokens sep s \<and> length arr' = length arr"
proof (cases "strtok sep s")
  case None
  with assms show ?thesis
    by (cases arr) (auto simp: string_to_tokens_def tokens_None)
next
  case (Some p)
  then obtain t r where tr: "strtok sep s = Some (t, r)" by (cases p) auto
  let ?c = "Tok (strtok_skip sep s) t"
  let ?ts = "token_cells sep (strtok_skip sep s + length t + 1) r"
  from assms obtain a as where arr: "arr = a # as" by (cases arr) auto
  from assms(3) tr have small: "Suc (length (tokens sep r)) < nat array_size"
    by (simp add: tokens_Some)
  have "string_to_tokens_loop sep (nat array_size) (?c # as) 1
      (strtok_skip sep s + length t + 1) r =
      Ok (?c # ?ts @ NullPtr # drop (Suc (length (tokens sep r))) as, Suc (length (tokens sep r)))"
    using assms(1,2) arr small by (subst string_to_tokens_loop_correct) (auto simp: Let_def)
  with assms(1) arr tr small have
    "string_to_tokens s (Some arr) array_size (Some sep) =
       Ok (Some (?c # ?ts @ NullPtr # drop (Suc (length (tokens sep r))) as),
           int (Suc (length (tokens sep r))))"
    by (simp add: string_to_tokens_def Let_def)
  with tr arr small assms(2) show ?thesis
    by (auto simp: tokens_Some argv_of_token_cells)
qed

text \<open>
  The header of \<^verbatim>\<open>string_to_tokens\<close> promises that only the first
  \<open>array_size - 1\<close> tokens are stored. With an array of exactly \<^verbatim>\<open>array_size\<close> cells and
  at least as many tokens, the terminating NULL is written behind the end of the array.
\<close>

lemma string_to_tokens_overflow:
  assumes "1 < array_size" "length arr = nat array_size" "array_size \<le> int (length (tokens sep s))"
  shows "string_to_tokens s (Some arr) array_size (Some sep) = Fault"
proof -
  from assms(1,3) have "tokens sep s \<noteq> []" by auto
  then obtain t r where tr: "strtok sep s = Some (t, r)"
    by (cases "strtok sep s") (auto simp: tokens_None)
  let ?c = "Tok (strtok_skip sep s) t"
  from assms obtain a as where arr: "arr = a # as" by (cases arr) auto
  from assms(1,3) tr have many: "\<not> Suc (length (tokens sep r)) < nat array_size"
    by (simp add: tokens_Some)
  have "\<exists>arr'. string_to_tokens_loop sep (nat array_size) (?c # as) 1
      (strtok_skip sep s + length t + 1) r = Ok (arr', nat array_size) \<and> length arr' = nat array_size"
    using assms(1,2) arr many by (subst string_to_tokens_loop_correct) (auto simp: Let_def)
  with assms(1) arr tr show ?thesis
    by (auto simp: string_to_tokens_def Let_def array_set_def)
qed

end
