(* ===== verification/Zoolib.thy ===== *)
theory Zoolib
  imports LTP_Prelude
begin

text \<open>
  \<^verbatim>\<open>pan/zoolib.c\<close>: the zoo, a text file that records which test tags are running.

  The state is the open stream: the contents of the file, whether this process holds the
  write lock, and \<^verbatim>\<open>zoo_error\<close>. What the system calls answer is part of the state as a
  script: \<open>zfcntl\<close> lists the errno values (0 for success) of the next \<^verbatim>\<open>fcntl\<close> calls and
  \<open>zfseek\<close> those of the next \<^verbatim>\<open>fseek\<close> calls; after the listed calls every further call
  succeeds. \<open>zopen\<close> is false for the NULL stream. The signal mask is set and put back
  around the lock and has no other effect, so it is left out.
\<close>

record zoo =
  zopen :: bool
  zcontent :: cstr
  zlock :: bool
  zfcntl :: "int list"
  zfseek :: "int list"
  zoo_error :: cstr
  strerror :: "int \<Rightarrow> cstr"

abbreviation ZELEN :: nat where
  "ZELEN \<equiv> 512"

abbreviation BUFLEN :: nat where
  "BUFLEN \<equiv> 81"

section \<open>Definitions\<close>

definition errno_text :: "(int \<Rightarrow> cstr) \<Rightarrow> int \<Rightarrow> cstr" where
  "errno_text f e = '', errno:'' @ dec_int e @ '' '' @ f e"

definition set_zoo_error :: "cstr \<Rightarrow> zoo \<Rightarrow> zoo" where
  "set_zoo_error msg z = z\<lparr>zoo_error := snprintf ZELEN msg\<rparr>"

definition zoo_getname :: "cstr option \<Rightarrow> cstr option" where
  "zoo_getname zoo_env = (case zoo_env of
       Some dir \<Rightarrow> Some (snprintf 1024 (dir @ ''/'' @ ''active''))
     | None \<Rightarrow> None)"

text \<open>The errno values of the three \<^verbatim>\<open>fopen\<close> calls and what the file holds.\<close>

record fopen_env =
  fe_rplus :: int
  fe_append :: int
  fe_again :: int
  fe_content :: cstr

definition zoo_open :: "fopen_env \<Rightarrow> cstr \<Rightarrow> zoo \<Rightarrow> zoo" where
  "zoo_open e zooname z =
     (if fe_rplus e = 0 then z\<lparr>zopen := True, zcontent := fe_content e\<rparr>
      else if fe_rplus e = ENOENT then
        (if fe_append e \<noteq> 0 then
           set_zoo_error (''Could not open zoo as \"'' @ zooname @ ''\"''
             @ errno_text (strerror z) (fe_append e)) (z\<lparr>zopen := False\<rparr>)
         else if fe_again e = 0 then z\<lparr>zopen := True, zcontent := []\<rparr>
         else z\<lparr>zopen := False\<rparr>)
      else
        set_zoo_error (''Could not open zoo as \"'' @ zooname @ ''\"''
          @ errno_text (strerror z) (fe_rplus e)) (z\<lparr>zopen := False\<rparr>))"

definition zoo_close :: "int \<Rightarrow> zoo \<Rightarrow> int \<times> zoo" where
  "zoo_close err z =
     (if err \<noteq> 0
      then (-1, set_zoo_error (''closing zoo caused error'' @ errno_text (strerror z) err)
                  (z\<lparr>zopen := False, zlock := False\<rparr>))
      else (0, z\<lparr>zopen := False, zlock := False\<rparr>))"

text \<open>\<^verbatim>\<open>do ret = fcntl(...) while (ret == -1 && errno == EINTR)\<close>\<close>

fun fcntl_retry :: "int list \<Rightarrow> int \<times> int list" where
  "fcntl_retry [] = (0, [])"
| "fcntl_retry (e # es) = (if e = EINTR then fcntl_retry es else (e, es))"

definition zoo_lock :: "zoo \<Rightarrow> int \<times> zoo" where
  "zoo_lock z =
     (if \<not> zopen z then (-1, z)
      else case fcntl_retry (zfcntl z) of (e, rest) \<Rightarrow>
        if e \<noteq> 0
        then (-1, set_zoo_error (''failed to unlock zoo file'' @ errno_text (strerror z) e)
                    (z\<lparr>zfcntl := rest\<rparr>))
        else (0, z\<lparr>zfcntl := rest, zlock := True\<rparr>))"

definition zoo_unlock :: "zoo \<Rightarrow> int \<times> zoo" where
  "zoo_unlock z =
     (if \<not> zopen z then (-1, z)
      else case fcntl_retry (zfcntl z) of (e, rest) \<Rightarrow>
        if e \<noteq> 0
        then (-1, set_zoo_error (''failed to lock zoo file'' @ errno_text (strerror z) e)
                    (z\<lparr>zfcntl := rest\<rparr>))
        else (0, z\<lparr>zfcntl := rest, zlock := False\<rparr>))"

definition zoo_fseek :: "zoo \<Rightarrow> int \<times> zoo" where
  "zoo_fseek z = (case zfseek z of [] \<Rightarrow> (0, z) | e # es \<Rightarrow> (e, z\<lparr>zfseek := es\<rparr>))"

definition cstring_of :: "cstr \<Rightarrow> cstr" where
  "cstring_of buf = takeWhile (\<lambda>c. c \<noteq> nul) buf"

text \<open>The first-fit loop of \<^verbatim>\<open>zoo_mark\<close>: position and contents of the first line that starts with \<^verbatim>\<open>#\<close>.\<close>

function zoo_find_free :: "nat \<Rightarrow> cstr \<Rightarrow> (nat \<times> cstr) option" where
  "zoo_find_free pos rest =
     (case fgets BUFLEN rest of
        None \<Rightarrow> None
      | Some (buf, rest') \<Rightarrow>
          if hd buf = CHR ''#'' then Some (pos, buf)
          else zoo_find_free (pos + length buf) rest')"
  by pat_completeness auto
termination
  by (relation "measure (\<lambda>(pos, rest). length rest)") (auto dest: fgets_shorter [rotated])

definition zoo_mark :: "zoo \<Rightarrow> cstr \<Rightarrow> int \<times> zoo" where
  "zoo_mark z entry =
     (if \<not> zopen z then (-1, z)
      else case zoo_lock z of (r, z1) \<Rightarrow>
        if r \<noteq> 0 then (-1, z1)
        else
          (case zoo_find_free 0 (zcontent z1) of
             Some (pos, buf) \<Rightarrow>
               (case zoo_fseek z1 of (e, z2) \<Rightarrow>
                  if e \<noteq> 0
                  then (-1, set_zoo_error (''seek error while writing to zoo file''
                              @ errno_text (strerror z2) e) z2)
                  else
                    (let n = length (cstring_of buf) - 1;
                         z3 = z2\<lparr>zcontent := overwrite pos (fmt_left n n entry @ [newline]) (zcontent z2)\<rparr>
                     in case zoo_unlock z3 of (u, z4) \<Rightarrow> if u \<noteq> 0 then (-1, z4) else (0, z4)))
           | None \<Rightarrow>
               (case zoo_fseek z1 of (e, z2) \<Rightarrow>
                  if e \<noteq> 0
                  then (-1, set_zoo_error (''error seeking to end of zoo file''
                              @ errno_text (strerror z2) e) z2)
                  else
                    (let z3 = z2\<lparr>zcontent := zcontent z2 @ fmt_left 79 79 entry @ [newline]\<rparr>
                     in case zoo_unlock z3 of (u, z4) \<Rightarrow> if u \<noteq> 0 then (-1, z4) else (0, z4)))))"

definition zoo_entry :: "int \<Rightarrow> cstr \<Rightarrow> cstr \<Rightarrow> cstr" where
  "zoo_entry p tag cmdline = snprintf 80 (dec_int p @ '','' @ tag @ '','' @ cmdline)"

definition zoo_mark_cmdline :: "zoo \<Rightarrow> int \<Rightarrow> cstr \<Rightarrow> cstr \<Rightarrow> int \<times> zoo" where
  "zoo_mark_cmdline z p tag cmdline = zoo_mark z (zoo_entry p tag cmdline)"

text \<open>
  \<^verbatim>\<open>cat_args\<close>: \<open>size\<close> bytes are allocated and the arguments are concatenated into them with
  a NUL at the end; more than \<open>size\<close> bytes would be written out of bounds.
\<close>

definition cat_size :: "cstr list \<Rightarrow> nat" where
  "cat_size argv = fold (\<lambda>a size. size + length a + 1) argv 0"

fun cat_args_loop :: "nat \<Rightarrow> cstr \<Rightarrow> cstr list \<Rightarrow> cstr" where
  "cat_args_loop a cmd [] = cmd"
| "cat_args_loop a cmd (x # xs) =
     cat_args_loop (Suc a) ((if a \<noteq> 0 then cmd @ '' '' else cmd) @ x) xs"

definition cat_args :: "bool \<Rightarrow> cstr list \<Rightarrow> cstr option outcome" where
  "cat_args malloc_succeeds argv =
     (if \<not> malloc_succeeds then Ok None
      else let cmd = cat_args_loop 0 [] argv
           in if length cmd + 1 \<le> cat_size argv then Ok (Some cmd) else Fault)"

text \<open>A NULL command line reaches the \<^verbatim>\<open>%s\<close> of \<^verbatim>\<open>snprintf\<close>.\<close>

definition zoo_mark_args :: "bool \<Rightarrow> zoo \<Rightarrow> int \<Rightarrow> cstr \<Rightarrow> cstr list \<Rightarrow> (int \<times> zoo) outcome" where
  "zoo_mark_args malloc_succeeds z p tag av =
     bind_outcome (cat_args malloc_succeeds av)
       (\<lambda>c. case c of None \<Rightarrow> Fault | Some cmdline \<Rightarrow> Ok (zoo_mark_cmdline z p tag cmdline))"

function zoo_find_pid :: "int \<Rightarrow> nat \<Rightarrow> cstr \<Rightarrow> nat option" where
  "zoo_find_pid p pos rest =
     (case fgets BUFLEN rest of
        None \<Rightarrow> None
      | Some (buf, rest') \<Rightarrow>
          if hd buf = CHR ''#'' then zoo_find_pid p (pos + length buf) rest'
          else if atoi buf = p then Some pos
          else zoo_find_pid p (pos + length buf) rest')"
  by pat_completeness auto
termination
  by (relation "measure (\<lambda>(p, pos, rest). length rest)") (auto dest: fgets_shorter [rotated])

definition zoo_clear :: "zoo \<Rightarrow> int \<Rightarrow> int \<times> zoo" where
  "zoo_clear z p =
     (if \<not> zopen z then (-1, z)
      else case zoo_lock z of (r, z1) \<Rightarrow>
        if r \<noteq> 0 then (-1, z1)
        else
          (case zoo_find_pid p 0 (zcontent z1) of
             Some pos \<Rightarrow>
               (case zoo_fseek z1 of (e, z2) \<Rightarrow>
                  if e \<noteq> 0
                  then (-1, set_zoo_error (''seek error while writing to zoo file''
                              @ errno_text (strerror z2) e) z2)
                  else
                    (let z3 = z2\<lparr>zcontent := overwrite pos ''#'' (zcontent z2)\<rparr>
                     in case zoo_unlock z3 of (u, z4) \<Rightarrow> if u \<noteq> 0 then (-1, z4) else (0, z4)))
           | None \<Rightarrow>
               (case zoo_unlock z1 of (u, z2) \<Rightarrow>
                  if u \<noteq> 0 then (-1, z2)
                  else (1, set_zoo_error (''zoo_clear() did not find pid('' @ dec_int p @ '')'') z2))))"

function zoo_find_tag :: "cstr \<Rightarrow> cstr \<Rightarrow> int" where
  "zoo_find_tag tag rest =
     (case fgets BUFLEN rest of
        None \<Rightarrow> -1
      | Some (buf, rest') \<Rightarrow>
          if hd buf = CHR ''#'' then zoo_find_tag tag rest'
          else (case strchr (cstring_of buf) (CHR '','') of
                  None \<Rightarrow> zoo_find_tag tag rest'
                | Some s \<Rightarrow>
                    if strncmp0 (drop 1 s) tag (length tag) then atoi buf
                    else zoo_find_tag tag rest'))"
  by pat_completeness auto
termination
  by (relation "measure (\<lambda>(tag, rest). length rest)") (auto dest: fgets_shorter [rotated])

definition zoo_getpid :: "zoo \<Rightarrow> cstr \<Rightarrow> int \<times> zoo" where
  "zoo_getpid z tag =
     (if \<not> zopen z then (-1, z)
      else case zoo_lock z of (r, z1) \<Rightarrow>
        if r \<noteq> 0 then (-1, z1)
        else (case zoo_unlock z1 of (u, z2) \<Rightarrow>
                if u \<noteq> 0 then (-1, z2) else (zoo_find_tag tag (zcontent z1), z2)))"

declare zoo_find_free.simps [simp del] zoo_find_pid.simps [simp del] zoo_find_tag.simps [simp del]

section \<open>The file as a list of lines\<close>

text \<open>
  The format the file comment of \<^verbatim>\<open>zoolib.c\<close> describes: 80 characters per line including
  the newline, free lines starting with \<^verbatim>\<open>#\<close>.
\<close>

definition zoo_line :: "cstr \<Rightarrow> bool" where
  "zoo_line l \<longleftrightarrow> length l = 79 \<and> newline \<notin> set l \<and> nul \<notin> set l"

definition zoo_text :: "cstr list \<Rightarrow> cstr" where
  "zoo_text ls = concat (map (\<lambda>l. l @ [newline]) ls)"

fun zoo_lines :: "cstr \<Rightarrow> cstr list" where
  "zoo_lines [] = []"
| "zoo_lines (c # cs) = take 79 (c # cs) # zoo_lines (drop 80 (c # cs))"

definition zoo_format :: "cstr \<Rightarrow> bool" where
  "zoo_format s \<longleftrightarrow> zoo_text (zoo_lines s) = s \<and> list_all zoo_line (zoo_lines s)"

definition free_line :: "cstr \<Rightarrow> bool" where
  "free_line l \<longleftrightarrow> hd l = CHR ''#''"

text \<open>What marking and clearing mean on lines.\<close>

fun mark_lines :: "cstr \<Rightarrow> cstr list \<Rightarrow> cstr list" where
  "mark_lines e [] = [fmt_left 79 79 e]"
| "mark_lines e (l # ls) = (if free_line l then fmt_left 79 79 e # ls else l # mark_lines e ls)"

fun clear_lines :: "int \<Rightarrow> cstr list \<Rightarrow> cstr list" where
  "clear_lines p [] = []"
| "clear_lines p (l # ls) =
     (if \<not> free_line l \<and> atoi l = p then (CHR ''#'' # tl l) # ls else l # clear_lines p ls)"

definition line_pids :: "cstr list \<Rightarrow> int multiset" where
  "line_pids ls = image_mset atoi (mset (filter (\<lambda>l. \<not> free_line l) ls))"

text \<open>The pids the zoo records as running.\<close>

definition zoo_pids :: "zoo \<Rightarrow> int multiset" where
  "zoo_pids z = line_pids (zoo_lines (zcontent z))"

text \<open>
  A zoo in working order: an open, unlocked stream in the documented format, with no
  system call failing but for interrupted lock requests.
\<close>

definition zoo_ready :: "zoo \<Rightarrow> bool" where
  "zoo_ready z \<longleftrightarrow> zopen z \<and> \<not> zlock z \<and> zoo_format (zcontent z) \<and>
     list_all (\<lambda>e. e = EINTR) (zfcntl z) \<and> zfseek z = []"

definition zoo_clean :: "cstr \<Rightarrow> bool" where
  "zoo_clean s \<longleftrightarrow> newline \<notin> set s \<and> nul \<notin> set s"

lemma zoo_text_simps [simp]:
  "zoo_text [] = []" "zoo_text (l # ls) = l @ newline # zoo_text ls"
  "zoo_text (ls @ ms) = zoo_text ls @ zoo_text ms"
  by (simp_all add: zoo_text_def)

lemma length_zoo_text: "list_all zoo_line ls \<Longrightarrow> length (zoo_text ls) = 80 * length ls"
  by (induction ls) (auto simp: zoo_line_def)

lemma zoo_lines_text [simp]: "list_all zoo_line ls \<Longrightarrow> zoo_lines (zoo_text ls) = ls"
proof (induction ls)
  case Nil
  then show ?case by simp
next
  case (Cons l ls)
  then obtain c cs where l: "l = c # cs" "length cs = 78" by (cases l) (auto simp: zoo_line_def)
  have "take 79 (l @ newline # zoo_text ls) = l" "drop 80 (l @ newline # zoo_text ls) = zoo_text ls"
    using l by (simp_all add: numeral_eq_Suc)
  then show ?case using Cons l by simp
qed

lemma zoo_format_text: "list_all zoo_line ls \<Longrightarrow> zoo_format (zoo_text ls)"
  by (simp add: zoo_format_def)

lemma zoo_formatE:
  assumes "zoo_format s"
  obtains ls where "s = zoo_text ls" "list_all zoo_line ls" "zoo_lines s = ls"
  using assms by (metis zoo_format_def)

lemma zoo_line_fmt: "zoo_clean e \<Longrightarrow> zoo_line (fmt_left 79 79 e)"
  using set_fmt_left [of 79 79 e] by (auto simp: zoo_line_def zoo_clean_def)

lemma mark_lines_format:
  "list_all zoo_line ls \<Longrightarrow> zoo_clean e \<Longrightarrow> list_all zoo_line (mark_lines e ls)"
  by (induction e ls rule: mark_lines.induct) (auto simp: zoo_line_fmt)

lemma zoo_line_clear: "zoo_line l \<Longrightarrow> zoo_line (CHR ''#'' # tl l)"
  by (cases l) (auto simp: zoo_line_def)

lemma clear_lines_format: "list_all zoo_line ls \<Longrightarrow> list_all zoo_line (clear_lines p ls)"
  by (induction p ls rule: clear_lines.induct) (auto simp: zoo_line_clear)

lemma fgets_zoo_line: "zoo_line l \<Longrightarrow> fgets BUFLEN (l @ newline # r) = Some (l @ [newline], r)"
  by (rule fgets_line) (auto simp: zoo_line_def)

lemma digits_val_newline: "digits_val acc (xs @ [newline]) = digits_val acc xs"
  by (induction acc xs rule: digits_val.induct) (auto simp: is_digit_def)

lemma atoi_newline [simp]: "atoi (l @ [newline]) = atoi l"
proof (cases "dropWhile is_space l")
  case Nil
  then have "\<forall>c \<in> set l. is_space c" by (simp add: dropWhile_eq_Nil_conv)
  then have "dropWhile is_space (l @ [newline]) = []"
    by (simp add: dropWhile_eq_Nil_conv is_space_def)
  then show ?thesis unfolding atoi_def Nil by simp
next
  case (Cons c cs)
  then have "dropWhile is_space (l @ [newline]) = c # cs @ [newline]"
    by (metis append_Cons dropWhile_append3 dropWhile_eq_Cons_conv list.distinct(1) dropWhile_append1 in_set_conv_decomp)
  with Cons digits_val_newline [of 0 "c # cs"] digits_val_newline [of 0 cs] show ?thesis
    by (simp add: atoi_def)
qed

lemma hd_line_newline: "zoo_line l \<Longrightarrow> hd (l @ [newline]) = hd l"
  by (cases l) (auto simp: zoo_line_def)

lemma zoo_find_free_text:
  assumes "list_all zoo_line ls"
  shows "zoo_find_free pos (zoo_text ls) =
    (if list_all (\<lambda>l. \<not> free_line l) ls then None
     else let pre = takeWhile (\<lambda>l. \<not> free_line l) ls
          in Some (pos + 80 * length pre, ls ! length pre @ [newline]))"
  using assms
proof (induction ls arbitrary: pos)
  case Nil
  then show ?case by (subst zoo_find_free.simps) (simp add: fgets_def)
next
  case (Cons l ls)
  then have "length l = 79" by (simp add: zoo_line_def)
  with Cons show ?case
    by (subst zoo_find_free.simps)
      (simp add: fgets_zoo_line hd_line_newline Let_def free_line_def)
qed

lemma zoo_find_pid_text:
  assumes "list_all zoo_line ls"
  shows "zoo_find_pid p pos (zoo_text ls) =
    (let pre = takeWhile (\<lambda>l. free_line l \<or> atoi l \<noteq> p) ls
     in if length pre = length ls then None else Some (pos + 80 * length pre))"
  using assms
proof (induction ls arbitrary: pos)
  case Nil
  then show ?case by (subst zoo_find_pid.simps) (simp add: fgets_def)
next
  case (Cons l ls)
  then have "length l = 79" by (simp add: zoo_line_def)
  with Cons show ?case
    by (subst zoo_find_pid.simps)
      (simp add: fgets_zoo_line hd_line_newline Let_def free_line_def)
qed

text \<open>\<^const>\<open>mark_lines\<close> and \<^const>\<open>clear_lines\<close> by position.\<close>

lemma mark_lines_at:
  "mark_lines e ls =
    (let pre = takeWhile (\<lambda>l. \<not> free_line l) ls
     in pre @ fmt_left 79 79 e # drop (Suc (length pre)) ls)"
  by (induction e ls rule: mark_lines.induct) (auto simp: Let_def)

lemma clear_lines_at:
  "clear_lines p ls =
    (let pre = takeWhile (\<lambda>l. free_line l \<or> atoi l \<noteq> p) ls
     in if length pre = length ls then ls
        else pre @ (CHR ''#'' # tl (ls ! length pre)) # drop (Suc (length pre)) ls)"
  by (induction p ls rule: clear_lines.induct) (auto simp: Let_def)

lemma fcntl_retry_EINTR [simp]: "list_all (\<lambda>e. e = EINTR) es \<Longrightarrow> fcntl_retry es = (0, [])"
  by (induction es rule: fcntl_retry.induct) auto

lemma zoo_lock_ready:
  "zoo_ready z \<Longrightarrow> zoo_lock z = (0, z\<lparr>zfcntl := [], zlock := True\<rparr>)"
  by (simp add: zoo_ready_def zoo_lock_def)

lemma split_at_line:
  assumes "length pre < length ls" "pre = take (length pre) ls"
  shows "ls = pre @ ls ! length pre # drop (Suc (length pre)) ls"
  using assms by (metis append_take_drop_id Cons_nth_drop_Suc)

lemma takeWhile_prefix: "takeWhile P xs = take (length (takeWhile P xs)) xs"
  by (rule takeWhile_eq_take)

lemma takeWhile_shorter: "\<not> list_all P xs \<Longrightarrow> length (takeWhile P xs) < length xs"
  by (induction xs) auto

lemma overwrite_line:
  assumes "list_all zoo_line (pre @ l # post)" "length e = 79"
  shows "overwrite (80 * length pre) (e @ [newline]) (zoo_text (pre @ l # post)) =
    zoo_text (pre @ e # post)"
proof -
  have "80 * length pre = length (zoo_text pre)" using assms(1) by (simp add: length_zoo_text)
  moreover have "length (e @ [newline]) = length (l @ [newline])"
    using assms by (simp add: zoo_line_def)
  ultimately show ?thesis
    using overwrite_middle [of "e @ [newline]" "l @ [newline]" "zoo_text pre" "zoo_text post"]
    by simp
qed

lemma overwrite_hash:
  assumes "list_all zoo_line (pre @ l # post)"
  shows "overwrite (80 * length pre) ''#'' (zoo_text (pre @ l # post)) =
    zoo_text (pre @ (CHR ''#'' # tl l) # post)"
proof -
  obtain c cs where l: "l = c # cs" using assms by (cases l) (auto simp: zoo_line_def)
  have "80 * length pre = length (zoo_text pre)" using assms by (simp add: length_zoo_text)
  then show ?thesis
    using overwrite_middle [of "''#''" "[c]" "zoo_text pre" "cs @ newline # zoo_text post"] l
    by simp
qed

lemma cstring_of_line: "zoo_line l \<Longrightarrow> cstring_of (l @ [newline]) = l @ [newline]"
  unfolding cstring_of_def by (rule takeWhile_eq_all_conv [THEN iffD2]) (auto simp: zoo_line_def)

lemma zoo_mark_ready:
  assumes "zoo_ready z" "zoo_clean entry"
  shows "zoo_mark z entry =
    (0, z\<lparr>zfcntl := [], zcontent := zoo_text (mark_lines entry (zoo_lines (zcontent z)))\<rparr>)"
proof -
  from assms(1) obtain ls where c: "zcontent z = zoo_text ls" and ls: "list_all zoo_line ls"
    by (auto simp: zoo_ready_def elim: zoo_formatE)
  let ?pre = "takeWhile (\<lambda>l. \<not> free_line l) ls"
  note flags = assms(1) [unfolded zoo_ready_def]
  show ?thesis
  proof (cases "list_all (\<lambda>l. \<not> free_line l) ls")
    case True
    then have pre: "?pre = ls"
      by (auto simp: list_all_iff takeWhile_eq_all_conv)
    have "mark_lines entry ls = ls @ [fmt_left 79 79 entry]"
      unfolding mark_lines_at Let_def pre by simp
    with True flags c ls assms(1) show ?thesis
      by (simp add: zoo_mark_def zoo_lock_ready zoo_find_free_text zoo_fseek_def zoo_unlock_def)
  next
    case False
    then have less: "length ?pre < length ls" by (rule takeWhile_shorter)
    let ?l = "ls ! length ?pre"
    have split: "ls = ?pre @ ?l # drop (Suc (length ?pre)) ls"
      by (rule split_at_line [OF less takeWhile_prefix])
    have line: "zoo_line ?l" using ls less by (simp add: list_all_length)
    have marked: "overwrite (80 * length ?pre) (fmt_left 79 79 entry @ [newline]) (zoo_text ls) =
        zoo_text (mark_lines entry ls)"
      using overwrite_line [of ?pre ?l "drop (Suc (length ?pre)) ls" "fmt_left 79 79 entry"]
        split ls by (simp add: mark_lines_at Let_def)
    have "length (cstring_of (?l @ [newline])) - 1 = 79"
      using line by (simp add: cstring_of_line zoo_line_def)
    with False flags c ls assms(1) marked show ?thesis
      by (simp add: zoo_mark_def zoo_lock_ready zoo_find_free_text zoo_fseek_def zoo_unlock_def Let_def)
  qed
qed

lemma zoo_clear_ready:
  assumes "zoo_ready z"
  shows "\<exists>err. zoo_clear z p =
    (if \<exists>l \<in> set (zoo_lines (zcontent z)). \<not> free_line l \<and> atoi l = p
     then (0, z\<lparr>zfcntl := [], zcontent := zoo_text (clear_lines p (zoo_lines (zcontent z)))\<rparr>)
     else (1, z\<lparr>zfcntl := [], zoo_error := err\<rparr>))"
proof -
  from assms obtain ls where c: "zcontent z = zoo_text ls" and ls: "list_all zoo_line ls"
    by (auto simp: zoo_ready_def elim: zoo_formatE)
  let ?P = "\<lambda>l. free_line l \<or> atoi l \<noteq> p"
  let ?pre = "takeWhile ?P ls"
  note flags = assms [unfolded zoo_ready_def]
  show ?thesis
  proof (cases "\<exists>l \<in> set ls. \<not> free_line l \<and> atoi l = p")
    case False
    then have pre: "?pre = ls" by (auto simp: takeWhile_eq_all_conv)
    have "zoo_find_pid p 0 (zoo_text ls) = None"
      unfolding zoo_find_pid_text [OF ls] Let_def pre by simp
    then have "\<exists>err. zoo_clear z p = (1, z\<lparr>zfcntl := [], zoo_error := err\<rparr>)"
      using flags c assms
      by (cases z) (auto simp: zoo_clear_def zoo_lock_ready zoo_unlock_def set_zoo_error_def)
    with False c ls show ?thesis by auto
  next
    case True
    then have less: "length ?pre < length ls"
      by (intro takeWhile_shorter) (auto simp: list_all_iff)
    let ?l = "ls ! length ?pre"
    have split: "ls = ?pre @ ?l # drop (Suc (length ?pre)) ls"
      by (rule split_at_line [OF less takeWhile_prefix])
    have "overwrite (80 * length ?pre) ''#'' (zoo_text ls) = zoo_text (clear_lines p ls)"
      using overwrite_hash [of ?pre ?l "drop (Suc (length ?pre)) ls"] split ls less
      by (simp add: clear_lines_at Let_def)
    moreover have "zoo_find_pid p 0 (zoo_text ls) = Some (80 * length ?pre)"
      using less unfolding zoo_find_pid_text [OF ls] Let_def by simp
    ultimately have
      "zoo_clear z p = (0, z\<lparr>zfcntl := [], zcontent := zoo_text (clear_lines p ls)\<rparr>)"
      using flags c assms
      by (simp add: zoo_clear_def zoo_lock_ready zoo_fseek_def zoo_unlock_def Let_def)
    with True c ls show ?thesis by auto
  qed
qed

section \<open>The recorded pids\<close>

lemma fmt_left_id: "length e \<le> n \<Longrightarrow> fmt_left n n e = e @ replicate (n - length e) (CHR '' '')"
  by (simp add: fmt_left_def)

lemma digits_val_spaces [simp]: "digits_val acc (xs @ replicate k (CHR '' '')) = digits_val acc xs"
proof (induction acc xs rule: digits_val.induct)
  case (1 acc)
  then show ?case by (cases k) (simp_all add: is_digit_def)
qed simp

text \<open>An entry for a pid that fits the line starts with the pid and reads back as it.\<close>

lemma zoo_entry_pid:
  assumes "0 \<le> p" "p < 2 ^ 31"
  shows "atoi (fmt_left 79 79 (zoo_entry p tag cmdline)) = p"
    "\<not> free_line (fmt_left 79 79 (zoo_entry p tag cmdline))"
proof -
  let ?d = "dec_nat (nat p)"
  from assms have "nat p < 10 ^ 10" by simp
  then have len: "length ?d \<le> 10" by (rule length_dec_nat) simp
  obtain r where r: "fmt_left 79 79 (zoo_entry p tag cmdline) = ?d @ CHR '','' # r"
    using assms len
    by (auto simp: zoo_entry_def snprintf_def dec_int_def fmt_left_def take_Cons')
  show "atoi (fmt_left 79 79 (zoo_entry p tag cmdline)) = p"
    unfolding r using assms(1) by (subst atoi_dec_nat) (simp_all add: is_digit_def)
  show "\<not> free_line (fmt_left 79 79 (zoo_entry p tag cmdline))"
    unfolding r using dec_nat_Cons [of "nat p"] by (auto simp: free_line_def is_digit_def)
qed

lemma zoo_clean_entry:
  assumes "zoo_clean tag" "zoo_clean cmdline"
  shows "zoo_clean (zoo_entry p tag cmdline)"
proof -
  have "is_digit c \<Longrightarrow> c \<noteq> newline \<and> c \<noteq> nul" for c by (auto simp: is_digit_def)
  then have "zoo_clean (dec_nat n)" for n using dec_nat_digits [of n] by (auto simp: zoo_clean_def)
  then have "zoo_clean (dec_int p @ '','' @ tag @ '','' @ cmdline)"
    using assms by (auto simp: zoo_clean_def dec_int_def)
  then show ?thesis by (auto simp: zoo_clean_def zoo_entry_def snprintf_def dest: in_set_takeD)
qed

lemma line_pids_mark:
  assumes "\<not> free_line (fmt_left 79 79 e)"
  shows "line_pids (mark_lines e ls) = add_mset (atoi (fmt_left 79 79 e)) (line_pids ls)"
  using assms by (induction e ls rule: mark_lines.induct) (auto simp: line_pids_def)

lemma line_pids_clear: "line_pids (clear_lines p ls) = line_pids ls - {#p#}"
proof (induction p ls rule: clear_lines.induct)
  case (1 p)
  then show ?case by (simp add: line_pids_def)
next
  case (2 p l ls)
  then show ?case
    by (auto simp: line_pids_def free_line_def)
qed

lemma clear_lines_absent:
  "\<not> (\<exists>l \<in> set ls. \<not> free_line l \<and> atoi l = p) \<Longrightarrow> clear_lines p ls = ls"
  by (induction p ls rule: clear_lines.induct) auto

lemma pid_in_lines:
  "(\<exists>l \<in> set ls. \<not> free_line l \<and> atoi l = p) \<longleftrightarrow> p \<in># line_pids ls"
  by (auto simp: line_pids_def)

text \<open>
  The contract the test driver relies on: a registry of running pids, with the three
  facts about recording and clearing that hold while it is in working order.
\<close>

locale pid_registry =
  fixes mark :: "'z \<Rightarrow> int \<Rightarrow> cstr \<Rightarrow> cstr \<Rightarrow> int \<times> 'z"
    and clear :: "'z \<Rightarrow> int \<Rightarrow> int \<times> 'z"
    and pids :: "'z \<Rightarrow> int multiset"
    and ready :: "'z \<Rightarrow> bool"
  assumes mark_adds: "ready z \<Longrightarrow> 0 \<le> p \<Longrightarrow> p < 2 ^ 31 \<Longrightarrow> zoo_clean tag \<Longrightarrow> zoo_clean cmdline \<Longrightarrow>
      fst (mark z p tag cmdline) = 0 \<and> ready (snd (mark z p tag cmdline)) \<and>
      pids (snd (mark z p tag cmdline)) = add_mset p (pids z)"
    and clear_removes: "ready z \<Longrightarrow> p \<in># pids z \<Longrightarrow>
      fst (clear z p) = 0 \<and> ready (snd (clear z p)) \<and> pids (snd (clear z p)) = pids z - {#p#}"
    and clear_absent: "ready z \<Longrightarrow> p \<notin># pids z \<Longrightarrow>
      fst (clear z p) = 1 \<and> ready (snd (clear z p)) \<and> pids (snd (clear z p)) = pids z"
begin

lemma mark_clear:
  assumes "ready z" "0 \<le> p" "p < 2 ^ 31" "zoo_clean tag" "zoo_clean cmdline"
  shows "fst (clear (snd (mark z p tag cmdline)) p) = 0"
    "pids (snd (clear (snd (mark z p tag cmdline)) p)) = pids z"
  using mark_adds [OF assms] clear_removes [of "snd (mark z p tag cmdline)" p] by auto

lemma clear_cases:
  assumes "ready z"
  shows "ready (snd (clear z p))" "pids (snd (clear z p)) = pids z - {#p#}"
    "fst (clear z p) = (if p \<in># pids z then 0 else 1)"
  using clear_removes [OF assms, of p] clear_absent [OF assms, of p]
  by (cases "p \<in># pids z"; auto simp: diff_single_trivial)+

end

interpretation zr: pid_registry zoo_mark_cmdline zoo_clear zoo_pids zoo_ready
proof
  fix z :: zoo and p :: int and tag cmdline :: cstr
  assume z: "zoo_ready z" and p: "0 \<le> p" "p < 2 ^ 31" and cl: "zoo_clean tag" "zoo_clean cmdline"
  then obtain ls where c: "zcontent z = zoo_text ls" and ls: "list_all zoo_line ls"
    by (auto simp: zoo_ready_def elim: zoo_formatE)
  let ?e = "zoo_entry p tag cmdline"
  have e: "zoo_clean ?e" using cl by (rule zoo_clean_entry)
  have fmt: "list_all zoo_line (mark_lines ?e ls)" using ls e by (rule mark_lines_format)
  from zoo_mark_ready [OF z e] show "fst (zoo_mark_cmdline z p tag cmdline) = 0 \<and>
      zoo_ready (snd (zoo_mark_cmdline z p tag cmdline)) \<and>
      zoo_pids (snd (zoo_mark_cmdline z p tag cmdline)) = add_mset p (zoo_pids z)"
    using z c ls fmt zoo_entry_pid [OF p, of tag cmdline]
    by (simp add: zoo_mark_cmdline_def zoo_ready_def zoo_format_text zoo_pids_def line_pids_mark)
next
  fix z :: zoo and p :: int
  assume z: "zoo_ready z" and p: "p \<in># zoo_pids z"
  then obtain ls where c: "zcontent z = zoo_text ls" and ls: "list_all zoo_line ls"
    by (auto simp: zoo_ready_def elim: zoo_formatE)
  have "list_all zoo_line (clear_lines p ls)" using ls by (rule clear_lines_format)
  with zoo_clear_ready [OF z, of p] p z c ls show "fst (zoo_clear z p) = 0 \<and>
      zoo_ready (snd (zoo_clear z p)) \<and> zoo_pids (snd (zoo_clear z p)) = zoo_pids z - {#p#}"
    by (auto simp: pid_in_lines zoo_pids_def zoo_ready_def zoo_format_text line_pids_clear)
next
  fix z :: zoo and p :: int
  assume z: "zoo_ready z" and p: "p \<notin># zoo_pids z"
  with zoo_clear_ready [OF z, of p] show "fst (zoo_clear z p) = 1 \<and>
      zoo_ready (snd (zoo_clear z p)) \<and> zoo_pids (snd (zoo_clear z p)) = zoo_pids z"
    by (auto simp: pid_in_lines zoo_pids_def zoo_ready_def)
qed

section \<open>Looking up a tag\<close>

text \<open>The lines \<^verbatim>\<open>zoo_getpid\<close> stops at: not free, with the tag behind the first comma.\<close>

definition tag_line :: "cstr \<Rightarrow> cstr \<Rightarrow> bool" where
  "tag_line tag l \<longleftrightarrow> \<not> free_line l \<and>
     (case strchr (l @ [newline]) (CHR '','') of
        None \<Rightarrow> False | Some s \<Rightarrow> strncmp0 (drop 1 s) tag (length tag))"

lemma zoo_find_tag_line:
  assumes "zoo_line l"
  shows "zoo_find_tag tag (l @ newline # r) = (if tag_line tag l then atoi l else zoo_find_tag tag r)"
  using assms
  by (subst zoo_find_tag.simps)
    (auto simp: fgets_zoo_line hd_line_newline free_line_def tag_line_def cstring_of_line
       split: option.splits)

lemma zoo_find_tag_text:
  assumes "list_all zoo_line ls"
  shows "zoo_find_tag tag (zoo_text ls) =
    (case find (tag_line tag) ls of None \<Rightarrow> -1 | Some l \<Rightarrow> atoi l)"
  using assms
proof (induction ls)
  case Nil
  then show ?case by (subst zoo_find_tag.simps) (simp add: fgets_def)
next
  case (Cons l ls)
  then show ?case by (simp add: zoo_find_tag_line)
qed

lemma strchr_after: "c \<notin> set xs \<Longrightarrow> strchr (xs @ c # ys) c = Some (c # ys)"
  by (induction xs) (auto simp: strchr_def)

lemma tag_line_entry:
  assumes "0 \<le> p" "p < 2 ^ 31" "length tag \<le> 60"
  shows "tag_line tag (fmt_left 79 79 (zoo_entry p tag cmdline))"
proof -
  let ?d = "dec_nat (nat p)"
  from assms have "nat p < 10 ^ 10" by simp
  then have len: "length ?d \<le> 10" by (rule length_dec_nat) simp
  obtain r where r: "fmt_left 79 79 (zoo_entry p tag cmdline) = ?d @ CHR '','' # tag @ r"
    using assms len
    by (auto simp: zoo_entry_def snprintf_def dec_int_def fmt_left_def take_Cons')
  have "CHR '','' \<notin> set ?d" using dec_nat_digits [of "nat p"] by (auto simp: is_digit_def)
  then have "strchr (?d @ CHR '','' # tag @ r @ [newline]) (CHR '','') =
      Some (CHR '','' # tag @ r @ [newline])"
    by (rule strchr_after)
  moreover have "\<not> free_line (?d @ CHR '','' # tag @ r)"
    using zoo_entry_pid(2) [OF assms(1,2), of tag cmdline] r by simp
  ultimately show ?thesis unfolding r by (simp add: tag_line_def strncmp0_def)
qed

lemma find_mark_lines:
  assumes "\<forall>l \<in> set ls. \<not> P l" "P (fmt_left 79 79 e)"
  shows "find P (mark_lines e ls) = Some (fmt_left 79 79 e)"
  using assms by (induction e ls rule: mark_lines.induct) auto

lemma cat_size_sum: "fold (\<lambda>a size. size + length a + 1) argv n = n + length (concat argv) + length argv"
  by (induction argv arbitrary: n) auto

lemma cat_args_loop_Suc: "cat_args_loop (Suc a) cmd argv = cmd @ concat (map (\<lambda>x. CHR '' '' # x) argv)"
  by (induction argv arbitrary: a cmd) auto

lemma join_concat: "join c (x # xs) = x @ concat (map (\<lambda>y. c # y) xs)"
proof (induction xs arbitrary: x)
  case Nil
  then show ?case by simp
next
  case (Cons y ys)
  then show ?case by simp
qed

lemma length_spaced: "length (concat (map (\<lambda>x. c # x) xs)) = length (concat xs) + length xs"
  by (induction xs) auto

lemma cat_args_value:
  assumes "argv \<noteq> []"
  shows "cat_args True argv = Ok (Some (join (CHR '' '') argv)) \<and>
    length (join (CHR '' '') argv) + 1 = cat_size argv"
proof -
  from assms obtain x xs where argv: "argv = x # xs" by (cases argv) auto
  have "cat_args_loop 0 [] argv = join (CHR '' '') argv"
    by (simp add: argv cat_args_loop_Suc join_concat)
  moreover have "length (join (CHR '' '') argv) + 1 = cat_size argv"
    unfolding cat_size_def cat_size_sum by (simp add: argv join_concat length_spaced)
  ultimately show ?thesis by (simp add: cat_args_def)
qed

section \<open>Properties\<close>

text \<open>
  C11: \<^verbatim>\<open>zoo_mark\<close> on a zoo in working order succeeds, releases the lock, keeps the file
  in its format of 80-character lines, and does exactly a first-fit insertion: the entry,
  cut and padded to 79 characters, replaces the first free line or is appended.
\<close>

theorem zoo_mark_refines:
  assumes "zoo_ready z" "zoo_clean entry"
  shows "fst (zoo_mark z entry) = 0 \<and> zoo_ready (snd (zoo_mark z entry)) \<and>
     zoo_lines (zcontent (snd (zoo_mark z entry))) = mark_lines entry (zoo_lines (zcontent z))"
proof -
  from assms(1) have "list_all zoo_line (zoo_lines (zcontent z))"
    by (simp add: zoo_ready_def zoo_format_def)
  then have "list_all zoo_line (mark_lines entry (zoo_lines (zcontent z)))"
    using assms(2) by (rule mark_lines_format)
  with zoo_mark_ready [OF assms] assms(1) show ?thesis
    by (simp add: zoo_ready_def zoo_format_text)
qed

definition empty_zoo :: zoo where
  "empty_zoo = \<lparr>zopen = True, zcontent = [], zlock = False, zfcntl = [EINTR], zfseek = [],
     zoo_error = [], strerror = (\<lambda>_. [])\<rparr>"

lemma empty_zoo_ready: "zoo_ready empty_zoo"
  by (simp add: empty_zoo_def zoo_ready_def zoo_format_def)

theorem zoo_mark_refines_witness:
  "fst (zoo_mark empty_zoo ''7,tag,cmd'') = 0 \<and>
   zoo_lines (zcontent (snd (zoo_mark empty_zoo ''7,tag,cmd''))) = [fmt_left 79 79 ''7,tag,cmd'']"
  using zoo_mark_refines [OF empty_zoo_ready, of "''7,tag,cmd''"]
  by (simp add: zoo_clean_def) (simp add: empty_zoo_def)

text \<open>
  C12: \<^verbatim>\<open>zoo_clear\<close> frees exactly the first line that records the pid: it returns 0 and
  writes a \<^verbatim>\<open>#\<close> over that line's first character, or returns 1 and leaves the file as it
  was when no line records the pid. The lock is released and the format kept either way.
\<close>

theorem zoo_clear_refines:
  assumes "zoo_ready z"
  shows "fst (zoo_clear z p) = (if p \<in># zoo_pids z then 0 else 1) \<and>
     zoo_ready (snd (zoo_clear z p)) \<and>
     zoo_lines (zcontent (snd (zoo_clear z p))) = clear_lines p (zoo_lines (zcontent z))"
proof -
  let ?ls = "zoo_lines (zcontent z)"
  from assms have ls: "list_all zoo_line ?ls" by (simp add: zoo_ready_def zoo_format_def)
  with zoo_clear_ready [OF assms, of p] zr.clear_cases [OF assms, of p]
    clear_lines_format [OF ls, of p] clear_lines_absent [of ?ls p]
  show ?thesis by (auto simp: pid_in_lines zoo_pids_def)
qed

theorem zoo_clear_refines_witness:
  "fst (zoo_clear (snd (zoo_mark_cmdline empty_zoo 42 ''tag'' ''cmd'')) 42) = 0 \<and>
   fst (zoo_clear (snd (zoo_mark_cmdline empty_zoo 42 ''tag'' ''cmd'')) 8) = 1"
proof -
  let ?z = "snd (zoo_mark_cmdline empty_zoo 42 ''tag'' ''cmd'')"
  have "zoo_ready ?z" "zoo_pids ?z = {#42#}"
    using zr.mark_adds [OF empty_zoo_ready, of 42 "''tag''" "''cmd''"]
    by (simp_all add: zoo_clean_def) (simp add: empty_zoo_def zoo_pids_def line_pids_def)
  with zoo_clear_refines [of ?z 42] zoo_clear_refines [of ?z 8] show ?thesis by simp
qed

text \<open>
  Recording a test and clearing it again leaves the set of recorded pids as it was,
  whatever else the zoo holds.
\<close>

lemma zoo_mark_clear_roundtrip:
  assumes "zoo_ready z" "0 \<le> p" "p < 2 ^ 31" "zoo_clean tag" "zoo_clean cmdline"
  shows "zoo_pids (snd (zoo_mark_cmdline z p tag cmdline)) = add_mset p (zoo_pids z) \<and>
    fst (zoo_clear (snd (zoo_mark_cmdline z p tag cmdline)) p) = 0 \<and>
    zoo_pids (snd (zoo_clear (snd (zoo_mark_cmdline z p tag cmdline)) p)) = zoo_pids z"
  using zr.mark_adds [OF assms] zr.mark_clear [OF assms] by simp

text \<open>
  A test recorded under a tag that no other line carries is found by its tag:
  \<^verbatim>\<open>zoo_getpid\<close> returns the pid it was recorded with.
\<close>

lemma zoo_getpid_mark:
  assumes "zoo_ready z" "0 \<le> p" "p < 2 ^ 31" "zoo_clean tag" "zoo_clean cmdline" "length tag \<le> 60"
    and "\<forall>l \<in> set (zoo_lines (zcontent z)). \<not> tag_line tag l"
  shows "fst (zoo_getpid (snd (zoo_mark_cmdline z p tag cmdline)) tag) = p"
proof -
  let ?e = "zoo_entry p tag cmdline" and ?ls = "zoo_lines (zcontent z)"
  have e: "zoo_clean ?e" using assms(4,5) by (rule zoo_clean_entry)
  have "list_all zoo_line ?ls" using assms(1) by (simp add: zoo_ready_def zoo_format_def)
  then have ls: "list_all zoo_line (mark_lines ?e ?ls)" using e by (rule mark_lines_format)
  have "find (tag_line tag) (mark_lines ?e ?ls) = Some (fmt_left 79 79 ?e)"
    using assms(7) tag_line_entry [OF assms(2,3,6)] by (rule find_mark_lines)
  then have "zoo_find_tag tag (zoo_text (mark_lines ?e ?ls)) = p"
    using zoo_find_tag_text [OF ls, of tag] zoo_entry_pid(1) [OF assms(2,3)] by simp
  with zoo_mark_ready [OF assms(1) e] assms(1) show ?thesis
    by (simp add: zoo_mark_cmdline_def zoo_getpid_def zoo_lock_def zoo_unlock_def zoo_ready_def)
qed

text \<open>
  The error path of \<^verbatim>\<open>zoo_mark\<close> keeps the lock: when \<^verbatim>\<open>fseek\<close> fails, it returns -1
  with the file unchanged but without the \<^verbatim>\<open>zoo_unlock\<close> that every other path has.
\<close>

lemma zoo_mark_seek_error:
  assumes "zopen z" "list_all (\<lambda>e. e = EINTR) (zfcntl z)" "zfseek z = e # es" "e \<noteq> 0"
  shows "fst (zoo_mark z entry) = -1 \<and> zlock (snd (zoo_mark z entry)) \<and>
    zcontent (snd (zoo_mark z entry)) = zcontent z"
  using assms
  by (simp add: zoo_mark_def zoo_lock_def zoo_fseek_def set_zoo_error_def split: option.split)

text \<open>
  \<^verbatim>\<open>cat_args\<close> allocates exactly enough: for a program with at least one argument
  string the concatenation with its NUL fits the buffer and is the arguments joined by
  single blanks.
\<close>

lemma cat_args_joins:
  assumes "argv \<noteq> []"
  shows "cat_args True argv = Ok (Some (join (CHR '' '') argv)) \<and>
    length (join (CHR '' '') argv) + 1 = cat_size argv"
  using assms by (rule cat_args_value)

end
