(* ===== verification/Pan_Collection.thy ===== *)
theory Pan_Collection
  imports Splitstr
begin

text \<open>
  The command collection of \<^verbatim>\<open>pan/ltp-pan.c\<close>: reading a command file into a list of
  tagged command lines, the \<^verbatim>\<open>%f\<close> substitution, and the decision how a command line is
  executed. Allocation is taken to succeed, as the source does not check it here.
\<close>

text \<open>\<^verbatim>\<open>pcnt_f\<close> points into a freed buffer and is used as a flag only.\<close>

record coll_entry =
  name :: cstr
  cmdline :: cstr
  pcnt_f :: bool

abbreviation blanks :: "char list" where
  "blanks \<equiv> [CHR '' '', tab]"

section \<open>Definitions\<close>

text \<open>The bytes of a file as \<^verbatim>\<open>slurp\<close> leaves them: a C string ends at the first NUL.\<close>

definition slurp :: "int \<Rightarrow> int \<Rightarrow> nat \<Rightarrow> cstr \<Rightarrow> cstr option" where
  "slurp open_errno fstat_errno nread bytes =
     (if open_errno \<noteq> 0 then None
      else if fstat_errno \<noteq> 0 then None
      else if nread \<noteq> length bytes then None
      else Some (takeWhile (\<lambda>c. c \<noteq> nul) bytes))"

text \<open>\<^verbatim>\<open>if ((n->pcnt_f = strstr(a, "%f"))) n->pcnt_f[1] = 's'\<close>\<close>

definition patch_pcnt_f :: "cstr \<Rightarrow> bool \<times> cstr" where
  "patch_pcnt_f a = (case strpos a ''%f'' of
       None \<Rightarrow> (False, a)
     | Some k \<Rightarrow> (True, a[Suc k := CHR ''s'']))"

text \<open>\<^verbatim>\<open>strsep\<close>: the text before the first separator and, if there is one, the text after it.\<close>

definition strsep :: "char list \<Rightarrow> cstr \<Rightarrow> cstr \<times> cstr option" where
  "strsep sep s =
     (takeWhile (\<lambda>c. c \<notin> set sep) s,
      case dropWhile (\<lambda>c. c \<notin> set sep) s of [] \<Rightarrow> None | c # r \<Rightarrow> Some r)"

text \<open>One line of the command file; a line with no separator reaches \<^verbatim>\<open>strdup(NULL)\<close>.\<close>

definition skip_line :: "cstr \<Rightarrow> bool" where
  "skip_line a \<longleftrightarrow> a = [] \<or> hd a = CHR ''#'' \<or> hd a = CHR '' ''"

definition coll_line :: "cstr \<Rightarrow> coll_entry outcome" where
  "coll_line a = (case patch_pcnt_f a of (f, a') \<Rightarrow>
     (case strsep blanks a' of
        (n, None) \<Rightarrow> Fault
      | (n, Some c) \<Rightarrow> Ok \<lparr>name = n, cmdline = c, pcnt_f = f\<rparr>))"

function coll_loop :: "coll_entry list \<Rightarrow> cstr \<Rightarrow> coll_entry list outcome" where
  "coll_loop es a =
     (let line = takeWhile (\<lambda>c. c \<noteq> newline) a;
          es' = (if skip_line line then Ok es
                 else bind_outcome (coll_line line) (\<lambda>e. Ok (es @ [e])))
      in case strchr a newline of
           None \<Rightarrow> es'
         | Some b \<Rightarrow> (case es' of Ok x \<Rightarrow> coll_loop x (drop 1 b) | Exit n \<Rightarrow> Exit n | Fault \<Rightarrow> Fault))"
  by pat_completeness auto

lemma strchr_drop: "strchr a c = Some b \<Longrightarrow> length (drop 1 b) < length a"
proof -
  assume "strchr a c = Some b"
  then have b: "b = dropWhile (\<lambda>x. x \<noteq> c) a" "b \<noteq> []"
    by (auto simp: strchr_def split: list.splits)
  then have "length b \<le> length a" using length_dropWhile_le by simp
  with b(2) have "length b - 1 < length a" by (cases b) simp_all
  then show ?thesis by simp
qed

termination coll_loop
  by (relation "measure (\<lambda>(es, a). length a)") (auto simp del: drop_Suc dest!: strchr_drop)

declare coll_loop.simps [simp del]

text \<open>
  The command given on pan's own command line: \<^verbatim>\<open>strncat\<close> into 1024 bytes with a count
  that is a signed \<^verbatim>\<open>int\<close>; a negative count converts to a \<^verbatim>\<open>size_t\<close> without limit.
\<close>

definition strncat :: "cstr \<Rightarrow> cstr \<Rightarrow> int \<Rightarrow> cstr outcome" where
  "strncat workstr s n =
     (let w = workstr @ (if n < 0 then s else take (nat n) s)
      in if length w + 1 \<le> 1024 then Ok w else Fault)"

fun work_loop :: "cstr \<Rightarrow> int \<Rightarrow> cstr list \<Rightarrow> cstr outcome" where
  "work_loop workstr workstr_left [] = Ok workstr"
| "work_loop workstr workstr_left (a # as) =
     bind_outcome (strncat workstr a workstr_left) (\<lambda>w.
       let left = workstr_left - int (length a)
       in bind_outcome (strncat w '' '' left) (\<lambda>w'. work_loop w' (left - 1) as))"

text \<open>\<open>args\<close> are the arguments from \<^verbatim>\<open>optind\<close> on.\<close>

definition get_collection :: "cstr option \<Rightarrow> cstr list \<Rightarrow> coll_entry list option outcome" where
  "get_collection buf args = (case buf of
       None \<Rightarrow> Ok None
     | Some b \<Rightarrow>
         bind_outcome (coll_loop [] b) (\<lambda>es.
           if args = [] then Ok (Some es)
           else bind_outcome (work_loop [] 1023 args) (\<lambda>w.
                  case patch_pcnt_f w of (f, w') \<Rightarrow>
                    Ok (Some (es @ [\<lparr>name = ''cmdln'', cmdline = w', pcnt_f = f\<rparr>])))))"

text \<open>
  \<^verbatim>\<open>snprintf(buf, n, fmt, arg)\<close> with one string argument: \<^verbatim>\<open>%%\<close> is a percent sign, the
  first \<^verbatim>\<open>%s\<close>, possibly with a minus flag, a field width and a precision, is the argument;
  any other directive has no argument of its type and is a fault.
\<close>

definition s_directive :: "cstr \<Rightarrow> (bool \<times> nat \<times> nat option \<times> cstr) option" where
  "s_directive r =
     (let r1 = dropWhile (\<lambda>c. c = CHR ''-'') r;
          w = takeWhile is_digit r1;
          r2 = dropWhile is_digit r1;
          (p, r3) = (case r2 of
              [] \<Rightarrow> (None, [])
            | c # t \<Rightarrow> if c = CHR ''.''
                       then (Some (digits_val 0 t), dropWhile is_digit t) else (None, r2))
      in if w \<noteq> [] \<and> hd w = CHR ''0'' then None
         else case r3 of [] \<Rightarrow> None
              | c # t \<Rightarrow> if c = CHR ''s'' then Some (r1 \<noteq> r, digits_val 0 w, p, t) else None)"

lemma s_directive_shorter: "s_directive r = Some (l, w, p, t) \<Longrightarrow> length t < length r"
proof -
  assume "s_directive r = Some (l, w, p, t)"
  then have "\<exists>u c. dropWhile is_digit (dropWhile (\<lambda>c. c = CHR ''-'') r) = u @ c # t"
    by (auto simp: s_directive_def Let_def split: if_splits list.splits)
      (metis append_Cons append_Nil takeWhile_dropWhile_id)+
  then obtain u c where "dropWhile is_digit (dropWhile (\<lambda>c. c = CHR ''-'') r) = u @ c # t" by blast
  moreover have "length (dropWhile is_digit (dropWhile (\<lambda>c. c = CHR ''-'') r)) \<le> length r"
    by (meson le_trans length_dropWhile_le)
  ultimately show ?thesis by simp
qed

definition pad_field :: "bool \<Rightarrow> nat \<Rightarrow> nat option \<Rightarrow> cstr \<Rightarrow> cstr" where
  "pad_field left w p s =
     (let s' = (case p of None \<Rightarrow> s | Some n \<Rightarrow> take n s)
      in if left then pad_right w s' else pad_left w s')"

function format1 :: "cstr option \<Rightarrow> cstr \<Rightarrow> cstr outcome" where
  "format1 arg [] = Ok []"
| "format1 arg (c # r) =
     (if c \<noteq> CHR ''%'' then bind_outcome (format1 arg r) (\<lambda>t. Ok (c # t))
      else if r \<noteq> [] \<and> hd r = CHR ''%''
      then bind_outcome (format1 arg (tl r)) (\<lambda>t. Ok (CHR ''%'' # t))
      else case s_directive r of
             None \<Rightarrow> Fault
           | Some (left, w, p, r') \<Rightarrow>
               (case arg of
                  None \<Rightarrow> Fault
                | Some s \<Rightarrow> bind_outcome (format1 None r') (\<lambda>t. Ok (pad_field left w p s @ t))))"
  by pat_completeness auto
termination
  by (relation "measure (\<lambda>(arg, s). length s)") (auto dest: s_directive_shorter)

text \<open>The result is the new command line and the static counter.\<close>

definition subst_pcnt_f :: "int \<Rightarrow> int \<Rightarrow> coll_entry \<Rightarrow> (cstr \<times> int) outcome" where
  "subst_pcnt_f mypid counter colle =
     (if \<not> pcnt_f colle then Ok (cmdline colle, counter)
      else
        (let pid_and_counter = snprintf 20 (dec_int mypid @ ''_'' @ dec_int counter)
         in bind_outcome (format1 (Some pid_and_counter) (cmdline colle))
              (\<lambda>s. Ok (snprintf 1024 s, counter + 1))))"

text \<open>How the child runs the command line: through a shell or directly.\<close>

datatype exec_plan = Sh cstr | Execvp "cstr list"

definition shell_chars :: "char list" where
  "shell_chars = [CHR 0x22, CHR 0x27, CHR '';'', CHR ''|'', CHR ''<'', CHR ''>'', CHR ''$'', CHR 0x5C]"

definition exec_plan_of :: "mem_env \<Rightarrow> cstr \<Rightarrow> exec_plan outcome" where
  "exec_plan_of m c_cmdline =
     (if \<exists>c \<in> set c_cmdline. c \<in> set shell_chars then Ok (Sh c_cmdline)
      else bind_outcome (splitstr m (Some c_cmdline) None)
             (\<lambda>(arg_v, n). case arg_v of None \<Rightarrow> Fault | Some a \<Rightarrow> Ok (Execvp (argv_of a))))"

section \<open>Reading a command file\<close>

definition has_blank :: "cstr \<Rightarrow> bool" where
  "has_blank a \<longleftrightarrow> (\<exists>c \<in> set a. c \<in> set blanks)"

text \<open>The entry a well-formed line stands for.\<close>

definition line_entry :: "cstr \<Rightarrow> coll_entry" where
  "line_entry a =
     (let a' = snd (patch_pcnt_f a)
      in \<lparr>name = takeWhile (\<lambda>c. c \<notin> set blanks) a',
          cmdline = drop 1 (dropWhile (\<lambda>c. c \<notin> set blanks) a'),
          pcnt_f = strstr a ''%f''\<rparr>)"

lemma has_blank_patch: "has_blank (snd (patch_pcnt_f a)) = has_blank a"
proof (cases "strpos a ''%f''")
  case None
  then show ?thesis by (simp add: patch_pcnt_f_def)
next
  case (Some k)
  then obtain u v where "a = u @ ''%f'' @ v" "length u = k" by (rule strpos_split)
  then have "a[Suc k := CHR ''s''] = u @ ''%s'' @ v" by (auto simp: list_update_append)
  with Some \<open>a = u @ ''%f'' @ v\<close> show ?thesis by (auto simp: patch_pcnt_f_def has_blank_def)
qed

lemma strsep_eq:
  "strsep sep s = (takeWhile (\<lambda>c. c \<notin> set sep) s,
     if \<exists>c \<in> set s. c \<in> set sep then Some (drop 1 (dropWhile (\<lambda>c. c \<notin> set sep) s)) else None)"
proof (cases "dropWhile (\<lambda>c. c \<notin> set sep) s")
  case Nil
  then have "\<forall>c \<in> set s. c \<notin> set sep" by (simp only: dropWhile_eq_Nil_conv)
  then show ?thesis unfolding strsep_def Nil by auto
next
  case (Cons c r)
  then have "\<exists>c \<in> set s. c \<in> set sep" by (metis dropWhile_eq_Nil_conv list.discI)
  then show ?thesis unfolding strsep_def Cons by simp
qed

lemma coll_line_entry:
  "coll_line a = (if has_blank a then Ok (line_entry a) else Fault)"
proof -
  have "fst (patch_pcnt_f a) = strstr a ''%f''"
    using strpos_None [of a "''%f''"] by (auto simp: patch_pcnt_f_def split: option.splits)
  then have p: "patch_pcnt_f a = (strstr a ''%f'', snd (patch_pcnt_f a))" by (metis prod.collapse)
  show ?thesis
    unfolding has_blank_patch [symmetric, of a]
    by (subst coll_line_def, subst p)
      (simp only: strsep_eq has_blank_def line_entry_def Let_def prod.case split: if_split option.split, simp)
qed

lemma strchr_None: "c \<notin> set a \<Longrightarrow> strchr a c = None"
  by (induction a) (auto simp: strchr_def)

lemma strchr_Some: "c \<notin> set a \<Longrightarrow> strchr (a @ c # b) c = Some (c # b)"
  by (induction a) (auto simp: strchr_def)

lemma takeWhile_line: "c \<notin> set a \<Longrightarrow> takeWhile (\<lambda>x. x \<noteq> c) (a @ c # b) = a"
  "c \<notin> set a \<Longrightarrow> takeWhile (\<lambda>x. x \<noteq> c) a = a"
  by (induction a) auto

text \<open>The loop over a text of lines: one entry per line that is not skipped.\<close>

lemma coll_loop_lines:
  assumes "\<forall>l \<in> set lines. newline \<notin> set l" "lines \<noteq> []"
  shows "coll_loop es (join newline lines) =
    (if \<forall>l \<in> set lines. skip_line l \<or> has_blank l
     then Ok (es @ map line_entry (filter (\<lambda>l. \<not> skip_line l) lines)) else Fault)"
  using assms
proof (induction newline lines arbitrary: es rule: join.induct)
  case 1
  then show ?case by simp
next
  case (2 x)
  then show ?case
    by (subst coll_loop.simps) (simp add: takeWhile_line strchr_None coll_line_entry)
next
  case (3 x y zs)
  then show ?case
    by (subst coll_loop.simps) (auto simp: takeWhile_line strchr_Some coll_line_entry)
qed

text \<open>The line that prints an entry.\<close>

definition print_entry :: "coll_entry \<Rightarrow> cstr" where
  "print_entry e = name e @ '' '' @ cmdline e"

text \<open>Entries a command file can spell without the \<^verbatim>\<open>%f\<close> substitution.\<close>

definition plain_entry :: "coll_entry \<Rightarrow> bool" where
  "plain_entry e \<longleftrightarrow> name e \<noteq> [] \<and> hd (name e) \<noteq> CHR ''#'' \<and> set (name e) \<inter> set blanks = {} \<and>
     newline \<notin> set (print_entry e) \<and> \<not> strstr (print_entry e) ''%f'' \<and> \<not> pcnt_f e"

lemma plain_entry_line:
  assumes "plain_entry e"
  shows "\<not> skip_line (print_entry e)" "has_blank (print_entry e)" "line_entry (print_entry e) = e"
proof -
  from assms obtain c cs where n: "name e = c # cs" by (cases "name e") (auto simp: plain_entry_def)
  with assms show "\<not> skip_line (print_entry e)"
    by (auto simp: plain_entry_def skip_line_def print_entry_def)
  show "has_blank (print_entry e)" by (simp add: has_blank_def print_entry_def)
  from assms have "patch_pcnt_f (print_entry e) = (False, print_entry e)"
    using strpos_None [of "print_entry e" "''%f''"] by (simp add: patch_pcnt_f_def plain_entry_def)
  moreover have "takeWhile (\<lambda>c. c \<notin> set blanks) (print_entry e) = name e"
    "dropWhile (\<lambda>c. c \<notin> set blanks) (print_entry e) = CHR '' '' # cmdline e"
    using assms unfolding print_entry_def plain_entry_def
    by (auto simp: takeWhile_append2 dropWhile_append2 disjoint_iff)
  ultimately show "line_entry (print_entry e) = e"
    using assms by (auto simp: line_entry_def plain_entry_def)
qed

section \<open>The command on the command line\<close>

abbreviation args_size :: "cstr list \<Rightarrow> nat" where
  "args_size args \<equiv> length (concat args) + length args"

text \<open>With less than nothing left, the next word always runs over the end of the buffer.\<close>

lemma work_loop_over:
  assumes "left < 0" "length w = 1023" "args \<noteq> []"
  shows "work_loop w left args = Fault"
  using assms by (cases args) (auto simp: strncat_def Let_def)

lemma work_loop_ok:
  assumes "int (length w) + left = 1023" "0 \<le> left"
  shows "work_loop w left args =
    (if int (args_size args) \<le> left + 1
     then Ok (take 1023 (w @ concat (map (\<lambda>a. a @ '' '') args))) else Fault)"
  using assms
proof (induction args arbitrary: w left)
  case Nil
  then show ?case by simp
next
  case (Cons a as)
  consider "int (length a) < left" | "int (length a) = left" | "left < int (length a)" by linarith
  then show ?case
  proof cases
    case 1
    then have "work_loop w left (a # as) = work_loop (w @ a @ '' '') (left - int (length a) - 1) as"
      using Cons.prems by (simp add: strncat_def Let_def)
    also have "\<dots> = (if int (args_size as) \<le> left - int (length a)
        then Ok (take 1023 ((w @ a @ '' '') @ concat (map (\<lambda>a. a @ '' '') as))) else Fault)"
      using Cons.IH [of "w @ a @ '' ''" "left - int (length a) - 1"] Cons.prems 1 by simp
    finally show ?thesis by auto
  next
    case 2
    then have "work_loop w left (a # as) = work_loop (w @ a) (- 1) as"
      using Cons.prems by (simp add: strncat_def Let_def)
    with 2 Cons.prems show ?thesis
      by (cases as) (auto simp del: work_loop.simps(2) simp: work_loop_over)
  next
    case 3
    then show ?thesis using Cons.prems by (auto simp: strncat_def Let_def)
  qed
qed

section \<open>Substitution\<close>

lemma format1_plain: "CHR ''%'' \<notin> set s \<Longrightarrow> format1 arg s = Ok s"
  by (induction s) auto

lemma s_directive_s: "s_directive (CHR ''s'' # r) = Some (False, 0, None, r)"
  by (simp add: s_directive_def is_digit_def)

lemma format1_pcnt_s:
  assumes "CHR ''%'' \<notin> set pre" "CHR ''%'' \<notin> set post"
  shows "format1 (Some a) (pre @ ''%s'' @ post) = Ok (pre @ a @ post)"
  using assms
  by (induction pre) (auto simp: s_directive_s format1_plain pad_field_def pad_left_def)

lemma dec_nat_inj: "dec_nat m = dec_nat n \<Longrightarrow> m = n"
  by (metis digits_val_dec_nat)

lemma length_dec_int: "0 \<le> p \<Longrightarrow> p < 10 ^ 9 \<Longrightarrow> length (dec_int p) \<le> 9"
  using length_dec_nat [of "nat p" 9] by (simp add: dec_int_def nat_less_iff)

lemma dec_int_inj: "0 \<le> p \<Longrightarrow> 0 \<le> q \<Longrightarrow> dec_int p = dec_int q \<Longrightarrow> p = q"
  by (simp add: dec_int_def) (metis dec_nat_inj eq_nat_nat_iff)

section \<open>Properties\<close>

text \<open>
  C28: reading back a command file. A file whose lines are comments, lines that start with a
  blank, and the lines of plain entries gives exactly those entries in the order of the file.
\<close>

theorem get_collection_roundtrip:
  assumes "lines \<noteq> []" "\<forall>l \<in> set lines. newline \<notin> set l"
    and "filter (\<lambda>l. \<not> skip_line l) lines = map print_entry es" "\<forall>e \<in> set es. plain_entry e"
  shows "get_collection (Some (join newline lines)) [] = Ok (Some es)"
proof -
  have "skip_line l \<or> has_blank l" if "l \<in> set lines" for l
  proof (cases "skip_line l")
    case False
    with that have "l \<in> set (filter (\<lambda>l. \<not> skip_line l) lines)" by simp
    with assms(3,4) show ?thesis by (auto simp: plain_entry_line)
  qed simp
  then have "coll_loop [] (join newline lines) = Ok (map line_entry (map print_entry es))"
    using coll_loop_lines [of lines "[]"] assms(1-3) by simp
  also have "map line_entry (map print_entry es) = es"
    using assms(4) by (simp add: plain_entry_line(3) map_idI)
  finally show ?thesis by (simp add: get_collection_def)
qed

theorem get_collection_roundtrip_witness:
  "get_collection (Some (join newline [''# io tests'', ''abort01 ulimit -c 1024;abort01'', []]))
     [] = Ok (Some [\<lparr>name = ''abort01'', cmdline = ''ulimit -c 1024;abort01'', pcnt_f = False\<rparr>])"
  by (rule get_collection_roundtrip)
    (simp_all add: skip_line_def plain_entry_def print_entry_def)

text \<open>
  A line that is not skipped and holds neither a blank nor a tab makes \<^verbatim>\<open>strsep\<close> return a
  NULL rest, which goes to \<^verbatim>\<open>strdup\<close>: reading the file is a fault, wherever the line stands.
\<close>

lemma get_collection_tag_only:
  assumes "\<forall>l \<in> set lines. newline \<notin> set l" "l \<in> set lines" "\<not> skip_line l"
    "CHR '' '' \<notin> set l" "tab \<notin> set l"
  shows "get_collection (Some (join newline lines)) args = Fault"
proof -
  have "\<not> has_blank l" using assms(4,5) by (auto simp: has_blank_def)
  with assms(2,3) have "\<not> (\<forall>l \<in> set lines. skip_line l \<or> has_blank l)" by blast
  moreover have "lines \<noteq> []" using assms(2) by auto
  ultimately have "coll_loop [] (join newline lines) = Fault"
    using coll_loop_lines [OF assms(1), of "[]"] by simp
  then show ?thesis by (simp add: get_collection_def)
qed

text \<open>
  A command given as pan's arguments is their concatenation with a blank behind each, cut
  to 1023 characters, when that text has at most 1024 characters; with more, the count given
  to \<^verbatim>\<open>strncat\<close> turns negative and the buffer of 1024 bytes is overrun.
\<close>

lemma get_collection_cmdln:
  assumes "args \<noteq> []" "\<not> strstr (concat (map (\<lambda>a. a @ '' '') args)) ''%f''"
  shows "get_collection (Some []) args =
    (if length (concat (map (\<lambda>a. a @ '' '') args)) \<le> 1024
     then Ok (Some [\<lparr>name = ''cmdln'', cmdline = take 1023 (concat (map (\<lambda>a. a @ '' '') args)),
                     pcnt_f = False\<rparr>])
     else Fault)"
proof -
  let ?w = "concat (map (\<lambda>a. a @ '' '') args)"
  have len: "length ?w = args_size args" by (induction args) auto
  have "\<not> strstr (take 1023 ?w) ''%f''"
    using assms(2) strstr_infix by (metis append.assoc append_take_drop_id)
  then have "patch_pcnt_f (take 1023 ?w) = (False, take 1023 ?w)"
    using strpos_None [of "take 1023 ?w" "''%f''"] by (simp add: patch_pcnt_f_def)
  moreover have "coll_loop [] [] = Ok []"
    by (subst coll_loop.simps) (simp add: skip_line_def strchr_def)
  ultimately show ?thesis
    using assms(1) len work_loop_ok [of "[]" 1023 args] by (simp add: get_collection_def)
qed

text \<open>
  The \<^verbatim>\<open>%f\<close> substitution puts the pid and the running counter in place of the directive
  and advances the counter, and no other counter value of the run gives the same text, so
  files named this way differ.
\<close>

lemma subst_pcnt_f_fresh:
  assumes "pcnt_f e" "cmdline e = pre @ ''%s'' @ post"
    and "CHR ''%'' \<notin> set pre" "CHR ''%'' \<notin> set post" "length pre + length post \<le> 1000"
    and "0 < mypid" "mypid < 10 ^ 9" "0 < k" "k < 10 ^ 9"
  shows "subst_pcnt_f mypid k e = Ok (pre @ dec_int mypid @ ''_'' @ dec_int k @ post, k + 1) \<and>
    (\<forall>j n. 0 < j \<and> j < 10 ^ 9 \<and> j \<noteq> k \<longrightarrow>
       subst_pcnt_f mypid j e \<noteq> Ok (pre @ dec_int mypid @ ''_'' @ dec_int k @ post, n))"
proof -
  have *: "subst_pcnt_f mypid n e = Ok (pre @ dec_int mypid @ ''_'' @ dec_int n @ post, n + 1)"
    if "0 < n" "n < 10 ^ 9" for n
  proof -
    have "length (dec_int mypid) \<le> 9" "length (dec_int n) \<le> 9"
      using that assms(6,7) by (auto intro!: length_dec_int)
    then show ?thesis
      using assms(1-5) by (simp add: subst_pcnt_f_def snprintf_def format1_pcnt_s [simplified])
  qed
  show ?thesis
    using * [of k] * assms(8,9) by (auto dest!: dec_int_inj [rotated 2])
qed

text \<open>
  How a test is started. A command line with one of the shell characters is given to
  \<^verbatim>\<open>sh -c\<close> unchanged; any other is executed directly with its blank-separated words.
\<close>

lemma exec_plan_words:
  assumes "strdup_ok m" "malloc_ok m" "\<And>k. realloc_ok m k"
  shows "exec_plan_of m c =
    (if set c \<inter> set shell_chars = {} then Ok (Execvp (tokens blanks c)) else Ok (Sh c))"
proof -
  obtain k where "splitstr m (Some c) None =
      Ok (Some (token_cells blanks 0 c @ replicate (Suc k) NullPtr), int (length (tokens blanks c)))"
    using splitstr_result [OF assms, of c None] by auto
  then show ?thesis
    by (auto simp: exec_plan_of_def argv_of_token_cells)
qed

end
