(* ===== verification/Pan_Signal.thy ===== *)
theory Pan_Signal
  imports Pan_Collection Zoolib
begin

text \<open>
  The state of the test driver \<^verbatim>\<open>pan/ltp-pan.c\<close> and the part of it that deals with
  signals: the handler's ratchet, the propagation of a signal to the process groups of the
  running tests, and the list of orphaned process groups.

  What \<^verbatim>\<open>kill\<close> answers is a parameter \<open>killf\<close>: the errno value, 0 for success, for a
  process group and a signal. Every \<^verbatim>\<open>kill\<close> of pan goes to a process group, and \<open>sent\<close>
  records these calls in order. Diagnostics on stderr are left out.
\<close>

record tag_pgrp =
  pgrp :: int
  stopping :: bool
  mystime :: int
  cmd :: "coll_entry option"
  output_path :: cstr

text \<open>The log is absent, standard output itself (\<^verbatim>\<open>-l -\<close>), or a file.\<close>

datatype log_dest = NoLog | LogStdout | LogFile cstr

text \<open>
  \<^verbatim>\<open>running\<close> has \<^verbatim>\<open>keep_active\<close> slots (the sentinel behind them is never read); \<^verbatim>\<open>orphans\<close>
  is the linked list from its head on; \<^verbatim>\<open>cmdno\<close> and \<^verbatim>\<open>counter\<close> are the static counters of
  \<^verbatim>\<open>run_child\<close> and \<^verbatim>\<open>subst_pcnt_f\<close>, \<^verbatim>\<open>lastsent\<close> that of \<^verbatim>\<open>wait_handler\<close>; the fields from
  \<^verbatim>\<open>starts\<close> on are local variables of \<^verbatim>\<open>main\<close>.
\<close>

record pan =
  running :: "tag_pgrp list"
  num_active :: int
  orphans :: "int list"
  rec_signal :: int
  send_signal :: int
  lastsent :: int
  zoofile :: zoo
  sent :: "(int \<times> int) list"
  failcnt :: int
  tconfcnt :: int
  cmdno :: int
  counter :: int
  stdout :: cstr
  logfile :: log_dest
  failcmdfile :: "cstr option"
  tconfcmdfile :: "cstr option"
  starts :: int
  cidx :: nat
  stop :: int
  go_idle :: int
  fork_in_road :: bool
  exit_stat :: int

section \<open>Definitions\<close>

definition printf :: "cstr \<Rightarrow> pan \<Rightarrow> pan" where
  "printf s p = p\<lparr>stdout := stdout p @ s\<rparr>"

definition wait_handler :: "int \<Rightarrow> pan \<Rightarrow> pan" where
  "wait_handler sig p =
     (if sig = 0 then p\<lparr>lastsent := 0\<rparr>
      else
        (let p1 = p\<lparr>rec_signal := sig\<rparr>
         in if sig = SIGUSR2 then p1
            else
              (let s = (if lastsent p = 0 then sig
                        else if lastsent p = SIGUSR1 then SIGINT
                        else if lastsent p = sig then SIGTERM
                        else if lastsent p = SIGTERM then SIGHUP
                        else if lastsent p = SIGHUP then SIGKILL
                        else send_signal p)
               in p1\<lparr>send_signal := s, lastsent := s\<rparr>)))"

fun check_orphans_loop ::
    "(int \<Rightarrow> int \<Rightarrow> int) \<Rightarrow> int \<Rightarrow> int list \<Rightarrow> zoo \<Rightarrow> int list \<times> zoo"
where
  "check_orphans_loop killf sig [] z = ([], z)"
| "check_orphans_loop killf sig (o1 # os) z =
     (let (o2, z2) = (if o1 \<noteq> 0 \<and> killf o1 sig = ESRCH then (0, snd (zoo_clear z o1)) else (o1, z));
          (os', z') = check_orphans_loop killf sig os z2
      in (o2 # os', z'))"

definition check_orphans :: "(int \<Rightarrow> int \<Rightarrow> int) \<Rightarrow> int \<Rightarrow> pan \<Rightarrow> pan" where
  "check_orphans killf sig p =
     (case check_orphans_loop killf sig (orphans p) (zoofile p) of (os, z) \<Rightarrow>
        p\<lparr>orphans := os, zoofile := z,
          sent := sent p @ map (\<lambda>g. (g, sig)) (filter (\<lambda>g. g \<noteq> 0) (orphans p))\<rparr>)"

text \<open>The first free node is reused; a new one goes just behind the head.\<close>

definition mark_orphan :: "int list \<Rightarrow> int \<Rightarrow> int list" where
  "mark_orphan os cpid =
     (let k = length (takeWhile (\<lambda>g. g \<noteq> 0) os)
      in if k < length os then os[k := cpid]
         else (case os of [] \<Rightarrow> [cpid] | h # t \<Rightarrow> h # cpid # t))"

definition propagate_signal :: "(int \<Rightarrow> int \<Rightarrow> int) \<Rightarrow> pan \<Rightarrow> pan" where
  "propagate_signal killf p =
     (let p1 = (if rec_signal p = SIGALRM
                then printf (''PAN stop Alarm was received'' @ [newline]) (p\<lparr>rec_signal := SIGTERM\<rparr>)
                else p);
          p2 = p1\<lparr>sent := sent p1 @ map (\<lambda>r. (pgrp r, send_signal p1))
                                      (filter (\<lambda>r. pgrp r \<noteq> 0) (running p1)),
                  running := map (\<lambda>r. if pgrp r = 0 then r else r\<lparr>stopping := True\<rparr>) (running p1)\<rparr>;
          p3 = check_orphans killf (send_signal p2) p2
      in p3\<lparr>rec_signal := 0, send_signal := 0\<rparr>)"

section \<open>Process groups\<close>

text \<open>The process groups of the occupied slots and of the orphan list.\<close>

definition groups :: "tag_pgrp list \<Rightarrow> int multiset" where
  "groups rs = filter_mset (\<lambda>g. g \<noteq> 0) (image_mset pgrp (mset rs))"

definition orphan_groups :: "int list \<Rightarrow> int multiset" where
  "orphan_groups os = filter_mset (\<lambda>g. g \<noteq> 0) (mset os)"

lemma groups_simps [simp]:
  "groups [] = {#}"
  "groups (r # rs) = (if pgrp r = 0 then groups rs else add_mset (pgrp r) (groups rs))"
  by (simp_all add: groups_def)

lemma orphan_groups_simps [simp]:
  "orphan_groups [] = {#}"
  "orphan_groups (g # os) = (if g = 0 then orphan_groups os else add_mset g (orphan_groups os))"
  by (simp_all add: orphan_groups_def)

lemma orphan_groups_append [simp]: "orphan_groups (xs @ ys) = orphan_groups xs + orphan_groups ys"
  by (simp add: orphan_groups_def)

lemma groups_append [simp]: "groups (xs @ ys) = groups xs + groups ys"
  by (simp add: groups_def)

lemma groups_map_stopping [simp]:
  "groups (map (\<lambda>r. if pgrp r = 0 then r else r\<lparr>stopping := True\<rparr>) rs) = groups rs"
  by (induction rs) auto

lemma nth_split: "i < length xs \<Longrightarrow> \<exists>ys zs. xs = ys @ xs ! i # zs \<and> length ys = i"
  by (metis id_take_nth_drop length_take min.absorb4)

lemma mark_orphan_groups:
  assumes "g \<noteq> 0" "os \<noteq> []"
  shows "orphan_groups (mark_orphan os g) = add_mset g (orphan_groups os)" "mark_orphan os g \<noteq> []"
proof -
  let ?k = "length (takeWhile (\<lambda>g. g \<noteq> 0) os)"
  show "mark_orphan os g \<noteq> []"
    using assms by (auto simp: mark_orphan_def Let_def split: list.split)
  show "orphan_groups (mark_orphan os g) = add_mset g (orphan_groups os)"
  proof (cases "?k < length os")
    case True
    then have "os ! ?k = 0" using nth_length_takeWhile by fastforce
    with True obtain ys zs where "os = ys @ 0 # zs" "length ys = ?k"
      by (metis nth_split)
    then have "mark_orphan os g = ys @ g # zs"
      using True by (simp add: mark_orphan_def) (metis list_update_length)
    with \<open>os = ys @ 0 # zs\<close> assms show ?thesis by simp
  next
    case False
    then show ?thesis using assms by (cases os) (auto simp: mark_orphan_def)
  qed
qed

text \<open>
  Probing the orphans keeps the zoo in step with the list: the groups that are gone leave
  both, the others stay in both.
\<close>

lemma check_orphans_loop_zoo:
  assumes "check_orphans_loop killf sig os z = (os', z')" "zoo_ready z"
    and "zoo_pids z = base + orphan_groups os"
  shows "zoo_ready z' \<and> zoo_pids z' = base + orphan_groups os' \<and> length os' = length os \<and>
    orphan_groups os' = filter_mset (\<lambda>g. killf g sig \<noteq> ESRCH) (orphan_groups os)"
  using assms
proof (induction os arbitrary: z os' z' base)
  case Nil
  then show ?case by simp
next
  case (Cons o1 os)
  show ?case
  proof (cases "o1 \<noteq> 0 \<and> killf o1 sig = ESRCH")
    case True
    obtain os2 z2 where r: "check_orphans_loop killf sig os (snd (zoo_clear z o1)) = (os2, z2)"
      by fastforce
    have "zoo_ready (snd (zoo_clear z o1))" "zoo_pids (snd (zoo_clear z o1)) = base + orphan_groups os"
      using zr.clear_cases [OF Cons.prems(2), of o1] Cons.prems(3) True by auto
    with Cons.IH [OF r] True Cons.prems r show ?thesis
      by (auto simp: Let_def)
  next
    case False
    obtain os2 z2 where r: "check_orphans_loop killf sig os z = (os2, z2)" by fastforce
    have "zoo_pids z = (base + orphan_groups [o1]) + orphan_groups os" using Cons.prems(3) by auto
    with Cons.IH [OF r Cons.prems(2)] False Cons.prems r show ?thesis
      by (auto simp: Let_def)
  qed
qed

lemma check_orphans_fields [simp]:
  "running (check_orphans k s p) = running p" "num_active (check_orphans k s p) = num_active p"
  "rec_signal (check_orphans k s p) = rec_signal p" "send_signal (check_orphans k s p) = send_signal p"
  "lastsent (check_orphans k s p) = lastsent p" "starts (check_orphans k s p) = starts p"
  "cidx (check_orphans k s p) = cidx p" "stop (check_orphans k s p) = stop p"
  "go_idle (check_orphans k s p) = go_idle p" "exit_stat (check_orphans k s p) = exit_stat p"
  "failcnt (check_orphans k s p) = failcnt p" "tconfcnt (check_orphans k s p) = tconfcnt p"
  "stdout (check_orphans k s p) = stdout p" "logfile (check_orphans k s p) = logfile p"
  "failcmdfile (check_orphans k s p) = failcmdfile p" "tconfcmdfile (check_orphans k s p) = tconfcmdfile p"
  "fork_in_road (check_orphans k s p) = fork_in_road p"
  "sent (check_orphans k s p) = sent p @ map (\<lambda>g. (g, s)) (filter (\<lambda>g. g \<noteq> 0) (orphans p))"
  by (simp_all add: check_orphans_def split: prod.split)

lemma check_orphans_zoo:
  assumes "zoo_ready (zoofile p)" "zoo_pids (zoofile p) = base + orphan_groups (orphans p)"
  shows "zoo_ready (zoofile (check_orphans k s p))"
    "zoo_pids (zoofile (check_orphans k s p)) = base + orphan_groups (orphans (check_orphans k s p))"
    "orphan_groups (orphans (check_orphans k s p)) =
       filter_mset (\<lambda>g. k g s \<noteq> ESRCH) (orphan_groups (orphans p))"
    "length (orphans (check_orphans k s p)) = length (orphans p)"
  using check_orphans_loop_zoo [OF _ assms, of k s]
  by (auto simp: check_orphans_def split: prod.splits)

lemma wait_handler_fields [simp]:
  "running (wait_handler s p) = running p" "num_active (wait_handler s p) = num_active p"
  "orphans (wait_handler s p) = orphans p" "zoofile (wait_handler s p) = zoofile p"
  "sent (wait_handler s p) = sent p" "starts (wait_handler s p) = starts p"
  "cidx (wait_handler s p) = cidx p" "stop (wait_handler s p) = stop p"
  "go_idle (wait_handler s p) = go_idle p" "exit_stat (wait_handler s p) = exit_stat p"
  "stdout (wait_handler s p) = stdout p" "fork_in_road (wait_handler s p) = fork_in_road p"
  by (simp_all add: wait_handler_def Let_def)

text \<open>The groups a signal is sent to: the running tests, then the orphans.\<close>

definition targets :: "pan \<Rightarrow> int list" where
  "targets p = filter (\<lambda>g. g \<noteq> 0) (map pgrp (running p) @ orphans p)"

lemma propagate_signal_fields [simp]:
  "running (propagate_signal k p) =
     map (\<lambda>r. if pgrp r = 0 then r else r\<lparr>stopping := True\<rparr>) (running p)"
  "sent (propagate_signal k p) = sent p @ map (\<lambda>g. (g, send_signal p)) (targets p)"
  "rec_signal (propagate_signal k p) = 0" "send_signal (propagate_signal k p) = 0"
  "lastsent (propagate_signal k p) = lastsent p" "num_active (propagate_signal k p) = num_active p"
  "starts (propagate_signal k p) = starts p" "cidx (propagate_signal k p) = cidx p"
  "stop (propagate_signal k p) = stop p" "go_idle (propagate_signal k p) = go_idle p"
  "exit_stat (propagate_signal k p) = exit_stat p"
  "fork_in_road (propagate_signal k p) = fork_in_road p"
  by (simp_all add: propagate_signal_def Let_def printf_def targets_def filter_map comp_def)

lemma propagate_signal_zoo:
  assumes "zoo_ready (zoofile p)" "zoo_pids (zoofile p) = base + orphan_groups (orphans p)"
  shows "zoo_ready (zoofile (propagate_signal k p))"
    "zoo_pids (zoofile (propagate_signal k p)) = base + orphan_groups (orphans (propagate_signal k p))"
    "orphan_groups (orphans (propagate_signal k p)) =
       filter_mset (\<lambda>g. k g (send_signal p) \<noteq> ESRCH) (orphan_groups (orphans p))"
    "length (orphans (propagate_signal k p)) = length (orphans p)"
proof -
  have *: "\<exists>q. zoofile q = zoofile p \<and> orphans q = orphans p \<and>
      zoofile (propagate_signal k p) = zoofile (check_orphans k (send_signal p) q) \<and>
      orphans (propagate_signal k p) = orphans (check_orphans k (send_signal p) q)"
    by (rule exI [of _ "(if rec_signal p = SIGALRM
          then printf (''PAN stop Alarm was received'' @ [newline]) (p\<lparr>rec_signal := SIGTERM\<rparr>)
          else p)\<lparr>sent := sent p @ map (\<lambda>r. (pgrp r, send_signal p)) (filter (\<lambda>r. pgrp r \<noteq> 0) (running p)),
            running := map (\<lambda>r. if pgrp r = 0 then r else r\<lparr>stopping := True\<rparr>) (running p)\<rparr>"])
      (simp add: propagate_signal_def Let_def printf_def)
  then obtain q where q: "zoofile q = zoofile p" "orphans q = orphans p"
    "zoofile (propagate_signal k p) = zoofile (check_orphans k (send_signal p) q)"
    "orphans (propagate_signal k p) = orphans (check_orphans k (send_signal p) q)" by blast
  note check_orphans_zoo [of q base k "send_signal p"]
  with assms q show "zoo_ready (zoofile (propagate_signal k p))"
    "zoo_pids (zoofile (propagate_signal k p)) = base + orphan_groups (orphans (propagate_signal k p))"
    "orphan_groups (orphans (propagate_signal k p)) =
       filter_mset (\<lambda>g. k g (send_signal p) \<noteq> ESRCH) (orphan_groups (orphans p))"
    "length (orphans (propagate_signal k p)) = length (orphans p)"
    by simp_all
qed

section \<open>The ratchet\<close>

text \<open>One signal caught by the handler and then propagated.\<close>

definition signal_round :: "int \<Rightarrow> (int \<Rightarrow> int \<Rightarrow> int) \<Rightarrow> pan \<Rightarrow> pan" where
  "signal_round sig killf p = propagate_signal killf (wait_handler sig p)"

lemma signal_round_lastsent:
  assumes "sig \<noteq> 0" "sig \<noteq> SIGUSR2" "send_signal p = 0"
  shows "lastsent (signal_round sig k p) =
    (if lastsent p = 0 then sig else if lastsent p = SIGUSR1 then SIGINT
     else if lastsent p = sig then SIGTERM else if lastsent p = SIGTERM then SIGHUP
     else if lastsent p = SIGHUP then SIGKILL else 0)"
    "send_signal (signal_round sig k p) = 0"
  using assms by (simp_all add: signal_round_def wait_handler_def Let_def)

lemma fold_rounds_idle:
  assumes "sig \<noteq> 0" "sig \<noteq> SIGUSR2" "send_signal p = 0"
  shows "send_signal (fold (signal_round sig) ks p) = 0"
  using assms by (induction ks arbitrary: p) (auto simp: signal_round_lastsent)

lemma mod5_cases: "(n::nat) mod 5 = 0 \<or> n mod 5 = 1 \<or> n mod 5 = 2 \<or> n mod 5 = 3 \<or> n mod 5 = 4"
  by presburger

lemma ratchet_lastsent:
  assumes "lastsent p = 0" "send_signal p = 0"
  shows "lastsent (fold (signal_round SIGINT) ks p) =
    [0, SIGINT, SIGTERM, SIGHUP, SIGKILL] ! (length ks mod 5)"
proof (induction ks rule: rev_induct)
  case Nil
  then show ?case using assms by simp
next
  case (snoc k ks)
  let ?q = "fold (signal_round SIGINT) ks p"
  have "send_signal ?q = 0" using assms by (intro fold_rounds_idle) (auto simp: signal_defs)
  then have "lastsent (signal_round SIGINT k ?q) =
      (if lastsent ?q = 0 then SIGINT else if lastsent ?q = SIGUSR1 then SIGINT
       else if lastsent ?q = SIGINT then SIGTERM else if lastsent ?q = SIGTERM then SIGHUP
       else if lastsent ?q = SIGHUP then SIGKILL else 0)"
    by (intro signal_round_lastsent) (auto simp: signal_defs)
  with snoc.IH show ?case
    using mod5_cases [of "length ks"] by (elim disjE) (simp_all add: signal_defs mod_Suc)
qed

section \<open>Properties\<close>


definition idle_pan :: "zoo \<Rightarrow> pan" where
  "idle_pan z = \<lparr>running = replicate 2 \<lparr>pgrp = 0, stopping = False, mystime = 0, cmd = None, output_path = []\<rparr>,
     num_active = 0, orphans = [0], rec_signal = 0, send_signal = 0, lastsent = 0, zoofile = z,
     sent = [], failcnt = 0, tconfcnt = 0, cmdno = 0, counter = 1, stdout = [], logfile = NoLog,
     failcmdfile = None, tconfcmdfile = None, starts = 1, cidx = 0, stop = 0, go_idle = 0,
     fork_in_road = False, exit_stat = 0\<rparr>"


text \<open>
  The ratchet. Rounds of SIGINT, as the wait for orphans forces them, send SIGINT, SIGTERM,
  SIGHUP and SIGKILL in turn; the fifth round sends the null signal and the sequence starts
  over. So any five rounds in a row send SIGKILL.
\<close>

lemma sigint_ratchet:
  assumes "lastsent p = 0" "send_signal p = 0"
  shows "lastsent (fold (signal_round SIGINT) ks p) =
      [0, SIGINT, SIGTERM, SIGHUP, SIGKILL] ! (length ks mod 5)"
  using assms by (rule ratchet_lastsent)

text \<open>
  The ratchet works for SIGINT only. Repeated SIGTERMs send SIGTERM each time, because the
  comparison with the signal sent last comes before the test for SIGTERM; however many of
  them pan receives, it never moves on to SIGHUP or SIGKILL.
\<close>

lemma sigterm_no_ratchet:
  assumes "lastsent p = 0" "send_signal p = 0" "ks \<noteq> []"
  shows "lastsent (fold (signal_round SIGTERM) ks p) = SIGTERM"
proof -
  have *: "lastsent (signal_round SIGTERM k q) = SIGTERM \<and> send_signal (signal_round SIGTERM k q) = 0"
    if "lastsent q \<in> {0, SIGTERM}" "send_signal q = 0" for k q
    using that by (auto simp: signal_round_lastsent signal_defs)
  have "lastsent (fold (signal_round SIGTERM) ls q) = SIGTERM"
    if "lastsent q = SIGTERM" "send_signal q = 0" for ls q
    using that * by (induction ls arbitrary: q) auto
  with assms * show ?thesis by (cases ks) auto
qed

end
