(* ===== verification/Pan_Run.thy ===== *)
theory Pan_Run
  imports Pan_Signal
begin

text \<open>
  \<^verbatim>\<open>run_child\<close> and \<^verbatim>\<open>check_pids\<close> of \<^verbatim>\<open>pan/ltp-pan.c\<close>: starting one test in a slot, and
  reaping one test with everything that is recorded about it (the log, the lists of failed
  and unsuitable commands, the report on standard output, the zoo and the orphan list).

  The answers of the operating system are a record per call of these functions. Calls whose
  result the source ignores or that only release descriptors have no counterpart, and
  the files in the output directory are represented by the path and the text read back.
\<close>

text \<open>Settings of a run, fixed once the options are read.\<close>

record pan_cfg =
  panname :: cstr
  test_out_dir :: "cstr option"
  reporttype :: cstr
  fmt_print :: bool
  quiet_mode :: bool
  sequential :: bool
  has_brakes :: bool
  track_exit_stats :: bool
  mypid :: int
  coll :: "coll_entry list"

text \<open>
  Starting a test: the errno values of the \<^verbatim>\<open>open\<close> calls for the output file (success after
  those listed), of \<^verbatim>\<open>pipe\<close>, of the two \<^verbatim>\<open>dup2\<close> calls and of \<^verbatim>\<open>exec\<close> in the child; what
  \<^verbatim>\<open>fork\<close> returns; whether the read of the error pipe fails; and the wait status and time
  for a child that could not start.
\<close>

record child_env =
  ce_open :: "int list"
  ce_pipe :: int
  ce_time :: int
  ce_fork :: int
  ce_mem :: mem_env
  ce_dup_out :: int
  ce_dup_err :: int
  ce_exec :: int
  ce_read_fails :: bool
  ce_status :: int
  ce_end_time :: int
  ce_strerror :: "int \<Rightarrow> cstr"

text \<open>
  Waiting: \<open>we_okill\<close> answers the probes of the orphans before the \<^verbatim>\<open>wait\<close>, \<open>we_kill\<close> those
  of the reaped group after it; \<open>we_output\<close> is the buffered output as \<^verbatim>\<open>slurp\<close> returns it.
\<close>

record wait_env =
  we_okill :: "int \<Rightarrow> int \<Rightarrow> int"
  we_cpid :: int
  we_errno :: int
  we_status :: int
  we_time :: int
  we_cutime :: int
  we_cstime :: int
  we_output :: "cstr option"
  we_kill :: "int \<Rightarrow> int \<Rightarrow> int"

section \<open>Definitions\<close>

definition log_write :: "cstr \<Rightarrow> pan \<Rightarrow> pan" where
  "log_write s p = (case logfile p of
       NoLog \<Rightarrow> p
     | LogStdout \<Rightarrow> printf s p
     | LogFile t \<Rightarrow> p\<lparr>logfile := LogFile (t @ s)\<rparr>)"

definition yes_no :: "bool \<Rightarrow> cstr" where
  "yes_no b = (if b then ''yes'' else ''no'')"

definition set_slot :: "nat \<Rightarrow> (tag_pgrp \<Rightarrow> tag_pgrp) \<Rightarrow> pan \<Rightarrow> pan" where
  "set_slot i f p = p\<lparr>running := (running p)[i := f (running p ! i)]\<rparr>"

definition write_test_start :: "pan_cfg \<Rightarrow> tag_pgrp \<Rightarrow> pan \<Rightarrow> pan outcome" where
  "write_test_start cfg r p =
     (if reporttype cfg = ''rts'' then
        (case cmd r of
           None \<Rightarrow> Fault
         | Some c \<Rightarrow> Ok (printf (''<<<test_start>>>'' @ [newline] @ ''tag='' @ name c @ '' stime=''
             @ dec_int (mystime r) @ [newline] @ ''cmdline='' @ [CHR 0x22] @ cmdline c @ [CHR 0x22, newline]
             @ ''contacts='' @ [CHR 0x22, CHR 0x22, newline] @ ''analysis=exit'' @ [newline]
             @ ''<<<test_output>>>'' @ [newline]) p))
      else Ok p)"

definition write_test_end ::
    "pan_cfg \<Rightarrow> tag_pgrp \<Rightarrow> cstr \<Rightarrow> int \<Rightarrow> cstr \<Rightarrow> int \<Rightarrow> int \<Rightarrow> int \<Rightarrow> int \<Rightarrow> pan \<Rightarrow> pan"
where
  "write_test_end cfg r init_status exit_time term_type stat_loc term_id cutime cstime p =
     (if reporttype cfg = ''rts'' then
        printf (''<<<execution_status>>>'' @ [newline] @ ''initiation_status='' @ [CHR 0x22] @ init_status
          @ [CHR 0x22, newline] @ ''duration='' @ dec_int (exit_time - mystime r)
          @ '' termination_type='' @ term_type @ '' termination_id='' @ dec_int term_id
          @ '' corefile='' @ yes_no (core_flag stat_loc) @ [newline]
          @ ''cutime='' @ dec_int (to_int32 cutime) @ '' cstime='' @ dec_int (to_int32 cstime) @ [newline]
          @ ''<<<test_end>>>'' @ [newline]) p
      else p)"

text \<open>The character before the end of an empty output lies outside the buffer.\<close>

definition copy_buffered_output :: "cstr option \<Rightarrow> pan \<Rightarrow> pan outcome" where
  "copy_buffered_output tag_output p = (case tag_output of
       None \<Rightarrow> Ok p
     | Some t \<Rightarrow> if t = [] then Fault
                 else Ok (printf (if last t \<noteq> newline then t @ [newline] else t) p))"

text \<open>How a child ended: the word for it and the signal or exit number.\<close>

definition term_of_status :: "int \<Rightarrow> cstr \<times> int" where
  "term_of_status s =
     (if WIFSIGNALED s then (''signaled'', WTERMSIG s)
      else if WIFEXITED s then (''exited'', WEXITSTATUS s)
      else if WIFSTOPPED s then (''stopped'', WSTOPSIG s)
      else (''unknown'', 0))"

definition log_line :: "cstr \<Rightarrow> int \<Rightarrow> int \<Rightarrow> cstr \<Rightarrow> int \<Rightarrow> bool \<Rightarrow> int \<Rightarrow> int \<Rightarrow> cstr" where
  "log_line tag stime end_time status stat core cu cs =
     ''tag='' @ tag @ '' stime='' @ dec_int (to_int32 stime) @ '' dur='' @ dec_int (to_int32 (end_time - stime))
     @ '' exit='' @ status @ '' stat='' @ dec_int stat @ '' core='' @ yes_no core
     @ '' cu='' @ dec_int (to_int32 cu) @ '' cs='' @ dec_int (to_int32 cs) @ [newline]"

definition fmt_line :: "cstr \<Rightarrow> cstr \<Rightarrow> int \<Rightarrow> cstr" where
  "fmt_line tag result w =
     fmt_left 30 30 tag @ '' '' @ fmt_left 10 10 result @ '' '' @ pad_right 5 (dec_int w) @ [newline]"

subsection \<open>Starting a test\<close>

definition output_name :: "cstr \<Rightarrow> cstr \<Rightarrow> int \<Rightarrow> cstr" where
  "output_name dir tag n = dir @ ''/'' @ tag @ ''.'' @ dec_int n"

text \<open>The \<^verbatim>\<open>do ... while (c_stdout < 0 && errno == EEXIST)\<close> loop: errno, path, counter.\<close>

fun open_loop :: "cstr \<Rightarrow> cstr \<Rightarrow> int \<Rightarrow> int list \<Rightarrow> int \<times> cstr \<times> int" where
  "open_loop dir tag n [] = (0, output_name dir tag n, n + 1)"
| "open_loop dir tag n (e # es) =
     (if e = EEXIST then open_loop dir tag (n + 1) es else (e, output_name dir tag n, n + 1))"

text \<open>A message for the parent, formatted into 1024 bytes, and the child's exit status.\<close>

definition child_msg :: "cstr \<Rightarrow> int \<Rightarrow> (cstr \<times> int) option outcome" where
  "child_msg s code = (if length s < 1024 then Ok (Some (s, code)) else Fault)"

text \<open>The child after \<^verbatim>\<open>fork\<close>: \<open>Ok None\<close> is a successful \<^verbatim>\<open>exec\<close>.\<close>

definition child_part :: "pan_cfg \<Rightarrow> child_env \<Rightarrow> coll_entry \<Rightarrow> cstr \<Rightarrow> (cstr \<times> int) option outcome" where
  "child_part cfg e colle c_cmdline =
     (let redirect = (\<lambda>what err. ''pan('' @ panname cfg @ ''): couldn'' @ [CHR 0x27] @ ''t redirect '' @ what
            @ '' for tag '' @ name colle @ ''.  errno:'' @ dec_int err @ ''  '' @ ce_strerror e err);
          failed = (\<lambda>call what gap. ''pan('' @ panname cfg @ ''): '' @ call @ '' of '' @ [CHR 0x27] @ what
            @ [CHR 0x27] @ '' (tag '' @ name colle @ '') failed.  errno:'' @ dec_int (ce_exec e) @ gap
            @ ce_strerror e (ce_exec e))
      in if test_out_dir cfg \<noteq> None \<and> ce_dup_out e \<noteq> 0 then child_msg (redirect ''stdout'' (ce_dup_out e)) 2
         else if ce_dup_err e \<noteq> 0 then child_msg (redirect ''stderr'' (ce_dup_err e)) 2
         else bind_outcome (exec_plan_of (ce_mem e) c_cmdline) (\<lambda>plan. case plan of
              Sh c \<Rightarrow> if ce_exec e = 0 then Ok None
                      else child_msg (failed ''execlp'' c '' '') (ce_exec e mod 256)
            | Execvp argv \<Rightarrow>
                if argv = [] then Fault
                else if ce_exec e = 0 then Ok None
                else child_msg (failed ''execvp'' (hd argv) ''  '') (ce_exec e mod 256)))"

text \<open>The parent when the child reported that it could not start.\<close>

definition start_failed :: "pan_cfg \<Rightarrow> child_env \<Rightarrow> coll_entry \<Rightarrow> nat \<Rightarrow> cstr \<Rightarrow> pan \<Rightarrow> pan" where
  "start_failed cfg e colle i errbuf p =
     (case term_of_status (ce_status e) of (termtype, termid) \<Rightarrow>
        let active = running p ! i;
            p1 = (if logfile p = NoLog then p
                  else if \<not> fmt_print cfg then
                    log_write (log_line (name colle) (mystime active) (ce_end_time e) termtype termid
                      (core_flag (ce_status e)) 0 0) p
                  else
                    log_write (fmt_line (name colle) (if termid \<noteq> 0 then ''FAIL'' else ''PASS'') termid)
                      (if termid \<noteq> 0 then p\<lparr>failcnt := failcnt p + 1\<rparr> else p))
        in if quiet_mode cfg then p1
           else write_test_end cfg active errbuf (ce_end_time e) termtype (ce_status e) termid 0 0 p1)"

text \<open>From \<^verbatim>\<open>subst_pcnt_f\<close> on, with the output file open where one is used.\<close>

definition run_child_rest :: "pan_cfg \<Rightarrow> child_env \<Rightarrow> coll_entry \<Rightarrow> nat \<Rightarrow> pan \<Rightarrow> (int \<times> pan) outcome" where
  "run_child_rest cfg e colle i p =
     bind_outcome (if pcnt_f colle then subst_pcnt_f (mypid cfg) (counter p) colle
                   else Ok (cmdline colle, counter p)) (\<lambda>(c_cmdline, n).
       let p1 = p\<lparr>counter := n\<rparr>
       in if ce_pipe e \<noteq> 0 then Ok (-1, p1)
          else
            (let p2 = set_slot i (\<lambda>r. r\<lparr>mystime := ce_time e, cmd := Some colle\<rparr>) p1
             in bind_outcome
                  (if test_out_dir cfg = None \<and> \<not> quiet_mode cfg
                   then write_test_start cfg (running p2 ! i) p2 else Ok p2) (\<lambda>p3.
                if ce_fork e = -1 then Ok (-1, p3)
                else if ce_read_fails e then Fault
                else case child_part cfg e colle c_cmdline of
                       Ok (Some (errbuf, code)) \<Rightarrow> Ok (-1, start_failed cfg e colle i errbuf p3)
                     | _ \<Rightarrow>
                         (let p4 = set_slot i (\<lambda>r. r\<lparr>pgrp := ce_fork e, stopping := False\<rparr>) p3
                          in case zoo_mark_cmdline (zoofile p4) (ce_fork e) (name colle) (cmdline colle) of
                               (r, z) \<Rightarrow> if r \<noteq> 0 then Exit 1
                                          else Ok (ce_fork e, p4\<lparr>zoofile := z\<rparr>)))))"

definition run_child :: "pan_cfg \<Rightarrow> child_env \<Rightarrow> coll_entry \<Rightarrow> nat \<Rightarrow> pan \<Rightarrow> (int \<times> pan) outcome" where
  "run_child cfg e colle i p = (case test_out_dir cfg of
       None \<Rightarrow> run_child_rest cfg e colle i p
     | Some dir \<Rightarrow>
         (case open_loop dir (name colle) (cmdno p) (ce_open e) of (err, path, n) \<Rightarrow>
            if 4096 \<le> length path then Fault
            else
              (let p1 = set_slot i (\<lambda>r. r\<lparr>output_path := path\<rparr>) (p\<lparr>cmdno := n\<rparr>)
               in if err \<noteq> 0 then Ok (-1, p1) else run_child_rest cfg e colle i p1)))"

subsection \<open>Reaping a test\<close>

text \<open>\<^verbatim>\<open>for (i = 0; i < keep_active; ++i) if (running[i].pgrp == g) break;\<close>\<close>

definition find_slot :: "int \<Rightarrow> tag_pgrp list \<Rightarrow> nat option" where
  "find_slot g rs =
     (let i = length (takeWhile (\<lambda>r. pgrp r \<noteq> g) rs) in if i < length rs then Some i else None)"

definition log_reap :: "pan_cfg \<Rightarrow> wait_env \<Rightarrow> tag_pgrp \<Rightarrow> coll_entry \<Rightarrow> cstr \<Rightarrow> int \<Rightarrow> pan \<Rightarrow> pan" where
  "log_reap cfg e r c status w p =
     (if logfile p = NoLog then p
      else if \<not> fmt_print cfg then
        log_write (log_line (name c) (mystime r) (we_time e) status w (core_flag (we_status e))
          (we_cutime e) (we_cstime e)) p
      else if status = ''exited'' \<and> w = TCONF then
        log_write (fmt_line (name c) ''CONF'' w) (p\<lparr>tconfcnt := tconfcnt p + 1\<rparr>)
      else if w \<noteq> 0 then
        log_write (fmt_line (name c) ''FAIL'' w) (p\<lparr>failcnt := failcnt p + 1\<rparr>)
      else log_write (fmt_line (name c) ''PASS'' w) p)"

definition record_cmd :: "coll_entry \<Rightarrow> int \<Rightarrow> pan \<Rightarrow> pan" where
  "record_cmd c w p =
     (let line = name c @ '' '' @ cmdline c @ [newline]
      in if w = 0 then p
         else case tconfcmdfile p of
                Some t \<Rightarrow>
                  if w = TCONF then p\<lparr>tconfcmdfile := Some (t @ line)\<rparr>
                  else p\<lparr>failcmdfile := map_option (\<lambda>f. f @ line) (failcmdfile p)\<rparr>
              | None \<Rightarrow> p\<lparr>failcmdfile := map_option (\<lambda>f. f @ line) (failcmdfile p)\<rparr>)"

definition report_reap :: "pan_cfg \<Rightarrow> wait_env \<Rightarrow> tag_pgrp \<Rightarrow> cstr \<Rightarrow> int \<Rightarrow> pan \<Rightarrow> pan outcome" where
  "report_reap cfg e r status w p =
     bind_outcome
       (if test_out_dir cfg = None then Ok p
        else bind_outcome (if quiet_mode cfg then Ok p else write_test_start cfg r p)
               (copy_buffered_output (we_output e)))
       (\<lambda>p1. Ok (if quiet_mode cfg then p1
                 else write_test_end cfg r ''ok'' (we_time e) status (we_status e) w
                        (we_cutime e) (we_cstime e) p1))"

text \<open>The slot is freed, the zoo updated, and a group that outlives its leader is an orphan.\<close>

definition release_slot :: "wait_env \<Rightarrow> coll_entry \<Rightarrow> nat \<Rightarrow> pan \<Rightarrow> pan outcome" where
  "release_slot e c i p =
     (let cpid = we_cpid e;
          p1 = set_slot i (\<lambda>r. r\<lparr>pgrp := 0\<rparr>) p
      in case zoo_clear (zoofile p1) cpid of (rc, z) \<Rightarrow>
        if rc \<noteq> 0 then Exit 1
        else
          (let p2 = p1\<lparr>zoofile := z, sent := sent p1 @ [(cpid, 0)]\<rparr>
           in if we_kill e cpid 0 = 0 \<or> we_kill e cpid 0 = EPERM then
                (case zoo_mark_cmdline z cpid ''panorphan'' (cmdline c) of (rm, z2) \<Rightarrow>
                   if rm \<noteq> 0 then Exit 1
                   else Ok (p2\<lparr>zoofile := z2, orphans := mark_orphan (orphans p2) cpid,
                               sent := sent p2 @ [(cpid, SIGTERM)]\<rparr>))
              else Ok p2))"

definition reap_slot ::
    "pan_cfg \<Rightarrow> wait_env \<Rightarrow> cstr \<Rightarrow> int \<Rightarrow> int \<Rightarrow> bool \<Rightarrow> nat \<Rightarrow> pan \<Rightarrow> (int \<times> pan) outcome"
where
  "reap_slot cfg e status w ret signaled i p =
     (let r = running p ! i
      in case cmd r of
           None \<Rightarrow> Fault
         | Some c \<Rightarrow>
             (let undo = (w = 130 \<and> stopping r \<and> status = ''exited'');
                  w1 = (if undo then 0 else w);
                  ret1 = (if undo then ret - 1 else ret);
                  status1 = (if stopping r then ''driver_interrupt'' else status);
                  ret2 = (if signaled \<and> \<not> stopping r then ret1 + 1 else ret1)
              in bind_outcome (report_reap cfg e r status1 w1 (record_cmd c w1 (log_reap cfg e r c status w1 p)))
                   (\<lambda>p1. bind_outcome (release_slot e c i p1) (\<lambda>p2. Ok (ret2, p2)))))"

definition check_pids :: "pan_cfg \<Rightarrow> wait_env \<Rightarrow> pan \<Rightarrow> (int \<times> pan) outcome" where
  "check_pids cfg e p =
     (let p0 = check_orphans (we_okill e) 0 p
      in if we_cpid e \<le> 0 then Ok (0, p0)
         else
           (case term_of_status (we_status e) of (status, w) \<Rightarrow>
              let signaled = WIFSIGNALED (we_status e);
                  ended = (signaled \<or> WIFEXITED (we_status e));
                  ret = (if signaled then 0
                         else if WIFEXITED (we_status e) then (if w \<noteq> 0 \<and> w \<noteq> TCONF then 1 else 0)
                         else 1);
                  p1 = (if ended then p0\<lparr>num_active := num_active p0 - 1\<rparr> else p0)
              in case find_slot (we_cpid e) (running p1) of
                   None \<Rightarrow> Ok (ret, p1)
                 | Some i \<Rightarrow> reap_slot cfg e status w ret signaled i p1))"

section \<open>Reports leave the scheduling state alone\<close>

text \<open>The state without the texts, the result counters and the naming counters.\<close>

definition core :: "pan \<Rightarrow> pan" where
  "core p = p\<lparr>stdout := [], logfile := NoLog, failcmdfile := None, tconfcmdfile := None,
     failcnt := 0, tconfcnt := 0, cmdno := 0, counter := 0\<rparr>"

lemma core_printf [simp]: "core (printf s p) = core p"
  by (simp add: core_def printf_def)

lemma core_log_write [simp]: "core (log_write s p) = core p"
  by (simp add: log_write_def core_def printf_def split: log_dest.split)

lemma core_updates [simp]:
  "core (p\<lparr>failcnt := n\<rparr>) = core p" "core (p\<lparr>tconfcnt := n\<rparr>) = core p"
  "core (p\<lparr>cmdno := n\<rparr>) = core p" "core (p\<lparr>counter := n\<rparr>) = core p"
  "core (p\<lparr>failcmdfile := f\<rparr>) = core p" "core (p\<lparr>tconfcmdfile := f\<rparr>) = core p"
  by (simp_all add: core_def)

lemma core_write_test_start: "write_test_start cfg r p = Ok q \<Longrightarrow> core q = core p"
  by (auto simp: write_test_start_def split: if_splits option.splits)

lemma core_write_test_end [simp]: "core (write_test_end cfg r i x tt sl ti cu cs p) = core p"
  by (simp add: write_test_end_def)

lemma core_copy_buffered_output: "copy_buffered_output t p = Ok q \<Longrightarrow> core q = core p"
  by (auto simp: copy_buffered_output_def split: if_splits option.splits)

lemma core_log_reap [simp]: "core (log_reap cfg e r c s w p) = core p"
  by (simp add: log_reap_def)

lemma core_record_cmd [simp]: "core (record_cmd c w p) = core p"
  by (simp add: record_cmd_def Let_def split: option.split)

lemma core_start_failed [simp]: "core (start_failed cfg e colle i m p) = core p"
  by (simp add: start_failed_def Let_def split: prod.split)

lemma core_report_reap: "report_reap cfg e r s w p = Ok q \<Longrightarrow> core q = core p"
  by (auto simp: report_reap_def core_copy_buffered_output core_write_test_start split: if_splits)

lemma core_fields:
  assumes "core q = core p"
  shows "running q = running p" "num_active q = num_active p" "orphans q = orphans p"
    "rec_signal q = rec_signal p" "send_signal q = send_signal p" "lastsent q = lastsent p"
    "zoofile q = zoofile p" "sent q = sent p" "starts q = starts p" "cidx q = cidx p"
    "stop q = stop p" "go_idle q = go_idle p" "fork_in_road q = fork_in_road p"
    "exit_stat q = exit_stat p"
  using assms by (cases p; cases q; simp add: core_def)+

lemma core_set_slot: "core q = core p \<Longrightarrow> core (set_slot i f q) = core (set_slot i f p)"
  by (cases p; cases q; simp add: core_def set_slot_def)

section \<open>Slots\<close>

lemma find_slot_Some:
  assumes "find_slot g rs = Some i"
  shows "i < length rs" "pgrp (rs ! i) = g"
proof -
  from assms have i: "i = length (takeWhile (\<lambda>r. pgrp r \<noteq> g) rs)" "i < length rs"
    by (auto simp: find_slot_def Let_def split: if_splits)
  then show "i < length rs" "pgrp (rs ! i) = g"
    using nth_length_takeWhile [of "\<lambda>r. pgrp r \<noteq> g" rs] by auto
qed

lemma find_slot_simps [simp]:
  "find_slot g [] = None"
  "find_slot g (r # rs) = (if pgrp r = g then Some 0 else map_option Suc (find_slot g rs))"
  by (simp_all add: find_slot_def Let_def)

lemma find_slot_None: "find_slot g rs = None \<longleftrightarrow> (\<forall>r \<in> set rs. pgrp r \<noteq> g)"
  by (induction rs) auto

lemma in_groups: "g \<in># groups rs \<longleftrightarrow> g \<noteq> 0 \<and> (\<exists>r \<in> set rs. pgrp r = g)"
  by (auto simp: groups_def)

text \<open>Replacing a slot exchanges its process group.\<close>

lemma groups_update:
  assumes "i < length rs"
  shows "groups (rs[i := r]) = groups rs - orphan_groups [pgrp (rs ! i)] + orphan_groups [pgrp r]"
proof -
  obtain ys zs where s: "rs = ys @ rs ! i # zs" "length ys = i" using nth_split [OF assms] by blast
  then have "rs[i := r] = ys @ r # zs" by (metis list_update_length)
  moreover have "groups rs = groups ys + groups (rs ! i # zs)" using s groups_append by metis
  ultimately show ?thesis by (simp del: orphan_groups_simps(2)) (simp)
qed

text \<open>The number of occupied slots against the number of slots.\<close>

lemma size_groups: "size (groups rs) = length (filter (\<lambda>r. pgrp r \<noteq> 0) rs)"
  by (induction rs) auto

lemma free_slot_exists:
  assumes "size (groups rs) < length rs"
  shows "\<exists>i. find_slot 0 rs = Some i"
proof (rule ccontr)
  assume "\<nexists>i. find_slot 0 rs = Some i"
  then have "\<forall>r \<in> set rs. pgrp r \<noteq> 0" by (simp add: find_slot_None [symmetric])
  then have "filter (\<lambda>r. pgrp r \<noteq> 0) rs = rs" by (simp add: filter_id_conv)
  with assms show False by (simp add: size_groups)
qed

section \<open>The invariant of the driver\<close>

text \<open>
  An occupied slot knows its command, no two slots hold the same group, and the zoo records,
  besides the pids \<open>base\<close> that were there before the first test, exactly the groups of the
  running tests and of the orphans.
\<close>

definition slot_ok :: "pan_cfg \<Rightarrow> tag_pgrp \<Rightarrow> bool" where
  "slot_ok cfg r \<longleftrightarrow> pgrp r = 0 \<or> (0 < pgrp r \<and> pgrp r < 2 ^ 31 \<and> (\<exists>c \<in> set (coll cfg). cmd r = Some c))"

definition slots_inv :: "pan_cfg \<Rightarrow> int multiset \<Rightarrow> pan \<Rightarrow> bool" where
  "slots_inv cfg base p \<longleftrightarrow> (\<forall>r \<in> set (running p). slot_ok cfg r) \<and>
     (\<forall>g. count (groups (running p)) g \<le> 1) \<and> orphans p \<noteq> [] \<and> zoo_ready (zoofile p) \<and>
     zoo_pids (zoofile p) = base + groups (running p) + orphan_groups (orphans p)"

definition pan_inv :: "pan_cfg \<Rightarrow> int multiset \<Rightarrow> pan \<Rightarrow> bool" where
  "pan_inv cfg base p \<longleftrightarrow> slots_inv cfg base p \<and> num_active p = int (size (groups (running p)))"

definition coll_ok :: "pan_cfg \<Rightarrow> bool" where
  "coll_ok cfg \<longleftrightarrow> (\<forall>c \<in> set (coll cfg). zoo_clean (name c) \<and> zoo_clean (cmdline c))"

text \<open>
  What POSIX promises of \<^verbatim>\<open>fork\<close> and \<^verbatim>\<open>wait\<close>: a new process id differs from those of the
  children not yet waited for, and \<^verbatim>\<open>wait\<close> without options returns such a child, exited or
  killed by a signal, or fails.
\<close>

definition fork_ok :: "child_env \<Rightarrow> pan \<Rightarrow> bool" where
  "fork_ok e p \<longleftrightarrow> ce_fork e = -1 \<or>
     (0 < ce_fork e \<and> ce_fork e < 2 ^ 31 \<and> ce_fork e \<notin># groups (running p))"

definition wait_ok :: "wait_env \<Rightarrow> pan \<Rightarrow> bool" where
  "wait_ok e p \<longleftrightarrow> we_cpid e \<le> 0 \<or>
     (we_cpid e \<in># groups (running p) \<and> (WIFEXITED (we_status e) \<or> WIFSIGNALED (we_status e)))"

lemma slots_inv_core:
  assumes "core q = core p"
  shows "slots_inv cfg base q = slots_inv cfg base p"
  unfolding slots_inv_def core_fields [OF assms] ..

lemma running_set_slot [simp]:
  "running (set_slot i f p) = (running p)[i := f (running p ! i)]"
  "orphans (set_slot i f p) = orphans p" "zoofile (set_slot i f p) = zoofile p"
  "num_active (set_slot i f p) = num_active p" "sent (set_slot i f p) = sent p"
  by (simp_all add: set_slot_def)

text \<open>Bookkeeping in a free slot keeps the invariant.\<close>

lemma slots_inv_free_slot:
  assumes "slots_inv cfg base p" "i < length (running p)" "pgrp (running p ! i) = 0"
    and "pgrp (f (running p ! i)) = 0"
  shows "slots_inv cfg base (set_slot i f p)" "groups (running (set_slot i f p)) = groups (running p)"
proof -
  show g: "groups (running (set_slot i f p)) = groups (running p)"
    using assms by (simp add: groups_update)
  have "\<forall>r \<in> set (running (set_slot i f p)). slot_ok cfg r"
    using assms set_update_subset_insert [of "running p" i] by (fastforce simp: slots_inv_def slot_ok_def)
  with assms(1) g show "slots_inv cfg base (set_slot i f p)"
    by (simp add: slots_inv_def)
qed

text \<open>A test that has started: its group is in its slot and in the zoo.\<close>

lemma slots_inv_start:
  assumes "slots_inv cfg base p" "i < length (running p)" "pgrp (running p ! i) = 0"
    and "cmd (running p ! i) = Some c" "c \<in> set (coll cfg)" "coll_ok cfg"
    and "0 < g" "g < 2 ^ 31" "g \<notin># groups (running p)"
    and "zoo_mark_cmdline (zoofile p) g (name c) (cmdline c) = (r, z)"
    and "q = (set_slot i (\<lambda>r. r\<lparr>pgrp := g, stopping := False\<rparr>) p)\<lparr>zoofile := z\<rparr>"
  shows "r = 0" "slots_inv cfg base q" "groups (running q) = add_mset g (groups (running p))"
proof -
  have clean: "zoo_clean (name c)" "zoo_clean (cmdline c)" using assms(5,6) by (auto simp: coll_ok_def)
  have zoo: "fst (zoo_mark_cmdline (zoofile p) g (name c) (cmdline c)) = 0 \<and>
      zoo_ready (snd (zoo_mark_cmdline (zoofile p) g (name c) (cmdline c))) \<and>
      zoo_pids (snd (zoo_mark_cmdline (zoofile p) g (name c) (cmdline c))) =
        add_mset g (zoo_pids (zoofile p))"
    using assms(1,7,8) clean by (intro zr.mark_adds) (auto simp: slots_inv_def)
  with assms(10) show "r = 0" by simp
  show g: "groups (running q) = add_mset g (groups (running p))"
    using assms(2,3,7,11) by (simp add: groups_update)
  have "\<forall>r \<in> set (running q). slot_ok cfg r"
    using assms set_update_subset_insert [of "running p" i] by (fastforce simp: slots_inv_def slot_ok_def)
  moreover have "count (groups (running q)) h \<le> 1" for h
  proof (cases "h = g")
    case True
    then show ?thesis using g assms(9) by (simp add: not_in_iff)
  next
    case False
    then show ?thesis using g assms(1) by (simp add: slots_inv_def)
  qed
  ultimately show "slots_inv cfg base q"
    using zoo assms(1,10,11) g by (simp add: slots_inv_def)
qed

lemma child_result_cases:
  obtains m k where "x = Ok (Some (m, k))" | "x = Ok None" | n where "x = Exit n" | "x = Fault"
  by (metis outcome.exhaust option.exhaust prod.exhaust)

text \<open>The three ways \<^verbatim>\<open>run_child\<close> returns, up to reports and counters.\<close>

abbreviation claim_slot :: "child_env \<Rightarrow> coll_entry \<Rightarrow> tag_pgrp \<Rightarrow> tag_pgrp" where
  "claim_slot e c r \<equiv> r\<lparr>mystime := ce_time e, cmd := Some c\<rparr>"

lemma run_child_rest_cases:
  assumes "run_child_rest cfg e c i p = Ok (cpid, q)"
  obtains (idle) "cpid = -1" "core q = core p"
    | (failed) "cpid = -1" "core q = core (set_slot i (claim_slot e c) p)"
    | (started) p3 r z where "core p3 = core (set_slot i (claim_slot e c) p)"
        "zoo_mark_cmdline (zoofile p3) (ce_fork e) (name c) (cmdline c) = (r, z)"
        "q = (set_slot i (\<lambda>r. r\<lparr>pgrp := ce_fork e, stopping := False\<rparr>) p3)\<lparr>zoofile := z\<rparr>"
        "cpid = ce_fork e" "ce_fork e \<noteq> -1"
proof -
  obtain line n where line: "(if pcnt_f c then subst_pcnt_f (mypid cfg) (counter p) c
      else Ok (cmdline c, counter p)) = Ok (line, n)"
    using assms by (auto simp: run_child_rest_def)
  let ?p1 = "p\<lparr>counter := n\<rparr>"
  let ?p2 = "set_slot i (claim_slot e c) ?p1"
  have p2: "core ?p2 = core (set_slot i (claim_slot e c) p)" by (rule core_set_slot) simp
  show ?thesis
  proof (cases "ce_pipe e \<noteq> 0")
    case True
    then have "cpid = -1" "q = ?p1" using assms line by (auto simp: run_child_rest_def)
    then show ?thesis using idle by simp
  next
    case False
    let ?start = "\<lambda>p3. let p4 = set_slot i (\<lambda>r. r\<lparr>pgrp := ce_fork e, stopping := False\<rparr>) p3
        in case zoo_mark_cmdline (zoofile p4) (ce_fork e) (name c) (cmdline c) of
             (r, z) \<Rightarrow> if r \<noteq> 0 then Exit 1 else Ok (ce_fork e, p4\<lparr>zoofile := z\<rparr>)"
    obtain p3 where "(if test_out_dir cfg = None \<and> \<not> quiet_mode cfg
        then write_test_start cfg (running ?p2 ! i) ?p2 else Ok ?p2) = Ok p3"
      and rest: "(if ce_fork e = -1 then Ok (-1, p3) else if ce_read_fails e then Fault
        else case child_part cfg e c line of
           Ok (Some (errbuf, code)) \<Rightarrow> Ok (-1, start_failed cfg e c i errbuf p3)
         | _ \<Rightarrow> ?start p3) = Ok (cpid, q)"
      using assms line False by (auto simp: run_child_rest_def Let_def)
    then have c3: "core p3 = core (set_slot i (claim_slot e c) p)"
      using p2 by (auto dest: core_write_test_start split: if_splits)
    have "(cpid = -1 \<and> core q = core p3) \<or> (ce_fork e \<noteq> -1 \<and> ?start p3 = Ok (cpid, q))"
    proof (cases "ce_fork e = -1 \<or> ce_read_fails e")
      case True
      then show ?thesis using rest by (auto split: if_splits)
    next
      case False
      with rest show ?thesis
        by (cases "child_part cfg e c line" rule: child_result_cases) auto
    qed
    then show ?thesis
      using c3 failed started by (auto simp: Let_def split: prod.splits if_splits)
  qed
qed

lemma run_child_rest_inv:
  assumes "run_child_rest cfg e c i p = Ok (cpid, q)" "slots_inv cfg base p" "coll_ok cfg"
    and "i < length (running p)" "pgrp (running p ! i) = 0" "c \<in> set (coll cfg)" "fork_ok e p"
  shows "slots_inv cfg base q \<and> length (running q) = length (running p) \<and> num_active q = num_active p \<and>
    orphans q = orphans p \<and>
    (if cpid = -1 then groups (running q) = groups (running p)
     else cpid = ce_fork e \<and> groups (running q) = add_mset cpid (groups (running p)))"
proof -
  let ?p2 = "set_slot i (claim_slot e c) p"
  have p2: "slots_inv cfg base ?p2" "groups (running ?p2) = groups (running p)"
    using slots_inv_free_slot [OF assms(2,4,5), of "claim_slot e c"] assms(5) by auto
  from assms(1) show ?thesis
  proof (cases rule: run_child_rest_cases)
    case idle
    then show ?thesis using assms(2) slots_inv_core [OF idle(2)] by (simp add: core_fields [OF idle(2)])
  next
    case failed
    then show ?thesis using p2 slots_inv_core [OF failed(2)] by (simp add: core_fields [OF failed(2)])
  next
    case (started p3 r z)
    have p3: "slots_inv cfg base p3" "running p3 = running ?p2" "num_active p3 = num_active p"
      "orphans p3 = orphans p"
      using p2(1) slots_inv_core [OF started(1)] by (simp_all add: core_fields [OF started(1)])
    have "slots_inv cfg base q" "groups (running q) = add_mset (ce_fork e) (groups (running p3))"
      using slots_inv_start [OF p3(1) _ _ _ assms(6,3) _ _ _ started(2,3)] assms(4,5,7) started(5)
        p3(2) p2(2) by (auto simp: fork_ok_def)
    with started p3 p2(2) show ?thesis by simp
  qed
qed

lemma run_child_inv:
  assumes "run_child cfg e c i p = Ok (cpid, q)" "slots_inv cfg base p" "coll_ok cfg"
    and "i < length (running p)" "pgrp (running p ! i) = 0" "c \<in> set (coll cfg)" "fork_ok e p"
  shows "slots_inv cfg base q \<and> length (running q) = length (running p) \<and> num_active q = num_active p \<and>
    orphans q = orphans p \<and>
    (if cpid = -1 then groups (running q) = groups (running p)
     else cpid = ce_fork e \<and> groups (running q) = add_mset cpid (groups (running p)))"
proof (cases "test_out_dir cfg")
  case None
  with assms run_child_rest_inv show ?thesis by (simp add: run_child_def)
next
  case (Some dir)
  obtain err path n where o: "open_loop dir (name c) (cmdno p) (ce_open e) = (err, path, n)"
    using prod_cases3 by blast
  let ?p0 = "p\<lparr>cmdno := n\<rparr>" and ?f = "\<lambda>r. r\<lparr>output_path := path\<rparr>"
  let ?p1 = "set_slot i ?f ?p0"
  have "slots_inv cfg base ?p0" using assms(2) slots_inv_core [of ?p0 p] by simp
  then have p1: "slots_inv cfg base ?p1" "groups (running ?p1) = groups (running p)"
    using slots_inv_free_slot [of cfg base ?p0 i ?f] assms(4,5) by auto
  have "pgrp (running ?p1 ! i) = 0" "fork_ok e ?p1" using assms(4,5,7) p1(2) by (auto simp: fork_ok_def)
  with Some o p1 assms(1,3,4,6) run_child_rest_inv [of cfg e c i ?p1 cpid q base] show ?thesis
    by (auto simp: run_child_def Let_def split: if_splits)
qed

text \<open>The group of a reaped test leaves its slot; if it still exists it becomes an orphan.\<close>

definition survives :: "wait_env \<Rightarrow> bool" where
  "survives e \<longleftrightarrow> we_kill e (we_cpid e) 0 = 0 \<or> we_kill e (we_cpid e) 0 = EPERM"

lemma release_slot_inv:
  assumes "slots_inv cfg base p" "i < length (running p)" "pgrp (running p ! i) = we_cpid e" "0 < we_cpid e"
    and "zoo_clean (cmdline c)"
  shows "\<exists>q. release_slot e c i p = Ok q \<and> slots_inv cfg base q \<and> num_active q = num_active p \<and>
    length (running q) = length (running p) \<and> groups (running q) = groups (running p) - {#we_cpid e#} \<and>
    orphan_groups (orphans q) = orphan_groups (orphans p) + (if survives e then {#we_cpid e#} else {#})"
proof -
  let ?g = "we_cpid e" and ?z = "zoofile p"
  let ?rs = "(running p)[i := (running p ! i)\<lparr>pgrp := 0\<rparr>]"
  have inG: "?g \<in># groups (running p)" using assms(2-4) nth_mem by (fastforce simp: in_groups)
  have g: "groups ?rs = groups (running p) - {#?g#}" using assms(2-4) by (simp add: groups_update)
  have lt: "?g < 2 ^ 31" using assms(1-4) nth_mem by (fastforce simp: slots_inv_def slot_ok_def)
  have ok: "\<forall>r \<in> set ?rs. slot_ok cfg r"
    using assms(1) set_update_subset_insert [of "running p" i] by (fastforce simp: slots_inv_def slot_ok_def)
  have cnt: "count (groups ?rs) h \<le> 1" for h
    using assms(1) g by (auto simp: slots_inv_def)
  have zin: "?g \<in># zoo_pids ?z" using assms(1) inG by (simp add: slots_inv_def)
  obtain z where z: "zoo_clear ?z ?g = (0, z)" "zoo_ready z" "zoo_pids z = zoo_pids ?z - {#?g#}"
    using zr.clear_cases [of ?z ?g] assms(1) zin by (cases "zoo_clear ?z ?g") (auto simp: slots_inv_def)
  obtain G where "groups (running p) = add_mset ?g G" using inG by (metis multi_member_split)
  then have zp: "zoo_pids z = base + groups ?rs + orphan_groups (orphans p)"
    using z(3) assms(1) g by (simp add: slots_inv_def)
  obtain rm z2 where m: "zoo_mark_cmdline z ?g ''panorphan'' (cmdline c) = (rm, z2)" by fastforce
  have "zoo_clean ''panorphan''" by (simp add: zoo_clean_def)
  with m have m0: "rm = 0" "zoo_ready z2" "zoo_pids z2 = add_mset ?g (zoo_pids z)"
    using zr.mark_adds [of z ?g "''panorphan''" "cmdline c"] z(2) assms(4,5) lt by auto
  show ?thesis
  proof (cases "survives e")
    case True
    then show ?thesis
      using z m m0 ok cnt zp g assms(1,4) mark_orphan_groups [of ?g "orphans p"]
      by (auto simp: release_slot_def survives_def Let_def slots_inv_def)
  next
    case False
    then show ?thesis
      using z ok cnt zp g assms(1) by (auto simp: release_slot_def survives_def Let_def slots_inv_def)
  qed
qed

text \<open>Reaping reads the buffered output of the test, which must not be empty.\<close>

definition output_ok :: "pan_cfg \<Rightarrow> wait_env \<Rightarrow> bool" where
  "output_ok cfg e \<longleftrightarrow> test_out_dir cfg = None \<or> we_output e \<noteq> Some []"

lemma report_reap_Ok:
  assumes "output_ok cfg e" "cmd r = Some c"
  shows "\<exists>q. report_reap cfg e r s w p = Ok q"
proof -
  have *: "\<exists>q. copy_buffered_output (we_output e) p = Ok q" if "test_out_dir cfg \<noteq> None" for p
    using assms(1) that by (auto simp: output_ok_def copy_buffered_output_def split: option.splits)
  have "\<exists>q. write_test_start cfg r p = Ok q" for p using assms(2) by (simp add: write_test_start_def)
  with * show ?thesis by (simp add: report_reap_def) blast
qed

text \<open>The return value of \<^verbatim>\<open>check_pids\<close> for a reaped test, as a table.\<close>

definition reap_errors :: "bool \<Rightarrow> int \<Rightarrow> int" where
  "reap_errors stopped status =
     (if WIFSIGNALED status then (if stopped then 0 else 1)
      else if WEXITSTATUS status \<in> {0, TCONF} then 0
      else if WEXITSTATUS status = 130 \<and> stopped then 0 else 1)"

lemma reap_slot_inv:
  assumes "slots_inv cfg base p" "coll_ok cfg" "output_ok cfg e"
    and "i < length (running p)" "pgrp (running p ! i) = we_cpid e" "0 < we_cpid e"
  shows "\<exists>q. reap_slot cfg e status w ret signaled i p =
      Ok (ret - (if w = 130 \<and> stopping (running p ! i) \<and> status = ''exited'' then 1 else 0) +
          (if signaled \<and> \<not> stopping (running p ! i) then 1 else 0), q) \<and>
    slots_inv cfg base q \<and> num_active q = num_active p \<and>
    length (running q) = length (running p) \<and> groups (running q) = groups (running p) - {#we_cpid e#} \<and>
    orphan_groups (orphans q) = orphan_groups (orphans p) + (if survives e then {#we_cpid e#} else {#})"
proof -
  let ?r = "running p ! i"
  have "slot_ok cfg ?r" using assms(1,4) nth_mem by (fastforce simp: slots_inv_def)
  with assms(5,6) obtain c where c: "cmd ?r = Some c" "c \<in> set (coll cfg)" by (auto simp: slot_ok_def)
  let ?undo = "w = 130 \<and> stopping ?r \<and> status = ''exited''"
  let ?w = "if ?undo then 0 else w" and ?s = "if stopping ?r then ''driver_interrupt'' else status"
  obtain p1 where p1: "report_reap cfg e ?r ?s ?w
      (record_cmd c ?w (log_reap cfg e ?r c status ?w p)) = Ok p1"
    using report_reap_Ok [OF assms(3) c(1)] by blast
  then have core: "core p1 = core p" using core_report_reap [OF p1] by simp
  then have "slots_inv cfg base p1" using assms(1) slots_inv_core by blast
  then obtain q where "release_slot e c i p1 = Ok q \<and> slots_inv cfg base q \<and> num_active q = num_active p \<and>
      length (running q) = length (running p) \<and> groups (running q) = groups (running p) - {#we_cpid e#} \<and>
      orphan_groups (orphans q) = orphan_groups (orphans p) + (if survives e then {#we_cpid e#} else {#})"
    using release_slot_inv [of cfg base p1 i e c] assms(2,4-6) c(2) core_fields(1-3) [OF core]
    by (auto simp: coll_ok_def)
  then show ?thesis
    using c(1) p1 by (auto simp: reap_slot_def Let_def)
qed

lemma check_orphans_inv:
  assumes "pan_inv cfg base p"
  shows "pan_inv cfg base (check_orphans k s p)"
    "orphan_groups (orphans (check_orphans k s p)) =
       filter_mset (\<lambda>g. k g s \<noteq> ESRCH) (orphan_groups (orphans p))"
proof -
  have "zoo_ready (zoofile p)"
    "zoo_pids (zoofile p) = (base + groups (running p)) + orphan_groups (orphans p)"
    using assms by (simp_all add: pan_inv_def slots_inv_def)
  note check_orphans_zoo [OF this, of k s]
  with assms show "pan_inv cfg base (check_orphans k s p)"
    "orphan_groups (orphans (check_orphans k s p)) =
       filter_mset (\<lambda>g. k g s \<noteq> ESRCH) (orphan_groups (orphans p))"
    by (auto simp: pan_inv_def slots_inv_def)
qed

lemma propagate_signal_inv:
  assumes "pan_inv cfg base p"
  shows "pan_inv cfg base (propagate_signal k p)"
proof -
  have "zoo_ready (zoofile p)"
    "zoo_pids (zoofile p) = (base + groups (running p)) + orphan_groups (orphans p)"
    using assms by (simp_all add: pan_inv_def slots_inv_def)
  note propagate_signal_zoo [OF this, of k]
  with assms show ?thesis by (auto simp: pan_inv_def slots_inv_def slot_ok_def)
qed

lemma wait_handler_inv [simp]: "pan_inv cfg base (wait_handler s p) = pan_inv cfg base p"
  by (simp add: pan_inv_def slots_inv_def)

lemma check_pids_wait_fails: "we_cpid e \<le> 0 \<Longrightarrow> check_pids cfg e p = Ok (0, check_orphans (we_okill e) 0 p)"
  by (simp add: check_pids_def)

lemma check_pids_slot:
  assumes "0 < we_cpid e" "find_slot (we_cpid e) (running p) = Some i"
  shows "\<exists>k status w ret. check_pids cfg e p = reap_slot cfg e status w ret (WIFSIGNALED (we_status e)) i
    ((check_orphans (we_okill e) 0 p)\<lparr>num_active := k\<rparr>)"
proof -
  obtain status w where st: "term_of_status (we_status e) = (status, w)" by fastforce
  let ?ended = "WIFSIGNALED (we_status e) \<or> WIFEXITED (we_status e)"
  let ?p0 = "check_orphans (we_okill e) 0 p"
  let ?k = "if ?ended then num_active ?p0 - 1 else num_active ?p0"
  have eq: "(if ?ended then ?p0\<lparr>num_active := num_active ?p0 - 1\<rparr> else ?p0) = ?p0\<lparr>num_active := ?k\<rparr>" by simp
  let ?ret = "if WIFSIGNALED (we_status e) then 0
    else if WIFEXITED (we_status e) then (if w \<noteq> 0 \<and> w \<noteq> TCONF then 1 else 0) else 1"
  have "check_pids cfg e p = reap_slot cfg e status w ?ret (WIFSIGNALED (we_status e)) i (?p0\<lparr>num_active := ?k\<rparr>)"
    unfolding check_pids_def Let_def eq using assms st by simp
  then show ?thesis by blast
qed

lemma check_pids_no_slot:
  assumes "0 < we_cpid e" "find_slot (we_cpid e) (running p) = None"
  shows "\<exists>ret k. check_pids cfg e p = Ok (ret, (check_orphans (we_okill e) 0 p)\<lparr>num_active := k\<rparr>)"
proof -
  obtain status w where st: "term_of_status (we_status e) = (status, w)" by fastforce
  let ?ended = "WIFSIGNALED (we_status e) \<or> WIFEXITED (we_status e)"
  let ?p0 = "check_orphans (we_okill e) 0 p"
  let ?k = "if ?ended then num_active ?p0 - 1 else num_active ?p0"
  have eq: "(if ?ended then ?p0\<lparr>num_active := num_active ?p0 - 1\<rparr> else ?p0) = ?p0\<lparr>num_active := ?k\<rparr>" by simp
  let ?ret = "if WIFSIGNALED (we_status e) then 0
    else if WIFEXITED (we_status e) then (if w \<noteq> 0 \<and> w \<noteq> TCONF then 1 else 0) else 1"
  have "check_pids cfg e p = Ok (?ret, ?p0\<lparr>num_active := ?k\<rparr>)"
    unfolding check_pids_def Let_def eq using assms st by simp
  then show ?thesis by blast
qed

text \<open>An empty buffered output is not survived.\<close>

lemma reap_slot_empty:
  assumes "\<not> output_ok cfg e" "cmd (running p ! i) = Some c"
  shows "reap_slot cfg e status w ret s i p = Fault"
proof -
  have "report_reap cfg e r st w q = Fault" if "cmd r = Some c" for r st w q
    using assms(1) that
    by (auto simp: output_ok_def report_reap_def copy_buffered_output_def write_test_start_def)
  with assms(2) show ?thesis by (simp add: reap_slot_def Let_def)
qed

text \<open>The slot of the child that \<^verbatim>\<open>wait\<close> returned.\<close>

definition reaped_slot :: "wait_env \<Rightarrow> pan \<Rightarrow> nat" where
  "reaped_slot e p = the (find_slot (we_cpid e) (running p))"

lemma check_pids_reaps:
  assumes "pan_inv cfg base p" "coll_ok cfg" "output_ok cfg e" "wait_ok e p" "0 < we_cpid e"
  shows "\<exists>q. check_pids cfg e p = Ok (reap_errors (stopping (running p ! reaped_slot e p)) (we_status e), q) \<and>
    pan_inv cfg base q \<and> length (running q) = length (running p) \<and>
    groups (running q) = groups (running p) - {#we_cpid e#} \<and>
    orphan_groups (orphans q) = filter_mset (\<lambda>g. we_okill e g 0 \<noteq> ESRCH) (orphan_groups (orphans p)) +
      (if survives e then {#we_cpid e#} else {#})"
proof -
  let ?s = "we_status e" and ?p0 = "check_orphans (we_okill e) 0 p"
  let ?p1 = "?p0\<lparr>num_active := num_active ?p0 - 1\<rparr>"
  obtain status w where st: "term_of_status ?s = (status, w)" by fastforce
  have inG: "we_cpid e \<in># groups (running p)" and ended: "WIFSIGNALED ?s \<or> WIFEXITED ?s"
    using assms(4,5) by (auto simp: wait_ok_def)
  have p0: "pan_inv cfg base ?p0" by (rule check_orphans_inv [OF assms(1)])
  then have p1: "slots_inv cfg base ?p1" by (simp add: pan_inv_def slots_inv_def)
  obtain i where i: "find_slot (we_cpid e) (running p) = Some i"
    using inG find_slot_None [of "we_cpid e" "running p"] by (auto simp: in_groups)
  note at_i = find_slot_Some [OF i]
  let ?ret = "if WIFSIGNALED ?s then 0 else if WIFEXITED ?s then (if w \<noteq> 0 \<and> w \<noteq> TCONF then 1 else 0) else 1"
  obtain q where q: "reap_slot cfg e status w ?ret (WIFSIGNALED ?s) i ?p1 =
      Ok (?ret - (if w = 130 \<and> stopping (running p ! i) \<and> status = ''exited'' then 1 else 0) +
          (if WIFSIGNALED ?s \<and> \<not> stopping (running p ! i) then 1 else 0), q)"
    "slots_inv cfg base q" "num_active q = num_active p - 1" "length (running q) = length (running p)"
    "groups (running q) = groups (running p) - {#we_cpid e#}"
    "orphan_groups (orphans q) = orphan_groups (orphans ?p0) + (if survives e then {#we_cpid e#} else {#})"
    using reap_slot_inv [OF p1 assms(2,3), of i status w ?ret "WIFSIGNALED ?s"] at_i assms(5) by auto
  have "check_pids cfg e p = reap_slot cfg e status w ?ret (WIFSIGNALED ?s) i ?p1"
    using assms(5) st ended i by (simp add: check_pids_def Let_def)
  moreover have "?ret - (if w = 130 \<and> stopping (running p ! i) \<and> status = ''exited'' then 1 else 0) +
      (if WIFSIGNALED ?s \<and> \<not> stopping (running p ! i) then 1 else 0) = reap_errors (stopping (running p ! i)) ?s"
    using st ended by (auto simp: term_of_status_def reap_errors_def TCONF_def split: if_splits)
  moreover have "pan_inv cfg base q"
    using q(2,3,5) assms(1) inG by (simp add: pan_inv_def size_Diff_singleton)
      (metis One_nat_def Suc_leI nonempty_has_size empty_iff set_mset_empty of_nat_diff int_ops(2))
  ultimately show ?thesis
    using q check_orphans_inv(2) [OF assms(1)] i by (auto simp: reaped_slot_def)
qed

text \<open>Whether a child gets as far as running its command.\<close>

definition child_starts :: "pan_cfg \<Rightarrow> child_env \<Rightarrow> coll_entry \<Rightarrow> bool" where
  "child_starts cfg e c \<longleftrightarrow> ce_pipe e = 0 \<and> ce_fork e \<noteq> -1 \<and>
     (case child_part cfg e c (cmdline c) of Ok (Some m) \<Rightarrow> False | _ \<Rightarrow> True)"

lemma run_child_value:
  assumes "test_out_dir cfg = None" "\<not> pcnt_f c" "\<not> ce_read_fails e"
    and "\<And>z. zoo_ready z \<Longrightarrow> fst (zoo_mark_cmdline z (ce_fork e) (name c) (cmdline c)) = 0 \<or> ce_fork e = -1"
    and "zoo_ready (zoofile p)" "i < length (running p)"
  shows "\<exists>q. run_child cfg e c i p = Ok (if child_starts cfg e c then ce_fork e else -1, q)"
proof -
  let ?p2 = "set_slot i (claim_slot e c) (p\<lparr>counter := counter p\<rparr>)"
  let ?w = "if \<not> quiet_mode cfg then write_test_start cfg (running ?p2 ! i) ?p2 else Ok ?p2"
  have "\<exists>p3. ?w = Ok p3" using assms(6) by (simp add: write_test_start_def)
  then obtain p3 where p3: "?w = Ok p3" by blast
  then have core: "core p3 = core ?p2" by (auto dest: core_write_test_start split: if_splits)
  have z: "zoofile p3 = zoofile p" unfolding core_fields(7) [OF core] by simp
  let ?z = "zoofile p"
  obtain r z' where m: "zoo_mark_cmdline ?z (ce_fork e) (name c) (cmdline c) = (r, z')" by fastforce
  have r: "r = 0 \<or> ce_fork e = -1" using assms(4) [OF assms(5)] m by simp
  show ?thesis
  proof (cases "ce_pipe e \<noteq> 0 \<or> ce_fork e = -1")
    case True
    then show ?thesis using assms(1-3) p3
      by (auto simp: run_child_def run_child_rest_def child_starts_def Let_def)
  next
    case False
    then show ?thesis using assms(1-3) p3 z m r
      by (cases "child_part cfg e c (cmdline c)" rule: child_result_cases)
        (auto simp: run_child_def run_child_rest_def child_starts_def Let_def)
  qed
qed

section \<open>Properties\<close>


definition demo_entry :: coll_entry where
  "demo_entry = \<lparr>name = ''abort01'', cmdline = ''ulimit -c 1024;abort01'', pcnt_f = False\<rparr>"

definition demo_cfg :: pan_cfg where
  "demo_cfg = \<lparr>panname = ''ltp'', test_out_dir = None, reporttype = ''rts'', fmt_print = True,
     quiet_mode = False, sequential = True, has_brakes = False, track_exit_stats = True,
     mypid = 42, coll = [demo_entry]\<rparr>"

definition demo_zoo :: zoo where
  "demo_zoo = snd (zoo_mark_cmdline empty_zoo 42 ''ltp'' ''pan'')"

definition demo_busy :: pan where
  "demo_busy = (idle_pan (snd (zoo_mark_cmdline demo_zoo 500 ''abort01'' ''ulimit -c 1024;abort01'')))
     \<lparr>running := [\<lparr>pgrp = 500, stopping = False, mystime = 100, cmd = Some demo_entry, output_path = []\<rparr>],
      num_active := 1\<rparr>"

definition demo_child :: child_env where
  "demo_child = \<lparr>ce_open = [], ce_pipe = 0, ce_time = 100, ce_fork = 500, ce_mem = mem_plenty,
     ce_dup_out = 0, ce_dup_err = 0, ce_exec = 0, ce_read_fails = False, ce_status = 0,
     ce_end_time = 0, ce_strerror = (\<lambda>_. [])\<rparr>"

definition demo_wait :: wait_env where
  "demo_wait = \<lparr>we_okill = (\<lambda>_ _. 0), we_cpid = 500, we_errno = 0, we_status = 256 * 2, we_time = 103,
     we_cutime = 0, we_cstime = 0, we_output = None, we_kill = (\<lambda>_ _. ESRCH)\<rparr>"

lemma demo_coll_ok: "coll_ok demo_cfg"
  by (simp add: coll_ok_def demo_cfg_def demo_entry_def zoo_clean_def)

lemma demo_zoo_ready: "zoo_ready demo_zoo" "zoo_pids demo_zoo = {#42#}"
proof -
  have "zoo_pids empty_zoo = {#}" by (simp add: empty_zoo_def zoo_pids_def line_pids_def)
  then show "zoo_ready demo_zoo" "zoo_pids demo_zoo = {#42#}"
    using zr.mark_adds [OF empty_zoo_ready, of 42 "''ltp''" "''pan''"]
    by (simp_all add: demo_zoo_def zoo_clean_def)
qed

lemma demo_idle_inv: "pan_inv demo_cfg {#42#} (idle_pan demo_zoo)"
  using demo_zoo_ready
  by (simp add: pan_inv_def slots_inv_def idle_pan_def slot_ok_def numeral_2_eq_2)

lemma demo_busy_inv: "pan_inv demo_cfg {#42#} demo_busy"
proof -
  have "zoo_clean ''abort01''" "zoo_clean ''ulimit -c 1024;abort01''" by (simp_all add: zoo_clean_def)
  then show ?thesis
    using demo_zoo_ready zr.mark_adds [OF demo_zoo_ready(1), of 500 "''abort01''" "''ulimit -c 1024;abort01''"]
    by (simp add: pan_inv_def slots_inv_def demo_busy_def idle_pan_def slot_ok_def demo_cfg_def)
qed

lemma demo_child_starts: "child_starts demo_cfg demo_child demo_entry"
  by (simp add: child_starts_def demo_child_def child_part_def demo_cfg_def demo_entry_def exec_plan_of_def
      shell_chars_def)


text \<open>
  C4: reaping a test. When \<^verbatim>\<open>wait\<close> returns a child, \<^verbatim>\<open>check_pids\<close> returns 1 or 0 by a fixed
  table: an exit status other than 0 and TCONF is an error unless it is 130 in a test being
  stopped, a signal is an error unless the test is being stopped. Exactly that child's slot
  becomes free, the count of active tests and the zoo follow, its group is an orphan exactly
  if it still exists, and orphans that are gone leave the list and the zoo.
\<close>

theorem check_pids_reap:
  assumes "pan_inv cfg base p" "coll_ok cfg" "output_ok cfg e" "wait_ok e p" "0 < we_cpid e"
  shows "\<exists>q. check_pids cfg e p = Ok (reap_errors (stopping (running p ! reaped_slot e p)) (we_status e), q) \<and>
    pan_inv cfg base q \<and> length (running q) = length (running p) \<and>
    groups (running q) = groups (running p) - {#we_cpid e#} \<and>
    orphan_groups (orphans q) = filter_mset (\<lambda>g. we_okill e g 0 \<noteq> ESRCH) (orphan_groups (orphans p)) +
      (if survives e then {#we_cpid e#} else {#})"
  using assms by (rule check_pids_reaps)

theorem check_pids_reap_witness:
  "\<exists>q. check_pids demo_cfg demo_wait demo_busy = Ok (1, q) \<and> pan_inv demo_cfg {#42#} q \<and>
     groups (running q) = {#}"
proof -
  have "wait_ok demo_wait demo_busy" "0 < we_cpid demo_wait" "output_ok demo_cfg demo_wait"
    by (simp_all add: wait_ok_def demo_wait_def demo_busy_def idle_pan_def wait_defs output_ok_def demo_cfg_def)
  from check_pids_reap [OF demo_busy_inv demo_coll_ok this(3,1,2)] show ?thesis
    by (auto simp: demo_wait_def demo_busy_def idle_pan_def reap_errors_def wait_defs TCONF_def)
qed

text \<open>
  With output buffering, a test that wrote nothing is a fault: the check that the copied
  output ends in a newline reads the byte before its start.
\<close>

lemma empty_output_faults:
  assumes "test_out_dir cfg \<noteq> None" "we_output e = Some []" "0 < we_cpid e"
    and "find_slot (we_cpid e) (running p) = Some i" "cmd (running p ! i) = Some c"
  shows "check_pids cfg e p = Fault"
proof -
  have "\<not> output_ok cfg e" using assms(1,2) by (simp add: output_ok_def)
  with check_pids_slot [OF assms(3,4), of cfg] assms(5) show ?thesis
    by (auto simp: reap_slot_empty)
qed

end
