(* ===== verification/Pan_Setup.thy ===== *)
theory Pan_Setup
  imports Pan_Run
begin

text \<open>
  The first half of \<^verbatim>\<open>main\<close> in \<^verbatim>\<open>pan/ltp-pan.c\<close>: the options, the checks and defaults, the
  command collection, the slots, the log header and the zoo, up to the start of the scheduler.
\<close>

section \<open>Options\<close>

text \<open>The variables \<^verbatim>\<open>main\<close> sets from its options; a pointer that is still NULL is \<open>None\<close>.\<close>

record pan_opts =
  o_panname :: "cstr option"
  o_zooname :: "cstr option"
  o_filename :: cstr
  o_logfilename :: "cstr option"
  o_failcmdfilename :: "cstr option"
  o_tconfcmdfilename :: "cstr option"
  o_outputfilename :: "cstr option"
  o_test_out_dir :: "cstr option"
  o_reporttype :: "cstr option"
  o_keep_active :: int
  o_starts :: int
  o_timed :: bool
  o_run_time :: int
  o_modifier :: char
  o_has_brakes :: bool
  o_sequential :: bool
  o_fork_in_road :: bool
  o_track_exit_stats :: bool
  o_fmt_print :: bool
  o_quiet_mode :: bool
  o_stdout :: cstr

definition default_opts :: pan_opts where
  "default_opts = \<lparr>o_panname = None, o_zooname = None, o_filename = ''/dev/null'', o_logfilename = None,
     o_failcmdfilename = None, o_tconfcmdfilename = None, o_outputfilename = None,
     o_test_out_dir = None, o_reporttype = None, o_keep_active = 1, o_starts = -1, o_timed = False,
     o_run_time = -1, o_modifier = CHR ''m'', o_has_brakes = False, o_sequential = False,
     o_fork_in_road = False, o_track_exit_stats = False, o_fmt_print = False, o_quiet_mode = False,
     o_stdout = []\<rparr>"

text \<open>
  \<^verbatim>\<open>sscanf(s, "%d%c", &n, &c)\<close>: the number of conversions (-1 at the end of the input) and
  the converted values.
\<close>

definition sscanf_dc :: "cstr \<Rightarrow> int \<times> int \<times> char" where
  "sscanf_dc s =
     (let s1 = dropWhile is_space s;
          neg = (s1 \<noteq> [] \<and> hd s1 = CHR ''-'');
          s2 = (if s1 \<noteq> [] \<and> (hd s1 = CHR ''-'' \<or> hd s1 = CHR ''+'') then tl s1 else s1);
          n = int (digits_val 0 s2);
          rest = dropWhile is_digit s2
      in if s1 = [] then (-1, 0, nul)
         else if s2 = [] \<or> \<not> is_digit (hd s2) then (0, 0, nul)
         else (if rest = [] then 1 else 2, if neg then - n else n, if rest = [] then nul else hd rest))"

definition time_unit :: "char \<Rightarrow> int option" where
  "time_unit c = (if c = CHR ''s'' then Some 1 else if c = CHR ''m'' then Some 60
     else if c = CHR ''h'' then Some (60 * 60) else if c = CHR ''d'' then Some (60 * 60 * 24) else None)"

text \<open>Option \<^verbatim>\<open>-t\<close>. A product outside the range of \<^verbatim>\<open>int\<close> is a signed overflow.\<close>

definition opt_time :: "cstr \<Rightarrow> pan_opts \<Rightarrow> pan_opts outcome" where
  "opt_time optarg o1 =
     (case sscanf_dc optarg of (ret, n, c) \<Rightarrow>
        let o2 = (if ret \<ge> 1 then o1\<lparr>o_run_time := n\<rparr> else o1);
            o3 = (if ret \<ge> 2 then o2\<lparr>o_modifier := c\<rparr> else o2)
        in if ret = 0 then Ok o3
           else if ret = 1 then Ok (o3\<lparr>o_timed := True\<rparr>)
           else case time_unit (o_modifier o3) of
                  None \<Rightarrow> Exit (-1)
                | Some u \<Rightarrow>
                    (let t = o_run_time o3 * u
                     in if t < - (2 ^ 31) \<or> 2 ^ 31 \<le> t then Fault
                        else Ok (o3\<lparr>o_run_time := t, o_timed := True,
                               o_stdout := o_stdout o3 @ (if o_quiet_mode o3 then []
                                 else ''PAN will run for '' @ dec_int t @ '' seconds'' @ [newline])\<rparr>)))"

text \<open>One round of the \<^verbatim>\<open>getopt\<close> loop; other characters (\<^verbatim>\<open>?\<close>) change nothing,
  \<^verbatim>\<open>-d\<close> only what is printed on stderr, and the text of \<^verbatim>\<open>-h\<close> is left out.\<close>

definition opt_step :: "pan_opts \<Rightarrow> char \<times> cstr \<Rightarrow> pan_opts outcome" where
  "opt_step o1 ca = (case ca of (c, optarg) \<Rightarrow>
     if c = CHR ''A'' then Ok (o1\<lparr>o_has_brakes := True, o_track_exit_stats := True\<rparr>)
     else if c = CHR ''O'' then Ok (o1\<lparr>o_test_out_dir := Some optarg\<rparr>)
     else if c = CHR ''S'' then Ok (o1\<lparr>o_sequential := True\<rparr>)
     else if c = CHR ''a'' then Ok (o1\<lparr>o_zooname := Some optarg\<rparr>)
     else if c = CHR ''C'' then Ok (o1\<lparr>o_failcmdfilename := Some optarg\<rparr>)
     else if c = CHR ''T'' then Ok (o1\<lparr>o_tconfcmdfilename := Some optarg\<rparr>)
     else if c = CHR ''e'' then Ok (o1\<lparr>o_track_exit_stats := True\<rparr>)
     else if c = CHR ''f'' then Ok (o1\<lparr>o_filename := optarg\<rparr>)
     else if c = CHR ''h'' then Exit 0
     else if c = CHR ''l'' then Ok (o1\<lparr>o_logfilename := Some optarg\<rparr>)
     else if c = CHR ''n'' then Ok (o1\<lparr>o_panname := Some optarg\<rparr>)
     else if c = CHR ''o'' then Ok (o1\<lparr>o_outputfilename := Some optarg\<rparr>)
     else if c = CHR ''p'' then Ok (o1\<lparr>o_fmt_print := True\<rparr>)
     else if c = CHR ''q'' then Ok (o1\<lparr>o_quiet_mode := True\<rparr>)
     else if c = CHR ''r'' then Ok (o1\<lparr>o_reporttype := Some optarg\<rparr>)
     else if c = CHR ''s'' then Ok (o1\<lparr>o_starts := atoi optarg\<rparr>)
     else if c = CHR ''t'' then opt_time optarg o1
     else if c = CHR ''x'' then Ok (o1\<lparr>o_keep_active := atoi optarg\<rparr>)
     else if c = CHR ''y'' then Ok (o1\<lparr>o_fork_in_road := True\<rparr>)
     else Ok o1)"

fun getopt_loop :: "pan_opts \<Rightarrow> (char \<times> cstr) list \<Rightarrow> pan_opts outcome" where
  "getopt_loop o1 [] = Ok o1"
| "getopt_loop o1 (a # as) = bind_outcome (opt_step o1 a) (\<lambda>o2. getopt_loop o2 as)"

section \<open>Setup\<close>

definition tolower :: "char \<Rightarrow> char" where
  "tolower c = (if 65 \<le> (of_char c :: nat) \<and> (of_char c :: nat) \<le> 90 then char_of ((of_char c :: nat) + 32) else c)"

definition strcaseeq :: "cstr \<Rightarrow> cstr \<Rightarrow> bool" where
  "strcaseeq a b \<longleftrightarrow> map tolower a = map tolower b"

definition report_type :: "cstr option \<Rightarrow> cstr" where
  "report_type r = (case r of
       None \<Rightarrow> ''rts''
     | Some t \<Rightarrow> if \<not> strcaseeq t ''rts'' \<and> \<not> strcaseeq t ''none'' then ''rts'' else t)"

definition log_header :: "bool \<Rightarrow> cstr \<Rightarrow> cstr" where
  "log_header fmt s =
     (if \<not> fmt then ''startup='' @ [CHR 0x27] @ s @ [CHR 0x27, newline]
      else ''Test Start Time: '' @ s @ [newline] @ ''-----------------------------------------'' @ [newline]
        @ fmt_left 30 20 ''Testcase'' @ '' '' @ fmt_left 10 10 ''Result'' @ '' '' @ fmt_left 10 10 ''Exit Value'' @ [newline]
        @ fmt_left 30 20 ''--------'' @ '' '' @ fmt_left 10 10 ''------'' @ '' '' @ fmt_left 10 10 ''------------'' @ [newline])"

definition default_starts :: "bool \<Rightarrow> int \<Rightarrow> bool \<Rightarrow> int \<Rightarrow> int \<Rightarrow> int" where
  "default_starts timed st seq cnt keep =
     (if timed \<and> st = -1 then -1
      else if st = -1 then (if seq then cnt else 1)
      else if st = 0 then -1
      else if st < keep then keep else st)"

fun zoo_reserve :: "cstr \<Rightarrow> nat list \<Rightarrow> zoo \<Rightarrow> zoo outcome" where
  "zoo_reserve tag [] z = Ok z"
| "zoo_reserve tag (c # cs) z = (case zoo_mark_cmdline z (int c) tag [] of
       (r, z') \<Rightarrow> if r \<noteq> 0 then Exit 1 else zoo_reserve tag cs z')"

fun zoo_release :: "nat list \<Rightarrow> zoo \<Rightarrow> zoo outcome" where
  "zoo_release [] z = Ok z"
| "zoo_release (c # cs) z = (case zoo_clear z (int c) of
       (r, z') \<Rightarrow> if r \<noteq> 0 then Exit 1 else zoo_release cs z')"

text \<open>
  What the environment answers during setup: errno values of the calls named, the start time
  as \<^verbatim>\<open>ctime\<close> prints it (without its newline), the contents of the command file, the
  arguments behind the options, and all arguments for the zoo entry.
\<close>

record setup_env =
  se_zoo_env :: "cstr option"
  se_log_errno :: int
  se_ctime :: cstr
  se_file :: "cstr option"
  se_args :: "cstr list"
  se_argv :: "cstr list"
  se_malloc :: bool
  se_stat :: int
  se_isdir :: bool
  se_access :: int
  se_freopen :: int
  se_fail_errno :: int
  se_tconf_errno :: int
  se_fopen :: fopen_env
  se_cat :: bool
  se_zoo :: zoo
  se_pid :: int

text \<open>The command file, the slots and the start counter: up to the checks of the output directory.\<close>

definition setup_tables ::
    "pan_opts \<Rightarrow> setup_env \<Rightarrow> (coll_entry list \<times> tag_pgrp list \<times> int \<times> cstr option) outcome"
where
  "setup_tables opts e =
     bind_outcome (get_collection (se_file e) (se_args e)) (\<lambda>coll_opt. case coll_opt of
         None \<Rightarrow> Exit 1
       | Some cs \<Rightarrow>
           if cs = [] then Exit 1
           else if \<not> se_malloc e then Exit 2
           else if o_keep_active opts < 0 then Fault
           else
             (let keep = o_keep_active opts;
                  slots = replicate (nat keep)
                    \<lparr>pgrp = 0, stopping = False, mystime = 0, cmd = None, output_path = []\<rparr>;
                  st = default_starts (o_timed opts) (o_starts opts) (o_sequential opts) (int (length cs)) keep;
                  dir = (if keep = 1 then None else o_test_out_dir opts)
              in if dir \<noteq> None \<and> (se_stat e \<noteq> 0 \<or> \<not> se_isdir e \<or> se_access e \<noteq> 0) then Exit 1
                 else Ok (cs, slots, st, dir)))"

text \<open>The zoo: opened, marked with pan's own entry, and one line per slot made and freed.\<close>

definition setup_zoo :: "cstr \<Rightarrow> cstr \<Rightarrow> nat \<Rightarrow> setup_env \<Rightarrow> zoo outcome" where
  "setup_zoo zooname tag keep e =
     (let z = zoo_open (se_fopen e) zooname (se_zoo e)
      in if \<not> zopen z then Exit 1
         else bind_outcome (zoo_mark_args (se_cat e) z (se_pid e) tag (se_argv e)) (\<lambda>(r, z1).
           if r \<noteq> 0 then Exit 1
           else bind_outcome (zoo_reserve tag [0..<keep] z1) (zoo_release [0..<keep])))"

definition pan_setup :: "pan_opts \<Rightarrow> setup_env \<Rightarrow> (pan_cfg \<times> pan) outcome" where
  "pan_setup opts e = (case o_panname opts of
       None \<Rightarrow> Exit 1
     | Some tag \<Rightarrow>
         (case (case o_zooname opts of None \<Rightarrow> zoo_getname (se_zoo_env e) | Some z \<Rightarrow> Some z) of
            None \<Rightarrow> Exit 1
          | Some zooname \<Rightarrow>
              (let to_stdout = (o_logfilename opts = Some ''-'');
                   header = log_header (o_fmt_print opts) (se_ctime e)
               in if o_logfilename opts \<noteq> None \<and> \<not> to_stdout \<and> se_log_errno e \<noteq> 0 then Exit 1
                  else bind_outcome (setup_tables opts e) (\<lambda>(cs, slots, st, dir).
                    if o_outputfilename opts \<noteq> None \<and> se_freopen e \<noteq> 0 then Exit 1
                    else if o_failcmdfilename opts \<noteq> None \<and> se_fail_errno e \<noteq> 0 then Exit 1
                    else if o_tconfcmdfilename opts \<noteq> None \<and> se_tconf_errno e \<noteq> 0 then Exit 1
                    else bind_outcome (setup_zoo zooname tag (nat (o_keep_active opts)) e) (\<lambda>z.
                      Ok (\<lparr>panname = tag, test_out_dir = dir, reporttype = report_type (o_reporttype opts),
                           fmt_print = o_fmt_print opts, quiet_mode = o_quiet_mode opts,
                           sequential = o_sequential opts, has_brakes = o_has_brakes opts,
                           track_exit_stats = o_track_exit_stats opts, mypid = se_pid e, coll = cs\<rparr>,
                          \<lparr>running = slots, num_active = 0, orphans = [0], rec_signal = 0, send_signal = 0,
                           lastsent = 0, zoofile = z, sent = [], failcnt = 0, tconfcnt = 0, cmdno = 0,
                           counter = 1, stdout = o_stdout opts @ (if to_stdout then header else []),
                           logfile = (if to_stdout then LogStdout
                                      else if o_logfilename opts = None then NoLog else LogFile header),
                           failcmdfile = map_option (\<lambda>_. []) (o_failcmdfilename opts),
                           tconfcmdfile = map_option (\<lambda>_. []) (o_tconfcmdfilename opts),
                           starts = st, cidx = 0, stop = 0, go_idle = 0,
                           fork_in_road = o_fork_in_road opts, exit_stat = 0\<rparr>))))))"

section \<open>Setup establishes the invariant\<close>

lemma zoo_reserve_pids:
  assumes "zoo_ready z" "zoo_clean tag" "\<forall>c \<in> set cs. int c < 2 ^ 31"
  shows "\<exists>z'. zoo_reserve tag cs z = Ok z' \<and> zoo_ready z' \<and> zoo_pids z' = zoo_pids z + mset (map int cs)"
  using assms
proof (induction cs arbitrary: z)
  case Nil
  then show ?case by simp
next
  case (Cons c cs)
  obtain r z1 where m: "zoo_mark_cmdline z (int c) tag [] = (r, z1)" by fastforce
  have "zoo_clean []" by (simp add: zoo_clean_def)
  with zr.mark_adds [of z "int c" tag "[]"] m Cons.prems
  have "r = 0" "zoo_ready z1" "zoo_pids z1 = add_mset (int c) (zoo_pids z)" by auto
  with Cons.IH [of z1] Cons.prems m show ?case by auto
qed

lemma zoo_release_pids:
  assumes "zoo_ready z" "zoo_pids z = base + mset (map int cs)"
  shows "\<exists>z'. zoo_release cs z = Ok z' \<and> zoo_ready z' \<and> zoo_pids z' = base"
  using assms
proof (induction cs arbitrary: z)
  case Nil
  then show ?case by simp
next
  case (Cons c cs)
  obtain r z1 where m: "zoo_clear z (int c) = (r, z1)" by fastforce
  with zr.clear_cases [of z "int c"] Cons.prems
  have "r = 0" "zoo_ready z1" "zoo_pids z1 = base + mset (map int cs)" by auto
  with Cons.IH [of z1] m show ?case by auto
qed

lemma zoo_clean_join: "\<forall>a \<in> set xs. zoo_clean a \<Longrightarrow> zoo_clean (join (CHR '' '') xs)"
proof (induction "CHR '' ''" xs rule: join.induct)
  case (3 x y zs)
  then show ?case by (simp add: zoo_clean_def)
qed (simp_all add: zoo_clean_def)

text \<open>The zoo as pan finds it.\<close>

definition found_zoo :: "setup_env \<Rightarrow> zoo" where
  "found_zoo e = zoo_open (se_fopen e) [] (se_zoo e)"

lemma zoo_open_name: "zopen (zoo_open f n z) \<Longrightarrow> zoo_open f n z = zoo_open f m z"
  by (auto simp: zoo_open_def set_zoo_error_def split: if_splits)

lemma setup_zoo_pids:
  assumes "setup_zoo zooname tag keep e = Ok z" "zoo_ready (found_zoo e)" "zoo_clean tag"
    and "\<forall>a \<in> set (se_argv e). zoo_clean a" "0 < se_pid e" "se_pid e < 2 ^ 31" "int keep < 2 ^ 31"
  shows "zoo_ready z" "zoo_pids z = add_mset (se_pid e) (zoo_pids (found_zoo e))"
proof -
  let ?z0 = "found_zoo e" and ?line = "join (CHR '' '') (se_argv e)"
  have z0: "zoo_open (se_fopen e) zooname (se_zoo e) = ?z0"
    using assms(1) by (auto simp: setup_zoo_def Let_def found_zoo_def intro: zoo_open_name split: if_splits)
  obtain r z1 where m: "zoo_mark_args (se_cat e) ?z0 (se_pid e) tag (se_argv e) = Ok (r, z1)" "r = 0"
    and rest: "bind_outcome (zoo_reserve tag [0..<keep] z1) (zoo_release [0..<keep]) = Ok z"
    using assms(1) z0 by (auto simp: setup_zoo_def Let_def split: if_splits)
  have "se_argv e \<noteq> []" "se_cat e" using m by (auto simp: zoo_mark_args_def cat_args_def cat_size_def split: if_splits)
  then have "zoo_mark_cmdline ?z0 (se_pid e) tag ?line = (0, z1)"
    using m cat_args_value by (simp add: zoo_mark_args_def)
  with zr.mark_adds [OF assms(2) _ assms(6,3) zoo_clean_join [OF assms(4)]] assms(5)
  have z1: "zoo_ready z1" "zoo_pids z1 = add_mset (se_pid e) (zoo_pids ?z0)" by auto
  have "\<forall>c \<in> set [0..<keep]. int c < 2 ^ 31" using assms(7) by auto
  from zoo_reserve_pids [OF z1(1) assms(3) this] rest obtain z2 where
    "zoo_ready z2" "zoo_pids z2 = zoo_pids z1 + mset (map int [0..<keep])" "zoo_release [0..<keep] z2 = Ok z"
    by auto
  with zoo_release_pids z1(2) show "zoo_ready z" "zoo_pids z = add_mset (se_pid e) (zoo_pids ?z0)"
    by (metis outcome.inject(1))+
qed

lemma setup_zoo_Ok:
  assumes "zoo_ready (zoo_open (se_fopen e) zooname (se_zoo e))" "zoo_clean tag"
    and "\<forall>a \<in> set (se_argv e). zoo_clean a" "0 < se_pid e" "se_pid e < 2 ^ 31" "int keep < 2 ^ 31"
    and "se_argv e \<noteq> []" "se_cat e"
  shows "\<exists>z. setup_zoo zooname tag keep e = Ok z"
proof -
  let ?z0 = "zoo_open (se_fopen e) zooname (se_zoo e)"
  obtain r z1 where m: "zoo_mark_cmdline ?z0 (se_pid e) tag (join (CHR '' '') (se_argv e)) = (r, z1)" by fastforce
  with zr.mark_adds [OF assms(1) _ assms(5,2) zoo_clean_join [OF assms(3)]] assms(4)
  have z1: "r = 0" "zoo_ready z1" by auto
  have "\<forall>c \<in> set [0..<keep]. int c < 2 ^ 31" using assms(6) by auto
  from zoo_reserve_pids [OF z1(2) assms(2) this] obtain z2 where
    z2: "zoo_reserve tag [0..<keep] z1 = Ok z2" "zoo_ready z2"
      "zoo_pids z2 = zoo_pids z1 + mset (map int [0..<keep])" by blast
  from zoo_release_pids [OF z2(2,3)] obtain z3 where "zoo_release [0..<keep] z2 = Ok z3" by blast
  moreover have "zopen ?z0" using assms(1) by (simp add: zoo_ready_def)
  ultimately show ?thesis using m z1 z2 assms(7,8) cat_args_value [of "se_argv e"]
    by (auto simp: setup_zoo_def zoo_mark_args_def Let_def)
qed

text \<open>Entries of a collection are clean when the file and the arguments are.\<close>

lemma set_patch: "set (snd (patch_pcnt_f a)) \<subseteq> insert (CHR ''s'') (set a)"
  using set_update_subset_insert [of a _ "CHR ''s''"] by (auto simp: patch_pcnt_f_def split: option.splits)

lemma line_entry_clean:
  assumes "zoo_clean a"
  shows "zoo_clean (name (line_entry a))" "zoo_clean (cmdline (line_entry a))"
proof -
  have "zoo_clean (snd (patch_pcnt_f a))" using assms set_patch [of a] by (auto simp: zoo_clean_def)
  then show "zoo_clean (name (line_entry a))" "zoo_clean (cmdline (line_entry a))"
    by (auto simp: zoo_clean_def line_entry_def Let_def dest: set_takeWhileD set_dropWhileD in_set_dropD)
qed

lemma coll_loop_clean:
  assumes "coll_loop es a = Ok es'" "nul \<notin> set a" "\<forall>e \<in> set es. zoo_clean (name e) \<and> zoo_clean (cmdline e)"
  shows "\<forall>e \<in> set es'. zoo_clean (name e) \<and> zoo_clean (cmdline e)"
  using assms
proof (induction es a rule: coll_loop.induct)
  case (1 es a)
  let ?l = "takeWhile (\<lambda>c. c \<noteq> newline) a"
  have "zoo_clean ?l" using "1.prems"(2) by (auto simp: zoo_clean_def dest: set_takeWhileD)
  note clean = line_entry_clean [OF this]
  define r where "r = (if skip_line ?l then Ok es else bind_outcome (coll_line ?l) (\<lambda>e. Ok (es @ [e])))"
  have r: "\<forall>e \<in> set x. zoo_clean (name e) \<and> zoo_clean (cmdline e)" if "r = Ok x" for x
    using that "1.prems"(3) clean by (auto simp: r_def coll_line_entry split: if_splits)
  show ?case
  proof (cases "strchr a newline")
    case None
    then have "r = Ok es'" using "1.prems"(1) by (subst (asm) coll_loop.simps) (simp add: r_def Let_def)
    then show ?thesis by (rule r)
  next
    case (Some b)
    then obtain x where x: "r = Ok x" "coll_loop x (drop 1 b) = Ok es'"
      using "1.prems"(1) by (subst (asm) coll_loop.simps) (auto simp: r_def [symmetric] Let_def split: outcome.splits)
    have "set b \<subseteq> set a" using Some by (auto simp: strchr_def split: list.splits dest: set_dropWhileD)
    then have "nul \<notin> set (drop 1 b)" using "1.prems"(2) by (meson in_set_dropD subsetD)
    from "1.IH" [OF refl r_def Some] x this r show ?thesis by auto
  qed
qed

lemma strncat_clean: "strncat w a n = Ok w' \<Longrightarrow> zoo_clean w \<Longrightarrow> zoo_clean a \<Longrightarrow> zoo_clean w'"
  by (auto simp: strncat_def Let_def zoo_clean_def split: if_splits dest: in_set_takeD)

lemma work_loop_clean:
  assumes "work_loop w left args = Ok w'" "zoo_clean w" "\<forall>a \<in> set args. zoo_clean a"
  shows "zoo_clean w'"
  using assms
proof (induction args arbitrary: w left)
  case Nil
  then show ?case by simp
next
  case (Cons a as)
  have "zoo_clean '' ''" by (simp add: zoo_clean_def)
  with Cons show ?case by (auto simp: Let_def dest: strncat_clean)
qed

lemma get_collection_clean:
  assumes "get_collection (Some b) args = Ok (Some cs)" "nul \<notin> set b" "\<forall>a \<in> set args. zoo_clean a"
  shows "\<forall>e \<in> set cs. zoo_clean (name e) \<and> zoo_clean (cmdline e)"
proof -
  obtain es where es: "coll_loop [] b = Ok es" using assms(1) by (auto simp: get_collection_def)
  then have clean: "\<forall>e \<in> set es. zoo_clean (name e) \<and> zoo_clean (cmdline e)"
    using coll_loop_clean assms(2) by simp
  show ?thesis
  proof (cases "args = []")
    case True
    with clean es assms(1) show ?thesis by (simp add: get_collection_def)
  next
    case False
    then obtain w where w: "work_loop [] 1023 args = Ok w" "cs = es @ [\<lparr>name = ''cmdln'',
        cmdline = snd (patch_pcnt_f w), pcnt_f = fst (patch_pcnt_f w)\<rparr>]"
      using es assms(1) by (auto simp: get_collection_def case_prod_unfold)
    have "zoo_clean w" using work_loop_clean [OF w(1)] assms(3) by (simp add: zoo_clean_def)
    then have "zoo_clean (snd (patch_pcnt_f w))" using set_patch [of w] by (auto simp: zoo_clean_def)
    with clean w(2) show ?thesis by (auto simp: zoo_clean_def)
  qed
qed

lemma setup_tables_starts:
  assumes "setup_tables opts e = Ok (cs, slots, st, dir)"
  shows "st = default_starts (o_timed opts) (o_starts opts) (o_sequential opts)
    (int (length cs)) (o_keep_active opts)"
  using assms by (auto simp: setup_tables_def Let_def split: option.splits if_splits)

section \<open>Properties\<close>

text \<open>
  C32: setup. When \<^verbatim>\<open>main\<close> reaches its scheduler loop, the slots are all free, the commands are
  not empty, and the zoo records exactly what it recorded before plus pan itself: the lines
  made and freed for the slots leave no trace in it.
\<close>

theorem pan_setup_establishes:
  assumes "pan_setup opts e = Ok (cfg, p)" "zoo_ready (found_zoo e)"
    and "\<forall>t. o_panname opts = Some t \<longrightarrow> zoo_clean t" "\<forall>a \<in> set (se_argv e). zoo_clean a"
    and "\<forall>a \<in> set (se_args e). zoo_clean a" "\<forall>b. se_file e = Some b \<longrightarrow> nul \<notin> set b"
    and "0 < se_pid e" "se_pid e < 2 ^ 31" "o_keep_active opts < 2 ^ 31"
  shows "pan_inv cfg (add_mset (se_pid e) (zoo_pids (found_zoo e))) p \<and> coll_ok cfg \<and> coll cfg \<noteq> [] \<and>
    mypid cfg = se_pid e \<and> int (length (running p)) = o_keep_active opts \<and> num_active p = 0 \<and> cidx p = 0"
proof -
  obtain tag zooname cs slots st dir z where tag: "o_panname opts = Some tag"
    and tables: "setup_tables opts e = Ok (cs, slots, st, dir)"
    and zoo: "setup_zoo zooname tag (nat (o_keep_active opts)) e = Ok z"
    and p: "running p = slots" "num_active p = 0" "orphans p = [0]" "zoofile p = z" "cidx p = 0"
    and cfg: "coll cfg = cs" "mypid cfg = se_pid e"
    using assms(1) by (auto simp: pan_setup_def Let_def split: option.splits if_splits)
  let ?slot = "\<lparr>pgrp = 0, stopping = False, mystime = 0, cmd = None, output_path = []\<rparr>"
  have t: "cs \<noteq> []" "0 \<le> o_keep_active opts" "slots = replicate (nat (o_keep_active opts)) ?slot"
    "get_collection (se_file e) (se_args e) = Ok (Some cs)"
    using tables by (auto simp: setup_tables_def Let_def split: option.splits if_splits)
  have "groups (replicate n ?slot) = {#}" for n by (induction n) auto
  moreover have "zoo_ready z \<and> zoo_pids z = add_mset (se_pid e) (zoo_pids (found_zoo e))"
    using setup_zoo_pids [OF zoo assms(2) _ assms(4,7,8)] assms(3,9) tag t(2) by simp
  ultimately have "pan_inv cfg (add_mset (se_pid e) (zoo_pids (found_zoo e))) p"
    using p t(3) by (simp add: pan_inv_def slots_inv_def slot_ok_def)
  moreover have "coll_ok cfg"
    using get_collection_clean [of _ "se_args e" cs] t(4) assms(5,6) cfg(1)
    by (cases "se_file e") (auto simp: coll_ok_def get_collection_def)
  ultimately show ?thesis using p cfg t by simp
qed

definition demo_opts :: pan_opts where
  "demo_opts = default_opts\<lparr>o_panname := Some ''ltp'', o_zooname := Some ''/tmp/zoo'', o_sequential := True,
     o_track_exit_stats := True\<rparr>"

definition demo_setup :: setup_env where
  "demo_setup = \<lparr>se_zoo_env = None, se_log_errno = 0, se_ctime = ''Mon Jan  1 00:00:00 2015'',
     se_file = Some ''abort01 ulimit -c 1024;abort01'', se_args = [], se_argv = [''pan'', ''-S''],
     se_malloc = True, se_stat = 0, se_isdir = True, se_access = 0, se_freopen = 0, se_fail_errno = 0,
     se_tconf_errno = 0, se_fopen = \<lparr>fe_rplus = ENOENT, fe_append = 0, fe_again = 0, fe_content = []\<rparr>,
     se_cat = True, se_zoo = empty_zoo, se_pid = 42\<rparr>"

lemma demo_found_zoo: "zoo_ready (zoo_open (se_fopen demo_setup) n (se_zoo demo_setup))"
  by (simp add: demo_setup_def zoo_open_def empty_zoo_def zoo_ready_def zoo_format_def errno_defs)

lemma demo_setup_Ok: "\<exists>cfg p. pan_setup demo_opts demo_setup = Ok (cfg, p)"
proof -
  have "\<exists>z. setup_zoo ''/tmp/zoo'' ''ltp'' 1 demo_setup = Ok z"
    by (rule setup_zoo_Ok [OF demo_found_zoo]) (simp_all add: demo_setup_def zoo_clean_def)
  moreover have "coll_loop [] (join newline [''abort01 ulimit -c 1024;abort01'']) =
      Ok [line_entry ''abort01 ulimit -c 1024;abort01'']"
    by (subst coll_loop_lines) (simp_all add: skip_line_def has_blank_def)
  then have "\<exists>st. setup_tables demo_opts demo_setup = Ok ([line_entry ''abort01 ulimit -c 1024;abort01''],
      [\<lparr>pgrp = 0, stopping = False, mystime = 0, cmd = None, output_path = []\<rparr>], st, None)"
    by (simp add: setup_tables_def demo_setup_def demo_opts_def default_opts_def get_collection_def)
  ultimately show ?thesis
    by (auto simp: pan_setup_def demo_opts_def default_opts_def demo_setup_def Let_def)
qed

theorem pan_setup_establishes_witness:
  "\<exists>cfg p. pan_setup demo_opts demo_setup = Ok (cfg, p) \<and> pan_inv cfg {#42#} p"
proof -
  obtain cfg p where ok: "pan_setup demo_opts demo_setup = Ok (cfg, p)" using demo_setup_Ok by blast
  have "zoo_ready (found_zoo demo_setup)" using demo_found_zoo by (simp add: found_zoo_def)
  moreover have "zoo_pids (found_zoo demo_setup) = {#}"
    by (simp add: found_zoo_def demo_setup_def zoo_open_def empty_zoo_def zoo_pids_def line_pids_def errno_defs)
  ultimately show ?thesis
    using pan_setup_establishes [OF ok] ok
    by (auto simp: demo_setup_def demo_opts_def default_opts_def zoo_clean_def)
qed

text \<open>
  The number of tests to start. By default every command of the collection is started once
  in sequential mode and one otherwise; a given number is raised to the number of slots; 0, and
  a run limited by time only, mean no limit (-1).
\<close>

lemma starts_default:
  assumes "pan_setup opts e = Ok (cfg, p)"
  shows "starts p = (if o_starts opts = -1
      then (if o_timed opts then -1 else if o_sequential opts then int (length (coll cfg)) else 1)
      else if o_starts opts = 0 then -1 else max (o_starts opts) (o_keep_active opts))"
proof -
  obtain dir where "setup_tables opts e = Ok (coll cfg, running p, starts p, dir)"
    using assms by (auto simp: pan_setup_def Let_def split: option.splits if_splits)
  from setup_tables_starts [OF this] show ?thesis by (simp add: default_starts_def max_def)
qed

end
