(* ===== verification/Pan_Sched.thy ===== *)
theory Pan_Sched
  imports Pan_Setup
begin

text \<open>
  The second half of \<^verbatim>\<open>main\<close> in \<^verbatim>\<open>pan/ltp-pan.c\<close>: the scheduler loop, the wait for orphans
  and the final exit.

  The scheduler is a step relation over a program counter and the driver's state. A step is
  one round of the inner loop that starts tests, the rest of one round of the outer loop
  (up to and including one \<^verbatim>\<open>wait\<close>), one round of the wait for orphans, the final part, or
  the delivery of a signal to the handler, which may happen between any two steps.
\<close>

section \<open>The scheduler\<close>

text \<open>The condition of the inner loop, with the break at the head of its body.\<close>

definition fill_guard :: "pan \<Rightarrow> bool" where
  "fill_guard p \<longleftrightarrow> num_active p < int (length (running p)) \<and> starts p \<noteq> 0 \<and>
     stop p = 0 \<and> rec_signal p = 0 \<and> go_idle p = 0"

text \<open>
  One round of the inner loop; \<open>rnd\<close> is what \<^verbatim>\<open>lrand48\<close> returns. The value says whether the
  loop goes on, and with it comes the index of the command and the pid (-1 if none).
\<close>

definition fill_step :: "pan_cfg \<Rightarrow> nat \<Rightarrow> child_env \<Rightarrow> pan \<Rightarrow> (bool \<times> int \<times> pan) outcome" where
  "fill_step cfg rnd e p =
     (let cnt = length (coll cfg);
          c = (if sequential cfg then cidx p else rnd mod cnt);
          p0 = p\<lparr>cidx := c\<rparr>
      in case find_slot 0 (running p0) of
           None \<Rightarrow> Ok (False, -1, (wait_handler SIGINT p0)\<lparr>exit_stat := exit_stat p0 + 1\<rparr>)
         | Some i \<Rightarrow>
             if cnt \<le> c then Fault
             else bind_outcome (run_child cfg e (coll cfg ! c) i p0) (\<lambda>(cpid, p1).
               let p2 = (if cpid \<noteq> -1 then p1\<lparr>num_active := num_active p1 + 1\<rparr> else p1);
                   p3 = (if (cpid \<noteq> -1 \<or> sequential cfg) \<and> starts p2 > 0
                         then p2\<lparr>starts := starts p2 - 1\<rparr> else p2);
                   p4 = (if sequential cfg
                         then p3\<lparr>cidx := (if cidx p3 + 1 \<ge> cnt then 0 else cidx p3 + 1)\<rparr> else p3)
               in Ok (True, cpid, p4)))"

text \<open>
  The rest of one round of the outer loop: whether \<^verbatim>\<open>PAN_STOP_FILE\<close> exists, the answers of
  \<^verbatim>\<open>kill\<close> for a propagated signal, and the \<^verbatim>\<open>wait\<close>.
\<close>

record post_env =
  pe_stop_file :: bool
  pe_kill :: "int \<Rightarrow> int \<Rightarrow> int"
  pe_wait :: wait_env

definition stop_step :: "pan_cfg \<Rightarrow> bool \<Rightarrow> pan \<Rightarrow> pan" where
  "stop_step cfg stop_file p =
     (if starts p = 0 then
        (if quiet_mode cfg then p else printf (''incrementing stop'' @ [newline]) p)\<lparr>stop := stop p + 1\<rparr>
      else if starts p = -1 \<and> stop_file then
        (printf (''Got PAN_STOP_FILE Stopping!'' @ [newline]) p)\<lparr>stop := stop p + 1\<rparr>
      else p)"

definition idle_or_stop :: "pan \<Rightarrow> pan" where
  "idle_or_stop p =
     (if fork_in_road p then p\<lparr>go_idle := go_idle p + 1\<rparr> else p\<lparr>stop := stop p + 1\<rparr>)"

definition signal_step :: "(int \<Rightarrow> int \<Rightarrow> int) \<Rightarrow> pan \<Rightarrow> pan" where
  "signal_step killf p =
     (if rec_signal p = 0 then p
      else if rec_signal p = SIGUSR2 then (idle_or_stop p)\<lparr>rec_signal := 0, send_signal := 0\<rparr>
      else idle_or_stop (propagate_signal killf
             (if rec_signal p = SIGUSR1 then p\<lparr>fork_in_road := False\<rparr> else p)))"

definition error_step :: "pan_cfg \<Rightarrow> int \<Rightarrow> pan \<Rightarrow> pan" where
  "error_step cfg err p =
     (if err = 0 then p
      else
        (let p1 = (if fork_in_road p then p\<lparr>go_idle := go_idle p + 1\<rparr> else p);
             p2 = (if track_exit_stats cfg then p1\<lparr>exit_stat := exit_stat p1 + 1\<rparr> else p1)
         in if has_brakes cfg then wait_handler SIGINT p2 else p2))"

text \<open>The value says whether the outer loop is left.\<close>

definition post_step :: "pan_cfg \<Rightarrow> post_env \<Rightarrow> pan \<Rightarrow> (bool \<times> int \<times> pan) outcome" where
  "post_step cfg e p =
     (let p1 = stop_step cfg (pe_stop_file e) p;
          p2 = signal_step (pe_kill e) p1
      in bind_outcome (check_pids cfg (pe_wait e) p2) (\<lambda>(err, p3).
           let p4 = error_step cfg err p3
           in if stop p4 \<noteq> 0 \<and> num_active p4 = 0 then Ok (True, err, p4)
              else if go_idle p4 \<noteq> 0 \<and> num_active p4 = 0
              then Ok (False, err, wait_handler 0 (p4\<lparr>go_idle := 0\<rparr>))
              else Ok (False, err, p4)))"

text \<open>One round of the wait for orphans; \<open>None\<close> when there are none left.\<close>

definition drain_step :: "(int \<Rightarrow> int \<Rightarrow> int) \<Rightarrow> pan \<Rightarrow> pan option" where
  "drain_step killf p =
     (if list_all (\<lambda>g. g = 0) (orphans p) then None
      else Some (propagate_signal killf (if rec_signal p = 0 then wait_handler SIGINT p else p)))"

text \<open>The final part; \<^verbatim>\<open>uts\<close> are release, machine and node name.\<close>

definition log_footer :: "nat \<Rightarrow> int \<Rightarrow> int \<Rightarrow> cstr \<times> cstr \<times> cstr \<Rightarrow> cstr" where
  "log_footer cnt tconf fails uts = (case uts of (rel, mach, node) \<Rightarrow>
     [newline] @ ''-----------------------------------------------'' @ [newline]
     @ ''Total Tests: '' @ dec_int (int cnt) @ [newline]
     @ ''Total Skipped Tests: '' @ dec_int tconf @ [newline]
     @ ''Total Failures: '' @ dec_int fails @ [newline]
     @ ''Kernel Version: '' @ rel @ [newline] @ ''Machine Architecture: '' @ mach @ [newline]
     @ ''Hostname: '' @ node @ [newline, newline])"

definition epilogue :: "pan_cfg \<Rightarrow> cstr \<times> cstr \<times> cstr \<Rightarrow> pan \<Rightarrow> pan" where
  "epilogue cfg uts p =
     (case zoo_clear (zoofile p) (mypid cfg) of (r, z) \<Rightarrow>
        let z1 = z\<lparr>zopen := False, zlock := False\<rparr>;
            p1 = (if r \<noteq> 0 then p\<lparr>zoofile := z1, exit_stat := exit_stat p + 1\<rparr> else p\<lparr>zoofile := z1\<rparr>)
        in if logfile p1 \<noteq> NoLog \<and> fmt_print cfg
           then log_write (log_footer (length (coll cfg)) (tconfcnt p1) (failcnt p1) uts) p1 else p1)"

text \<open>The status a caller of pan sees: \<^verbatim>\<open>exit\<close> keeps the low eight bits.\<close>

definition exit_code :: "pan \<Rightarrow> int" where
  "exit_code p = exit_stat p mod 256"

datatype pc = Fill | Await | Drain | Finished

datatype label = Launch nat int | Reap int int | Caught int | Quiet

definition caught_signals :: "int set" where
  "caught_signals = {SIGALRM, SIGINT, SIGTERM, SIGHUP, SIGUSR1, SIGUSR2}"

inductive sched_step :: "pan_cfg \<Rightarrow> pc \<times> pan \<Rightarrow> label \<Rightarrow> pc \<times> pan \<Rightarrow> bool" for cfg where
  fill: "fill_guard p \<Longrightarrow> fork_ok e p \<Longrightarrow> fill_step cfg rnd e p = Ok (True, cpid, q) \<Longrightarrow>
    c = (if sequential cfg then cidx p else rnd mod length (coll cfg)) \<Longrightarrow>
    sched_step cfg (Fill, p) (Launch c cpid) (Fill, q)"
| fill_abort: "fill_guard p \<Longrightarrow> fill_step cfg rnd e p = Ok (False, cpid, q) \<Longrightarrow>
    sched_step cfg (Fill, p) Quiet (Await, q)"
| fill_done: "\<not> fill_guard p \<Longrightarrow> sched_step cfg (Fill, p) Quiet (Await, p)"
| collect: "wait_ok (pe_wait e) p \<Longrightarrow> post_step cfg e p = Ok (False, err, q) \<Longrightarrow>
    sched_step cfg (Await, p) (Reap (we_cpid (pe_wait e)) err) (Fill, q)"
| leave: "wait_ok (pe_wait e) p \<Longrightarrow> post_step cfg e p = Ok (True, err, q) \<Longrightarrow>
    sched_step cfg (Await, p) (Reap (we_cpid (pe_wait e)) err) (Drain, q)"
| drain: "drain_step killf p = Some q \<Longrightarrow> sched_step cfg (Drain, p) Quiet (Drain, q)"
| finish: "drain_step killf p = None \<Longrightarrow> q = epilogue cfg uts p \<Longrightarrow>
    sched_step cfg (Drain, p) Quiet (Finished, q)"
| signal: "sig \<in> caught_signals \<Longrightarrow> at \<noteq> Finished \<Longrightarrow>
    sched_step cfg (at, p) (Caught sig) (at, wait_handler sig p)"

inductive_cases sched_stepE: "sched_step cfg s l s'"

inductive sched_run :: "pan_cfg \<Rightarrow> pc \<times> pan \<Rightarrow> label list \<Rightarrow> pc \<times> pan \<Rightarrow> bool" for cfg s where
  start: "sched_run cfg s [] s"
| later: "sched_run cfg s ls s' \<Longrightarrow> sched_step cfg s' l s'' \<Longrightarrow> sched_run cfg s (ls @ [l]) s''"

section \<open>The invariant along a run\<close>

lemma pan_inv_updates [simp]:
  "pan_inv cfg base (p\<lparr>cidx := c\<rparr>) = pan_inv cfg base p"
  "pan_inv cfg base (p\<lparr>starts := s\<rparr>) = pan_inv cfg base p"
  "pan_inv cfg base (p\<lparr>stop := s\<rparr>) = pan_inv cfg base p"
  "pan_inv cfg base (p\<lparr>go_idle := s\<rparr>) = pan_inv cfg base p"
  "pan_inv cfg base (p\<lparr>fork_in_road := f\<rparr>) = pan_inv cfg base p"
  "pan_inv cfg base (p\<lparr>exit_stat := s\<rparr>) = pan_inv cfg base p"
  "pan_inv cfg base (p\<lparr>rec_signal := s\<rparr>) = pan_inv cfg base p"
  "pan_inv cfg base (p\<lparr>send_signal := s\<rparr>) = pan_inv cfg base p"
  "pan_inv cfg base (printf t p) = pan_inv cfg base p"
  by (simp_all add: pan_inv_def slots_inv_def printf_def)

lemma slots_inv_updates:
  "slots_inv cfg base (p\<lparr>num_active := k\<rparr>) = slots_inv cfg base p"
  "slots_inv cfg base (p\<lparr>starts := s\<rparr>) = slots_inv cfg base p"
  "slots_inv cfg base (p\<lparr>cidx := c\<rparr>) = slots_inv cfg base p"
  by (simp_all add: slots_inv_def)

lemma stop_step_fields [simp]:
  "running (stop_step cfg f p) = running p" "pan_inv cfg' base (stop_step cfg f p) = pan_inv cfg' base p"
  "num_active (stop_step cfg f p) = num_active p" "cidx (stop_step cfg f p) = cidx p"
  "starts (stop_step cfg f p) = starts p" "rec_signal (stop_step cfg f p) = rec_signal p"
  "go_idle (stop_step cfg f p) = go_idle p" "fork_in_road (stop_step cfg f p) = fork_in_road p"
  "exit_stat (stop_step cfg f p) = exit_stat p" "orphans (stop_step cfg f p) = orphans p" "send_signal (stop_step cfg f p) = send_signal p"
  by (simp_all add: stop_step_def printf_def) (simp_all add: pan_inv_def slots_inv_def)

lemma idle_or_stop_fields [simp]:
  "running (idle_or_stop p) = running p" "pan_inv cfg base (idle_or_stop p) = pan_inv cfg base p"
  "num_active (idle_or_stop p) = num_active p" "cidx (idle_or_stop p) = cidx p"
  "starts (idle_or_stop p) = starts p" "exit_stat (idle_or_stop p) = exit_stat p"
  by (simp_all add: idle_or_stop_def)

lemma signal_step_inv: "pan_inv cfg base p \<Longrightarrow> pan_inv cfg base (signal_step k p)"
  by (simp add: signal_step_def propagate_signal_inv)

lemma signal_step_fields [simp]:
  "groups (running (signal_step k p)) = groups (running p)"
  "length (running (signal_step k p)) = length (running p)" "cidx (signal_step k p) = cidx p"
  "starts (signal_step k p) = starts p" "exit_stat (signal_step k p) = exit_stat p"
  by (simp_all add: signal_step_def)

lemma error_step_fields [simp]:
  "running (error_step cfg err p) = running p" "pan_inv cfg' base (error_step cfg err p) = pan_inv cfg' base p"
  "num_active (error_step cfg err p) = num_active p" "cidx (error_step cfg err p) = cidx p"
  "orphans (error_step cfg err p) = orphans p"
  "starts (error_step cfg err p) = starts p" "stop (error_step cfg err p) = stop p"
  "exit_stat (error_step cfg err p) = exit_stat p + (if err \<noteq> 0 \<and> track_exit_stats cfg then 1 else 0)"
  "fork_in_road (error_step cfg err p) = fork_in_road p"
  "go_idle (error_step cfg err p) = go_idle p + (if err \<noteq> 0 \<and> fork_in_road p then 1 else 0)"
  "\<not> has_brakes cfg \<Longrightarrow> rec_signal (error_step cfg err p) = rec_signal p"
  by (simp_all add: error_step_def Let_def)

text \<open>A call of \<^verbatim>\<open>check_pids\<close> that returns read a non-empty output.\<close>

lemma check_pids_Ok_output:
  assumes "check_pids cfg e p = Ok (err, q)" "pan_inv cfg base p" "wait_ok e p" "0 < we_cpid e"
  shows "output_ok cfg e"
proof (rule ccontr)
  assume bad: "\<not> output_ok cfg e"
  have "we_cpid e \<in># groups (running p)" using assms(3,4) by (auto simp: wait_ok_def)
  then obtain i where i: "find_slot (we_cpid e) (running p) = Some i"
    using find_slot_None [of "we_cpid e" "running p"] by (auto simp: in_groups)
  then have "slot_ok cfg (running p ! i)" using assms(2) find_slot_Some [OF i] nth_mem
    by (fastforce simp: pan_inv_def slots_inv_def)
  then obtain c where "cmd (running p ! i) = Some c"
    using find_slot_Some [OF i] assms(4) by (auto simp: slot_ok_def)
  with check_pids_slot [OF assms(4) i, of cfg] bad assms(1) show False
    by (auto simp: reap_slot_empty)
qed

text \<open>Fields that \<^verbatim>\<open>check_pids\<close> leaves alone.\<close>

definition sched_vars :: "pan \<Rightarrow> int \<times> nat \<times> int \<times> int \<times> bool \<times> int \<times> int" where
  "sched_vars p = (starts p, cidx p, stop p, go_idle p, fork_in_road p, exit_stat p, rec_signal p)"

lemma sched_vars_core: "core q = core p \<Longrightarrow> sched_vars q = sched_vars p"
  by (cases p; cases q; simp add: core_def sched_vars_def)

lemma sched_vars_release: "release_slot e c i p = Ok q \<Longrightarrow> sched_vars q = sched_vars p"
  by (auto simp: release_slot_def Let_def set_slot_def sched_vars_def split: prod.splits if_splits)

lemma sched_vars_reap: "reap_slot cfg e status w ret s i p = Ok (err, q) \<Longrightarrow> sched_vars q = sched_vars p"
proof -
  assume *: "reap_slot cfg e status w ret s i p = Ok (err, q)"
  then obtain c where "cmd (running p ! i) = Some c" by (auto simp: reap_slot_def Let_def split: option.splits)
  with * obtain st w1 p1 where p1: "report_reap cfg e (running p ! i) st w1
      (record_cmd c w1 (log_reap cfg e (running p ! i) c status w1 p)) = Ok p1"
    and q: "release_slot e c i p1 = Ok q"
    by (auto simp: reap_slot_def Let_def)
  have "core p1 = core p" using core_report_reap [OF p1] by simp
  then show ?thesis using sched_vars_core sched_vars_release [OF q] by metis
qed

lemma sched_vars_check_pids:
  assumes "check_pids cfg e p = Ok (err, q)"
  shows "sched_vars q = sched_vars p"
proof -
  have *: "sched_vars (check_orphans k s p) = sched_vars p" for k s by (simp add: sched_vars_def)
  have **: "sched_vars (p\<lparr>num_active := n\<rparr>) = sched_vars p" for n p by (simp add: sched_vars_def)
  consider "we_cpid e \<le> 0" | "0 < we_cpid e" "find_slot (we_cpid e) (running p) = None"
    | i where "0 < we_cpid e" "find_slot (we_cpid e) (running p) = Some i"
    by (meson not_le_imp_less option.exhaust)
  then show ?thesis
  proof cases
    case 1
    with assms * show ?thesis by (auto simp: check_pids_wait_fails)
  next
    case 2
    with check_pids_no_slot [OF 2, of cfg] assms * ** show ?thesis by auto
  next
    case 3
    from check_pids_slot [OF 3, of cfg] obtain k status w ret where
      "check_pids cfg e p = reap_slot cfg e status w ret (WIFSIGNALED (we_status e)) i
         ((check_orphans (we_okill e) 0 p)\<lparr>num_active := k\<rparr>)" by blast
    with assms sched_vars_reap have
      "sched_vars q = sched_vars ((check_orphans (we_okill e) 0 p)\<lparr>num_active := k\<rparr>)" by metis
    then show ?thesis using * ** by simp
  qed
qed

lemma sched_vars_run_child_rest:
  assumes "run_child_rest cfg e c i p = Ok (cpid, q)"
  shows "sched_vars q = sched_vars p"
proof -
  have *: "sched_vars (set_slot i f p) = sched_vars p" for f p by (simp add: sched_vars_def set_slot_def)
  from assms show ?thesis
  proof (cases rule: run_child_rest_cases)
    case idle
    show ?thesis by (rule sched_vars_core [OF idle(2)])
  next
    case failed
    then show ?thesis using sched_vars_core [OF failed(2)] * by simp
  next
    case (started p3 r z)
    then show ?thesis using sched_vars_core [OF started(1)] * by (simp add: sched_vars_def set_slot_def)
  qed
qed

lemma sched_vars_run_child:
  assumes "run_child cfg e c i p = Ok (cpid, q)"
  shows "sched_vars q = sched_vars p"
proof (cases "test_out_dir cfg")
  case None
  with assms show ?thesis by (simp add: run_child_def sched_vars_run_child_rest)
next
  case (Some dir)
  with assms show ?thesis
    by (auto simp: run_child_def Let_def split: prod.splits if_splits
        dest!: sched_vars_run_child_rest) (auto simp: sched_vars_def set_slot_def)
qed

text \<open>One round of the inner loop.\<close>

lemma fill_step_inv:
  assumes "fill_step cfg rnd e p = Ok (b, cpid, q)" "fill_guard p" "fork_ok e p"
    and "pan_inv cfg base p" "coll_ok cfg" "coll cfg \<noteq> []" "cidx p < length (coll cfg)"
  shows "b \<and> pan_inv cfg base q \<and> length (running q) = length (running p) \<and> cidx q < length (coll cfg)"
proof -
  let ?c = "if sequential cfg then cidx p else rnd mod length (coll cfg)"
  let ?p0 = "p\<lparr>cidx := ?c\<rparr>"
  have c: "?c < length (coll cfg)" using assms(6,7) by simp
  have "size (groups (running p)) < length (running p)"
    using assms(2,4) by (auto simp: fill_guard_def pan_inv_def)
  then obtain i where i: "find_slot 0 (running p) = Some i" using free_slot_exists by blast
  obtain p1 where p1: "run_child cfg e (coll cfg ! ?c) i ?p0 = Ok (cpid, p1)" and b: b
    and q: "q = (let p2 = (if cpid \<noteq> -1 then p1\<lparr>num_active := num_active p1 + 1\<rparr> else p1);
                   p3 = (if (cpid \<noteq> -1 \<or> sequential cfg) \<and> starts p2 > 0
                         then p2\<lparr>starts := starts p2 - 1\<rparr> else p2)
               in if sequential cfg
                  then p3\<lparr>cidx := (if cidx p3 + 1 \<ge> length (coll cfg) then 0 else cidx p3 + 1)\<rparr> else p3)"
    using assms(1) i c by (auto simp: fill_step_def Let_def)
  have "slots_inv cfg base ?p0" "fork_ok e ?p0"
    using assms(3,4) by (simp_all add: pan_inv_def slots_inv_def fork_ok_def)
  from run_child_inv [OF p1 this(1) assms(5) _ _ _ this(2)] find_slot_Some [OF i] c
  have r: "slots_inv cfg base p1" "length (running p1) = length (running p)" "num_active p1 = num_active p"
    "if cpid = -1 then groups (running p1) = groups (running p)
     else groups (running p1) = add_mset cpid (groups (running p))"
    by (auto split: if_splits)
  have "cidx p1 = ?c" using sched_vars_run_child [OF p1] by (simp add: sched_vars_def)
  with r b c assms(4,6) show ?thesis
    unfolding q Let_def by (auto simp: pan_inv_def slots_inv_updates)
qed

text \<open>The rest of one round of the outer loop.\<close>

lemma post_step_inv:
  assumes "post_step cfg e p = Ok (b, err, q)" "wait_ok (pe_wait e) p"
    and "pan_inv cfg base p" "coll_ok cfg"
  shows "pan_inv cfg base q \<and> length (running q) = length (running p) \<and> cidx q = cidx p \<and>
    (b \<longrightarrow> num_active q = 0)"
proof -
  let ?p2 = "signal_step (pe_kill e) (stop_step cfg (pe_stop_file e) p)"
  have p2: "pan_inv cfg base ?p2" "wait_ok (pe_wait e) ?p2"
    using assms(2,3) by (simp_all add: signal_step_inv wait_ok_def)
  obtain p3 where p3: "check_pids cfg (pe_wait e) ?p2 = Ok (err, p3)"
    and q: "q = error_step cfg err p3 \<or> q = wait_handler 0 ((error_step cfg err p3)\<lparr>go_idle := 0\<rparr>)"
    and b: "b \<longrightarrow> num_active q = 0"
    using assms(1) by (auto simp: post_step_def Let_def split: if_splits)
  have "pan_inv cfg base p3 \<and> length (running p3) = length (running p)"
  proof (cases "0 < we_cpid (pe_wait e)")
    case True
    with check_pids_reaps [OF p2(1) assms(4) check_pids_Ok_output [OF p3 p2] p2(2)] p3 show ?thesis by auto
  next
    case False
    then show ?thesis using p3 check_orphans_inv(1) [OF p2(1)] by (auto simp: check_pids_wait_fails)
  qed
  moreover have "cidx p3 = cidx p" using sched_vars_check_pids [OF p3] by (simp add: sched_vars_def)
  ultimately show ?thesis using q b by auto
qed

text \<open>
  What holds at each point of \<^verbatim>\<open>main\<close>: the driver's invariant throughout, no active test from
  the wait for orphans on, and at the end neither tests nor orphans and pan's own zoo entry gone.
\<close>

definition sched_inv :: "pan_cfg \<Rightarrow> int multiset \<Rightarrow> nat \<Rightarrow> pc \<times> pan \<Rightarrow> bool" where
  "sched_inv cfg base n s = (case s of (at, p) \<Rightarrow> length (running p) = n \<and>
     (if at = Finished
      then groups (running p) = {#} \<and> orphan_groups (orphans p) = {#} \<and>
           zoo_pids (zoofile p) = base - {#mypid cfg#}
      else pan_inv cfg base p \<and> cidx p < length (coll cfg) \<and> (at = Drain \<longrightarrow> num_active p = 0)))"

lemma orphan_groups_none: "list_all (\<lambda>g. g = 0) os \<longleftrightarrow> orphan_groups os = {#}"
  by (induction os) auto

lemma epilogue_zoo:
  assumes "pan_inv cfg base p" "num_active p = 0" "orphan_groups (orphans p) = {#}" "q = epilogue cfg uts p"
  shows "groups (running q) = {#}" "orphan_groups (orphans q) = {#}"
    "zoo_pids (zoofile q) = base - {#mypid cfg#}" "length (running q) = length (running p)"
    "exit_stat q = exit_stat p + (if mypid cfg \<in># base then 0 else 1)"
proof -
  let ?z = "zoofile p"
  have g: "groups (running p) = {#}" using assms(1,2) by (simp add: pan_inv_def)
  have z: "zoo_ready ?z" "zoo_pids ?z = base" using assms(1,3) g by (simp_all add: pan_inv_def slots_inv_def)
  obtain r z' where c: "zoo_clear ?z (mypid cfg) = (r, z')" by fastforce
  have z': "zoo_pids z' = base - {#mypid cfg#}" "r = (if mypid cfg \<in># base then 0 else 1)"
    using zr.clear_cases [OF z(1), of "mypid cfg"] c z(2) by auto
  define p1 where "p1 = (let z1 = z'\<lparr>zopen := False, zlock := False\<rparr>
    in if r \<noteq> 0 then p\<lparr>zoofile := z1, exit_stat := exit_stat p + 1\<rparr> else p\<lparr>zoofile := z1\<rparr>)"
  have core: "core q = core p1" unfolding assms(4) epilogue_def c p1_def by (simp add: Let_def)
  show "groups (running q) = {#}" "orphan_groups (orphans q) = {#}" "length (running q) = length (running p)"
    "zoo_pids (zoofile q) = base - {#mypid cfg#}"
    "exit_stat q = exit_stat p + (if mypid cfg \<in># base then 0 else 1)"
    unfolding core_fields [OF core] using g assms(3) z' by (auto simp: p1_def Let_def zoo_pids_def)
qed

lemma sched_step_inv:
  assumes "sched_step cfg s l s'" "sched_inv cfg base n s" "coll_ok cfg" "coll cfg \<noteq> []"
  shows "sched_inv cfg base n s'"
  using assms(1)
proof cases
  case (fill p e rnd cpid q c)
  with assms fill_step_inv [OF fill(6,4,5), of base] show ?thesis by (simp add: sched_inv_def)
next
  case (fill_abort p rnd e cpid q)
  then show ?thesis using assms free_slot_exists [of "running p"]
    by (auto simp: sched_inv_def fill_guard_def pan_inv_def fill_step_def Let_def split: if_splits)
next
  case (fill_done p)
  with assms(2) show ?thesis by (simp add: sched_inv_def)
next
  case (collect e p err q)
  with assms post_step_inv [OF collect(5,4), of base] show ?thesis by (simp add: sched_inv_def)
next
  case (leave e p err q)
  with assms post_step_inv [OF leave(5,4), of base] show ?thesis by (simp add: sched_inv_def)
next
  case (drain killf p q)
  then obtain p1 where "q = propagate_signal killf p1" "pan_inv cfg base p1" "running p1 = running p"
      "cidx p1 = cidx p" "num_active p1 = num_active p"
    using assms(2) by (auto simp: drain_step_def sched_inv_def split: if_splits)
  with drain assms(2) show ?thesis by (simp add: sched_inv_def propagate_signal_inv)
next
  case (finish killf p q uts)
  then have "orphan_groups (orphans p) = {#}" "pan_inv cfg base p" "num_active p = 0" "length (running p) = n"
    using assms(2) by (auto simp: sched_inv_def drain_step_def orphan_groups_none split: if_splits)
  with epilogue_zoo [OF this(2,3,1) finish(5)] finish show ?thesis by (simp add: sched_inv_def)
next
  case (signal sig at p)
  with assms(2) show ?thesis by (auto simp: sched_inv_def)
qed

lemma sched_run_inv:
  assumes "sched_run cfg s ls s'" "sched_inv cfg base n s" "coll_ok cfg" "coll cfg \<noteq> []"
  shows "sched_inv cfg base n s'"
  using assms by (induction rule: sched_run.induct) (auto dest: sched_step_inv)

section \<open>What a run does in total\<close>

fun launches :: "label list \<Rightarrow> nat list" where
  "launches [] = []"
| "launches (Launch c cpid # ls) = c # launches ls"
| "launches (_ # ls) = launches ls"

fun is_error :: "label \<Rightarrow> bool" where
  "is_error (Reap cpid err) = (err \<noteq> 0)"
| "is_error _ = False"

lemma launches_append [simp]: "launches (ls @ ms) = launches ls @ launches ms"
  by (induction ls rule: launches.induct) auto

lemma propagate_sched_vars:
  "sched_vars (propagate_signal k p) = (starts p, cidx p, stop p, go_idle p, fork_in_road p, exit_stat p, 0)"
  by (simp add: sched_vars_def)

lemma fill_step_vars:
  assumes "fill_step cfg rnd e p = Ok (True, cpid, q)"
  shows "sched_vars q =
    (if (cpid \<noteq> -1 \<or> sequential cfg) \<and> 0 < starts p then starts p - 1 else starts p,
     if sequential cfg then (if cidx p + 1 \<ge> length (coll cfg) then 0 else cidx p + 1)
     else rnd mod length (coll cfg),
     stop p, go_idle p, fork_in_road p, exit_stat p, rec_signal p)"
proof -
  let ?c = "if sequential cfg then cidx p else rnd mod length (coll cfg)"
  let ?p0 = "p\<lparr>cidx := ?c\<rparr>"
  obtain i where i: "find_slot 0 (running p) = Some i"
    using assms by (auto simp: fill_step_def Let_def split: option.splits)
  then obtain p1 where p1: "run_child cfg e (coll cfg ! ?c) i ?p0 = Ok (cpid, p1)"
    and q: "q = (let p2 = (if cpid \<noteq> -1 then p1\<lparr>num_active := num_active p1 + 1\<rparr> else p1);
                   p3 = (if (cpid \<noteq> -1 \<or> sequential cfg) \<and> starts p2 > 0
                         then p2\<lparr>starts := starts p2 - 1\<rparr> else p2)
               in if sequential cfg
                  then p3\<lparr>cidx := (if cidx p3 + 1 \<ge> length (coll cfg) then 0 else cidx p3 + 1)\<rparr> else p3)"
    using assms by (auto simp: fill_step_def Let_def split: if_splits)
  have "sched_vars p1 = sched_vars ?p0" by (rule sched_vars_run_child [OF p1])
  then show ?thesis unfolding q Let_def by (auto simp: sched_vars_def)
qed

lemma post_step_vars:
  assumes "post_step cfg e p = Ok (b, err, q)"
  shows "starts q = starts p" "cidx q = cidx p"
    "exit_stat q = exit_stat p + (if err \<noteq> 0 \<and> track_exit_stats cfg then 1 else 0)"
    "b \<Longrightarrow> stop q \<noteq> 0"
    "rec_signal p = 0 \<Longrightarrow> \<not> has_brakes cfg \<Longrightarrow> rec_signal q = 0"
    "rec_signal p = 0 \<Longrightarrow> \<not> fork_in_road p \<Longrightarrow> go_idle p = 0 \<Longrightarrow> go_idle q = 0 \<and> \<not> fork_in_road q"
    "rec_signal p = 0 \<Longrightarrow> stop q = stop (stop_step cfg (pe_stop_file e) p)"
proof -
  let ?p2 = "signal_step (pe_kill e) (stop_step cfg (pe_stop_file e) p)"
  obtain p3 where p3: "check_pids cfg (pe_wait e) ?p2 = Ok (err, p3)"
    and q: "q = error_step cfg err p3 \<or> q = wait_handler 0 ((error_step cfg err p3)\<lparr>go_idle := 0\<rparr>)"
    and b: "b \<Longrightarrow> stop q \<noteq> 0"
    using assms by (auto simp: post_step_def Let_def split: if_splits)
  have v: "sched_vars p3 = sched_vars ?p2" by (rule sched_vars_check_pids [OF p3])
  show "starts q = starts p" "cidx q = cidx p"
    "exit_stat q = exit_stat p + (if err \<noteq> 0 \<and> track_exit_stats cfg then 1 else 0)"
    using q v by (auto simp: sched_vars_def)
  show "b \<Longrightarrow> stop q \<noteq> 0" by (rule b)
  show "stop q = stop (stop_step cfg (pe_stop_file e) p)" if "rec_signal p = 0"
    using q v that by (auto simp: sched_vars_def signal_step_def)
  show "rec_signal q = 0" if "rec_signal p = 0" "\<not> has_brakes cfg"
    using q v that by (auto simp: sched_vars_def signal_step_def wait_handler_def)
  show "go_idle q = 0 \<and> \<not> fork_in_road q" if "rec_signal p = 0" "\<not> fork_in_road p" "go_idle p = 0"
    using q v that by (auto simp: sched_vars_def signal_step_def wait_handler_def)
qed

lemma epilogue_vars: "starts (epilogue cfg uts p) = starts p" "cidx (epilogue cfg uts p) = cidx p"
proof -
  obtain r z where c: "zoo_clear (zoofile p) (mypid cfg) = (r, z)" by fastforce
  define p1 where "p1 = (let z1 = z\<lparr>zopen := False, zlock := False\<rparr>
    in if r \<noteq> 0 then p\<lparr>zoofile := z1, exit_stat := exit_stat p + 1\<rparr> else p\<lparr>zoofile := z1\<rparr>)"
  have core: "core (epilogue cfg uts p) = core p1" unfolding epilogue_def c p1_def by (simp add: Let_def)
  show "starts (epilogue cfg uts p) = starts p" "cidx (epilogue cfg uts p) = cidx p"
    unfolding core_fields [OF core] by (simp_all add: p1_def Let_def)
qed

text \<open>The abort branch of the inner loop is never taken.\<close>

lemma no_fill_abort:
  assumes "sched_inv cfg base n (Fill, p)" "fill_guard p"
  shows "fill_step cfg rnd e p \<noteq> Ok (False, cpid, q)"
proof
  assume "fill_step cfg rnd e p = Ok (False, cpid, q)"
  moreover have "\<exists>i. find_slot 0 (running p) = Some i"
    using assms by (intro free_slot_exists) (auto simp: sched_inv_def fill_guard_def pan_inv_def)
  ultimately show False by (auto simp: fill_step_def Let_def split: if_splits)
qed

text \<open>Counting errors.\<close>

lemma sched_step_exit_stat:
  assumes "sched_step cfg (at, p) l (at', q)" "sched_inv cfg base n (at, p)" "mypid cfg \<in># base"
  shows "exit_stat q = exit_stat p + (if is_error l \<and> track_exit_stats cfg then 1 else 0)"
  using assms(1)
proof cases
  case (fill e rnd cpid c)
  then show ?thesis using fill_step_vars [OF fill(6)] by (simp add: sched_vars_def)
next
  case (fill_abort rnd e cpid)
  then show ?thesis using no_fill_abort assms(2) by blast
next
  case (collect e err)
  then show ?thesis by (simp add: post_step_vars(3) [OF collect(5)])
next
  case (leave e err)
  then show ?thesis by (simp add: post_step_vars(3) [OF leave(5)])
next
  case (finish killf uts)
  then have "orphan_groups (orphans p) = {#}" "pan_inv cfg base p" "num_active p = 0"
    using assms(2) by (auto simp: sched_inv_def drain_step_def orphan_groups_none split: if_splits)
  with epilogue_zoo(5) [OF this(2,3,1) finish(5)] assms(3) finish show ?thesis by simp
qed (auto simp: drain_step_def split: if_splits)

lemma sched_run_exit_stat:
  assumes "sched_run cfg s ls s'" "sched_inv cfg base n s" "coll_ok cfg" "coll cfg \<noteq> []" "mypid cfg \<in># base"
  shows "exit_stat (snd s') = exit_stat (snd s) +
    (if track_exit_stats cfg then int (length (filter is_error ls)) else 0)"
  using assms
proof (induction rule: sched_run.induct)
  case start
  then show ?case by simp
next
  case (later ls s' l s'')
  have "sched_inv cfg base n s'" using sched_run_inv [OF later(1)] later.prems by blast
  with sched_step_exit_stat [of cfg "fst s'" "snd s'" l "fst s''" "snd s''"] later show ?case by simp
qed

text \<open>The order of the launches in sequential mode, and when a run without signals ends.\<close>

definition seq_inv :: "nat \<Rightarrow> nat \<Rightarrow> int \<Rightarrow> label list \<Rightarrow> pan \<Rightarrow> bool" where
  "seq_inv cnt c0 k ls p \<longleftrightarrow>
     launches ls = map (\<lambda>j. (c0 + j) mod cnt) [0..<length (launches ls)] \<and>
     cidx p = (c0 + length (launches ls)) mod cnt \<and>
     starts p = k - int (length (launches ls)) \<and> 0 \<le> starts p"

lemma next_index: "c < cnt \<Longrightarrow> (if c + 1 \<ge> cnt then 0 else c + 1) = Suc c mod cnt"
  by (auto simp: not_less_eq_eq le_antisym mod_Suc)

lemma sched_step_seq:
  assumes "sched_step cfg (at, p) l (at', q)" "sched_inv cfg base n (at, p)" "sequential cfg"
    and "seq_inv (length (coll cfg)) c0 k ls p"
  shows "seq_inv (length (coll cfg)) c0 k (ls @ [l]) q"
  using assms(1)
proof cases
  case (fill e rnd cpid c)
  let ?cnt = "length (coll cfg)" and ?m = "length (launches ls)"
  have c: "cidx p < ?cnt" using fill assms(2) by (simp add: sched_inv_def)
  have st: "0 < starts p" using fill assms(4) by (auto simp: fill_guard_def seq_inv_def)
  have "starts q = starts p - 1" "cidx q = Suc (cidx p) mod ?cnt"
    using fill_step_vars [OF fill(6)] assms(3) st next_index [OF c] by (simp_all add: sched_vars_def)
  moreover have "launches (ls @ [l]) = launches ls @ [(c0 + ?m) mod ?cnt]"
    using fill assms(3,4) by (simp add: seq_inv_def)
  ultimately show ?thesis using assms(4) st by (simp add: seq_inv_def mod_Suc_eq)
next
  case (fill_abort rnd e cpid)
  then show ?thesis using no_fill_abort assms(2) by blast
next
  case (collect e err)
  then show ?thesis using post_step_vars(1,2) [OF collect(5)] assms(4) by (simp add: seq_inv_def)
next
  case (leave e err)
  then show ?thesis using post_step_vars(1,2) [OF leave(5)] assms(4) by (simp add: seq_inv_def)
next
  case (finish killf uts)
  then show ?thesis using epilogue_vars [of cfg uts p] assms(4) by (simp add: seq_inv_def)
qed (use assms(4) in \<open>auto simp: drain_step_def seq_inv_def split: if_splits\<close>)

definition calm :: "pc \<times> pan \<Rightarrow> bool" where
  "calm s = (case s of (at, p) \<Rightarrow>
     if at = Fill \<or> at = Await
     then rec_signal p = 0 \<and> go_idle p = 0 \<and> \<not> fork_in_road p \<and> (stop p \<noteq> 0 \<longrightarrow> starts p = 0)
     else starts p = 0)"

lemma sched_step_calm:
  assumes "sched_step cfg (at, p) l (at', q)" "sched_inv cfg base n (at, p)" "\<not> has_brakes cfg"
    and "\<nexists>sig. l = Caught sig" "calm (at, p)" "0 \<le> starts p"
  shows "calm (at', q)"
  using assms(1)
proof cases
  case (fill e rnd cpid c)
  have "sched_vars q = (starts q, cidx q, stop p, go_idle p, fork_in_road p, exit_stat p, rec_signal p)"
    using fill_step_vars [OF fill(6)] by (simp add: sched_vars_def)
  moreover have "stop p = 0" using fill by (simp add: fill_guard_def)
  ultimately show ?thesis using fill assms(5) by (simp add: calm_def sched_vars_def)
next
  case (fill_abort rnd e cpid)
  then show ?thesis using no_fill_abort assms(2) by blast
next
  case fill_done
  then show ?thesis using assms(5) by (simp add: calm_def)
next
  case (collect e err)
  have "stop (stop_step cfg (pe_stop_file e) p) \<noteq> 0 \<longrightarrow> starts p = 0"
    using collect assms(5,6) by (auto simp: stop_step_def printf_def calm_def)
  then show ?thesis
    using post_step_vars [OF collect(5)] collect assms(3,5) by (simp add: calm_def)
next
  case (leave e err)
  have "stop (stop_step cfg (pe_stop_file e) p) \<noteq> 0 \<longrightarrow> starts p = 0"
    using leave assms(5,6) by (auto simp: stop_step_def printf_def calm_def)
  then show ?thesis
    using post_step_vars [OF leave(5)] leave assms(5) by (simp add: calm_def)
next
  case (finish killf uts)
  then show ?thesis using epilogue_vars [of cfg uts p] assms(5) by (simp add: calm_def)
qed (use assms(4,5) in \<open>auto simp: drain_step_def calm_def split: if_splits\<close>)

lemma sched_run_seq:
  assumes "sched_run cfg s ls s'" "sched_inv cfg base n s" "coll_ok cfg" "coll cfg \<noteq> []" "sequential cfg"
    and "0 \<le> starts (snd s)" "cidx (snd s) = 0"
  shows "seq_inv (length (coll cfg)) 0 (starts (snd s)) ls (snd s') \<and>
    (\<not> has_brakes cfg \<and> calm s \<and> (\<forall>sig. Caught sig \<notin> set ls) \<longrightarrow> calm s')"
  using assms
proof (induction rule: sched_run.induct)
  case start
  then show ?case by (simp add: seq_inv_def)
next
  case (later ls s' l s'')
  have i: "sched_inv cfg base n s'" using sched_run_inv [OF later(1)] later.prems by blast
  obtain at p at' q where s: "s' = (at, p)" "s'' = (at', q)" by fastforce
  have seq: "seq_inv (length (coll cfg)) 0 (starts (snd s)) ls p" using later s by simp
  then have "0 \<le> starts p" by (simp add: seq_inv_def)
  with sched_step_seq [OF _ _ later.prems(4) seq, of at l at' q base n]
    sched_step_calm [of cfg at p l at' q base n] later s i show ?case by auto
qed

text \<open>The wait for orphans as a loop over the answers of \<^verbatim>\<open>kill\<close> in its rounds.\<close>

fun drain_loop :: "(int \<Rightarrow> int \<Rightarrow> int) list \<Rightarrow> pan \<Rightarrow> pan" where
  "drain_loop [] p = p"
| "drain_loop (k # ks) p = (case drain_step k p of None \<Rightarrow> p | Some q \<Rightarrow> drain_loop ks q)"

lemma drain_loop_rounds:
  assumes "rec_signal p = 0"
  shows "list_all (\<lambda>g. g = 0) (orphans (drain_loop ks p)) \<or>
    drain_loop ks p = fold (signal_round SIGINT) ks p"
  using assms
proof (induction ks arbitrary: p)
  case Nil
  then show ?case by simp
next
  case (Cons k ks)
  have "rec_signal (signal_round SIGINT k p) = 0" by (simp add: signal_round_def)
  with Cons show ?case by (auto simp: drain_step_def signal_round_def)
qed

lemma signal_round_inv: "pan_inv cfg base p \<Longrightarrow> pan_inv cfg base (signal_round s k p)"
  by (simp add: signal_round_def propagate_signal_inv)

lemma signal_round_gone:
  assumes "pan_inv cfg base p" "\<And>g s. k g s = ESRCH"
  shows "list_all (\<lambda>g. g = 0) (orphans (signal_round s k p))"
proof -
  let ?q = "wait_handler s p"
  have "zoo_ready (zoofile ?q)"
    "zoo_pids (zoofile ?q) = (base + groups (running p)) + orphan_groups (orphans ?q)"
    using assms(1) by (simp_all add: pan_inv_def slots_inv_def)
  from propagate_signal_zoo(3) [OF this, of k] assms(2) show ?thesis
    by (simp add: signal_round_def orphan_groups_none)
qed

section \<open>A concrete run\<close>

lemma demo_fill:
  "\<exists>q. fill_step demo_cfg 0 demo_child (idle_pan demo_zoo) = Ok (True, 500, q) \<and> groups (running q) = {#500#} \<and>
     pan_inv demo_cfg {#42#} q \<and> orphans q = [0] \<and> sched_vars q = (0, 0, 0, 0, False, 0, 0)"
proof -
  let ?p = "idle_pan demo_zoo" and ?b = "{#42#} :: int multiset"
  have p: "?p\<lparr>cidx := 0\<rparr> = ?p" "find_slot 0 (running ?p) = Some 0" "starts ?p = 1" "num_active ?p = 0"
    "running ?p \<noteq> []" "pgrp (running ?p ! 0) = 0" "groups (running ?p) = {#}" "orphans ?p = [0]"
    by (simp_all add: idle_pan_def numeral_2_eq_2)
  have c: "coll demo_cfg = [demo_entry]" "sequential demo_cfg" "cidx ?p = 0"
    by (simp_all add: demo_cfg_def idle_pan_def)
  have "fst (zoo_mark_cmdline z (ce_fork demo_child) (name demo_entry) (cmdline demo_entry)) = 0"
    if "zoo_ready z" for z
    using zr.mark_adds [OF that, of 500] demo_coll_ok c by (simp add: demo_child_def coll_ok_def)
  moreover have "zoo_ready (zoofile ?p)" by (simp add: idle_pan_def demo_zoo_ready)
  ultimately obtain p1 where p1: "run_child demo_cfg demo_child demo_entry 0 ?p = Ok (500, p1)"
    using run_child_value [of demo_cfg demo_entry demo_child ?p 0] demo_child_starts p(5)
    by (auto simp: demo_cfg_def demo_entry_def demo_child_def)
  have "slots_inv demo_cfg ?b ?p" using demo_idle_inv by (simp add: pan_inv_def)
  from run_child_inv [OF p1 this demo_coll_ok] p c
  have r: "slots_inv demo_cfg ?b p1" "num_active p1 = 0" "groups (running p1) = {#500#}" "orphans p1 = [0]"
    by (simp_all add: fork_ok_def demo_child_def)
  have v: "sched_vars p1 = sched_vars ?p" by (rule sched_vars_run_child [OF p1])
  let ?q = "p1\<lparr>num_active := 1, starts := 0, cidx := 0\<rparr>"
  have "fill_step demo_cfg 0 demo_child ?p = Ok (True, 500, ?q)"
    using p p1 c r(2) v by (simp add: fill_step_def Let_def sched_vars_def idle_pan_def)
  moreover have "pan_inv demo_cfg ?b ?q" using r by (simp add: pan_inv_def slots_inv_updates)
  moreover have "sched_vars ?q = (0, 0, 0, 0, False, 0, 0)" using v by (simp add: sched_vars_def idle_pan_def)
  ultimately show ?thesis using r(3,4) by (intro exI [of _ ?q]) simp
qed

definition demo_post :: post_env where
  "demo_post = \<lparr>pe_stop_file = False, pe_kill = (\<lambda>_ _. 0), pe_wait = demo_wait\<rparr>"

lemma demo_run:
  "\<exists>p. sched_run demo_cfg (Fill, idle_pan demo_zoo) [Launch 0 500, Quiet, Reap 500 1, Quiet] (Finished, p)"
proof -
  let ?b = "{#42#} :: int multiset"
  obtain q where q: "fill_step demo_cfg 0 demo_child (idle_pan demo_zoo) = Ok (True, 500, q)"
    "groups (running q) = {#500#}" "pan_inv demo_cfg ?b q" "sched_vars q = (0, 0, 0, 0, False, 0, 0)"
    "orphans q = [0]"
    using demo_fill by blast
  have g: "\<not> fill_guard q" using q(4) by (simp add: fill_guard_def sched_vars_def)
  let ?q1 = "signal_step (\<lambda>_ _. 0) (stop_step demo_cfg False q)"
  have v: "stop ?q1 = 1" "orphans ?q1 = [0]" using q(4,5) by (simp_all add: sched_vars_def stop_step_def signal_step_def printf_def)
  have q1: "pan_inv demo_cfg ?b ?q1" "wait_ok demo_wait ?q1" "0 < we_cpid demo_wait" "output_ok demo_cfg demo_wait"
    using q(2,3) by (simp_all add: signal_step_inv wait_ok_def demo_wait_def wait_defs output_ok_def demo_cfg_def)
  have err: "reap_errors b (we_status demo_wait) = 1" for b
    by (simp add: reap_errors_def demo_wait_def wait_defs TCONF_def)
  obtain r where r: "check_pids demo_cfg demo_wait ?q1 = Ok (1, r)" "pan_inv demo_cfg ?b r"
    "groups (running r) = {#}" "orphan_groups (orphans r) = {#}"
    using check_pids_reaps [OF q1(1) demo_coll_ok q1(4,2,3)] err q(2) v(2)
    by (auto simp: demo_wait_def survives_def errno_defs)
  have "stop r = 1" "num_active r = 0" using sched_vars_check_pids [OF r(1)] v r(2,3)
    by (simp_all add: sched_vars_def pan_inv_def)
  then have post: "post_step demo_cfg demo_post q = Ok (True, 1, error_step demo_cfg 1 r)"
    using r(1) by (simp add: post_step_def demo_post_def)
  have "drain_step (\<lambda>_ _. 0) (error_step demo_cfg 1 r) = None"
    using r(4) by (simp add: drain_step_def orphan_groups_none)
  note steps = sched_step.fill [OF _ _ q(1)] sched_step.fill_done [OF g]
    sched_step.leave [OF _ post] sched_step.finish [OF this refl]
  have guard: "fill_guard (idle_pan demo_zoo)" "fork_ok demo_child (idle_pan demo_zoo)"
    by (simp_all add: fill_guard_def idle_pan_def fork_ok_def demo_child_def numeral_2_eq_2)
  have idx: "(0::nat) = (if sequential demo_cfg then cidx (idle_pan demo_zoo) else 0 mod length (coll demo_cfg))"
    by (simp add: demo_cfg_def idle_pan_def)
  have w: "wait_ok (pe_wait demo_post) q" "we_cpid (pe_wait demo_post) = 500"
    using q(2) by (simp_all add: wait_ok_def demo_post_def demo_wait_def wait_defs)
  have "sched_run demo_cfg (Fill, idle_pan demo_zoo) (((([] @ [Launch 0 500]) @ [Quiet]) @ [Reap 500 1]) @ [Quiet])
      (Finished, epilogue demo_cfg ([], [], []) (error_step demo_cfg 1 r))"
    using steps(1) [OF guard idx] steps(2) steps(3) [OF w(1)] steps(4) unfolding w(2)
    by (metis sched_run.start sched_run.later)
  then show ?thesis by auto
qed

section \<open>Properties\<close>

text \<open>
  C1: the invariant of the scheduler. Along every run, with signals arriving at any point and
  tests ending in any order, the number of active tests is the number of occupied slots and at
  most the number of slots, no two slots hold the same process group, every occupied slot knows
  its command, and the zoo records exactly the earlier entries, the running tests and the orphans.
\<close>

theorem sched_invariant:
  assumes "pan_inv cfg base p0" "coll_ok cfg" "coll cfg \<noteq> []" "cidx p0 < length (coll cfg)"
    and "sched_run cfg (Fill, p0) ls (at, p)" "at \<noteq> Finished"
  shows "pan_inv cfg base p \<and> length (running p) = length (running p0) \<and>
    num_active p = int (length (filter (\<lambda>r. pgrp r \<noteq> 0) (running p))) \<and>
    num_active p \<le> int (length (running p0))"
proof -
  have "sched_inv cfg base (length (running p0)) (at, p)"
    using assms by (intro sched_run_inv [OF assms(5)]) (auto simp: sched_inv_def)
  then have i: "pan_inv cfg base p" "length (running p) = length (running p0)"
    using assms(6) by (auto simp: sched_inv_def)
  then have "num_active p = int (length (filter (\<lambda>r. pgrp r \<noteq> 0) (running p)))"
    by (simp add: pan_inv_def size_groups)
  with i show ?thesis by (metis length_filter_le of_nat_le_iff)
qed

theorem sched_invariant_witness:
  "\<exists>q. sched_run demo_cfg (Fill, idle_pan demo_zoo) [Launch 0 500] (Fill, q) \<and>
     pan_inv demo_cfg {#42#} q \<and> num_active q = 1"
proof -
  obtain q where q: "fill_step demo_cfg 0 demo_child (idle_pan demo_zoo) = Ok (True, 500, q)"
    "groups (running q) = {#500#}" using demo_fill by blast
  have "fill_guard (idle_pan demo_zoo)" "fork_ok demo_child (idle_pan demo_zoo)"
    by (simp_all add: fill_guard_def idle_pan_def fork_ok_def demo_child_def numeral_2_eq_2)
  from sched_step.fill [OF this q(1), of 0]
  have "sched_step demo_cfg (Fill, idle_pan demo_zoo) (Launch 0 500) (Fill, q)"
    by (simp add: demo_cfg_def idle_pan_def)
  then have run: "sched_run demo_cfg (Fill, idle_pan demo_zoo) [Launch 0 500] (Fill, q)"
    using sched_run.later [OF sched_run.start] by fastforce
  have "coll demo_cfg \<noteq> []" "cidx (idle_pan demo_zoo) < length (coll demo_cfg)"
    by (simp_all add: demo_cfg_def idle_pan_def)
  from sched_invariant [OF demo_idle_inv demo_coll_ok this run] q(2) run show ?thesis
    by (auto simp: pan_inv_def)
qed

text \<open>
  The error exit of the slot search is dead code. Whenever the inner loop runs, it finds a
  free slot, so \<^verbatim>\<open>pan: Aborting: i == keep_active\<close> is never reached.
\<close>

lemma sched_slot_found:
  assumes "pan_inv cfg base p0" "coll_ok cfg" "coll cfg \<noteq> []" "cidx p0 < length (coll cfg)"
    and "sched_run cfg (Fill, p0) ls (Fill, p)" "fill_guard p"
  shows "\<exists>i < length (running p). find_slot 0 (running p) = Some i \<and> pgrp (running p ! i) = 0"
proof -
  have "sched_inv cfg base (length (running p0)) (Fill, p)"
    using assms by (intro sched_run_inv [OF assms(5)]) (auto simp: sched_inv_def)
  then have "size (groups (running p)) < length (running p)"
    using assms(6) by (auto simp: sched_inv_def fill_guard_def pan_inv_def)
  then obtain i where "find_slot 0 (running p) = Some i" using free_slot_exists by blast
  with find_slot_Some [OF this] show ?thesis by blast
qed

text \<open>
  C2: a clean end. When pan comes to its end, whatever signals it received, no test and no
  orphaned group is left, and the zoo records exactly what it did before pan marked itself:
  all entries of its tests, its orphans and its own are gone.
\<close>

theorem sched_ends_clean:
  assumes "pan_inv cfg (add_mset (mypid cfg) others) p0" "coll_ok cfg" "coll cfg \<noteq> []"
    and "cidx p0 < length (coll cfg)" "sched_run cfg (Fill, p0) ls (Finished, p)"
  shows "(\<forall>r \<in> set (running p). pgrp r = 0) \<and> (\<forall>g \<in> set (orphans p). g = 0) \<and>
    zoo_pids (zoofile p) = others"
proof -
  have "sched_inv cfg (add_mset (mypid cfg) others) (length (running p0)) (Finished, p)"
    using assms by (intro sched_run_inv [OF assms(5)]) (auto simp: sched_inv_def)
  then have i: "groups (running p) = {#}" "orphan_groups (orphans p) = {#}" "zoo_pids (zoofile p) = others"
    by (auto simp: sched_inv_def)
  have "pgrp r = 0" if "r \<in> set (running p)" for r
    using i(1) that in_groups [of "pgrp r" "running p"] by auto
  moreover have "\<forall>g \<in> set (orphans p). g = 0"
    using i(2) by (simp add: orphan_groups_none [symmetric] list_all_iff)
  ultimately show ?thesis using i(3) by blast
qed

theorem sched_ends_clean_witness:
  "\<exists>p. sched_run demo_cfg (Fill, idle_pan demo_zoo) [Launch 0 500, Quiet, Reap 500 1, Quiet] (Finished, p) \<and>
     zoo_pids (zoofile p) = {#}"
proof -
  obtain p where run: "sched_run demo_cfg (Fill, idle_pan demo_zoo) [Launch 0 500, Quiet, Reap 500 1, Quiet]
    (Finished, p)" using demo_run by blast
  have "pan_inv demo_cfg (add_mset (mypid demo_cfg) {#}) (idle_pan demo_zoo)" "coll demo_cfg \<noteq> []"
    "cidx (idle_pan demo_zoo) < length (coll demo_cfg)"
    using demo_idle_inv by (simp_all add: demo_cfg_def idle_pan_def)
  from sched_ends_clean [OF this(1) demo_coll_ok this(2,3) run] run show ?thesis by blast
qed

text \<open>
  C3: sequential mode. A run that has ended, and during which no signal arrived, has launched
  exactly the requested number of commands, in the order of the collection and starting over
  at its end: with as many starts as commands, each command exactly once.
\<close>

theorem sequential_runs_all:
  assumes "pan_inv cfg base p0" "coll_ok cfg" "coll cfg \<noteq> []" "cidx p0 = 0" "sequential cfg"
    and "\<not> has_brakes cfg" "\<not> fork_in_road p0" "rec_signal p0 = 0" "stop p0 = 0" "go_idle p0 = 0"
    and "0 \<le> starts p0" "sched_run cfg (Fill, p0) ls (Finished, p)" "\<forall>sig. Caught sig \<notin> set ls"
  shows "launches ls = map (\<lambda>j. j mod length (coll cfg)) [0..<nat (starts p0)]"
proof -
  let ?n = "length (launches ls)"
  have "sched_inv cfg base (length (running p0)) (Fill, p0)" "calm (Fill, p0)"
    using assms by (simp_all add: sched_inv_def calm_def)
  with sched_run_seq [OF assms(12) _ assms(2,3,5)] assms
  have s: "seq_inv (length (coll cfg)) 0 (starts p0) ls p" "calm (Finished, p)" by auto
  then have "int ?n = starts p0" by (simp add: seq_inv_def calm_def)
  then have "?n = nat (starts p0)" by simp
  with s(1) show ?thesis by (simp add: seq_inv_def)
qed

theorem sequential_runs_all_witness:
  "launches [Launch 0 500, Quiet, Reap 500 1, Quiet] = map (\<lambda>j. j mod 1) [0..<1]"
proof -
  obtain p where run: "sched_run demo_cfg (Fill, idle_pan demo_zoo) [Launch 0 500, Quiet, Reap 500 1, Quiet]
    (Finished, p)" using demo_run by blast
  have *: "coll demo_cfg \<noteq> []" "length (coll demo_cfg) = 1" "starts (idle_pan demo_zoo) = 1"
    by (simp_all add: demo_cfg_def idle_pan_def)
  have "launches [Launch 0 500, Quiet, Reap 500 1, Quiet] =
      map (\<lambda>j. j mod length (coll demo_cfg)) [0..<nat (starts (idle_pan demo_zoo))]"
    by (rule sequential_runs_all [OF demo_idle_inv demo_coll_ok *(1) _ _ _ _ _ _ _ _ run])
      (simp_all add: demo_cfg_def idle_pan_def)
  then show ?thesis using * by simp
qed

text \<open>
  The exit status. With exit tracking on, the value pan gives to \<^verbatim>\<open>exit\<close> is the number of
  reaped tests that counted as errors; a caller sees it modulo 256, so 256 failures look like
  success.
\<close>

lemma exit_status_counts:
  assumes "pan_inv cfg (add_mset (mypid cfg) others) p0" "coll_ok cfg" "coll cfg \<noteq> []"
    and "cidx p0 < length (coll cfg)" "exit_stat p0 = 0" "sched_run cfg (Fill, p0) ls (Finished, p)"
  shows "exit_stat p = (if track_exit_stats cfg then int (length (filter is_error ls)) else 0) \<and>
    exit_code p = exit_stat p mod 256"
proof -
  have "sched_inv cfg (add_mset (mypid cfg) others) (length (running p0)) (Fill, p0)"
    using assms by (simp add: sched_inv_def)
  from sched_run_exit_stat [OF assms(6) this assms(2,3)] assms(5) show ?thesis
    by (simp add: exit_code_def)
qed



text \<open>
  Outside sequential mode a command that cannot be started makes no progress: after a round
  of the inner loop whose child did not start, the loop condition holds again with the same
  number of starts left, so the loop goes on for as long as starting fails.
\<close>

lemma unstartable_repeats:
  assumes "fill_guard p" "\<not> sequential cfg" "fill_step cfg rnd e p = Ok (True, -1, q)"
    and "pan_inv cfg base p" "coll_ok cfg" "coll cfg \<noteq> []" "cidx p < length (coll cfg)" "fork_ok e p"
  shows "fill_guard q \<and> starts q = starts p"
proof -
  let ?p0 = "p\<lparr>cidx := rnd mod length (coll cfg)\<rparr>"
  have v: "sched_vars q = (starts p, rnd mod length (coll cfg), stop p, go_idle p, fork_in_road p, exit_stat p, rec_signal p)"
    using fill_step_vars [OF assms(3)] assms(2) by simp
  obtain i where i: "find_slot 0 (running p) = Some i"
    using assms(3) by (auto simp: fill_step_def Let_def split: option.splits)
  then have r: "run_child cfg e (coll cfg ! (rnd mod length (coll cfg))) i ?p0 = Ok (-1, q)"
    using assms(2,3) by (auto simp: fill_step_def Let_def split: if_splits)
  have "slots_inv cfg base ?p0" "fork_ok e ?p0"
    using assms(4,8) by (simp_all add: pan_inv_def slots_inv_def fork_ok_def)
  from run_child_inv [OF r this(1) assms(5) _ _ _ this(2)] find_slot_Some [OF i] assms(6)
  have "num_active q = num_active p" "length (running q) = length (running p)" by auto
  with v assms(1) show ?thesis by (simp add: fill_guard_def sched_vars_def)
qed

lemma demo_unstartable:
  "\<exists>q. fill_step (demo_cfg\<lparr>sequential := False\<rparr>) 0 (demo_child\<lparr>ce_pipe := 24\<rparr>) (idle_pan demo_zoo) = Ok (True, -1, q)"
proof -
  let ?e = "demo_child\<lparr>ce_pipe := 24\<rparr>" and ?cfg = "demo_cfg\<lparr>sequential := False\<rparr>"
  have "\<not> child_starts ?cfg ?e demo_entry" by (simp add: child_starts_def)
  moreover have "zoo_ready (zoofile (idle_pan demo_zoo))" by (simp add: idle_pan_def demo_zoo_ready)
  moreover have "fst (zoo_mark_cmdline z (ce_fork ?e) (name demo_entry) (cmdline demo_entry)) = 0"
    if "zoo_ready z" for z
    using zr.mark_adds [OF that, of 500] demo_coll_ok by (simp add: demo_child_def coll_ok_def demo_cfg_def)
  ultimately have "\<exists>q. run_child ?cfg ?e demo_entry 0 (idle_pan demo_zoo) = Ok (-1, q)"
    using run_child_value [of ?cfg demo_entry ?e "idle_pan demo_zoo" 0]
    by (simp add: demo_cfg_def demo_entry_def demo_child_def idle_pan_def)
  moreover have "(idle_pan demo_zoo)\<lparr>cidx := 0\<rparr> = idle_pan demo_zoo" "find_slot 0 (running (idle_pan demo_zoo)) = Some 0"
    by (simp_all add: idle_pan_def numeral_2_eq_2)
  ultimately show ?thesis by (auto simp: fill_step_def demo_cfg_def Let_def)
qed

end
