(* ===== verification/Name_Tables.thy ===== *)
theory Name_Tables
  imports LTP_Prelude
begin

text \<open>
  The name tables of the test library: \<^verbatim>\<open>strttype\<close> in \<^verbatim>\<open>lib/tst_res.c\<close>, \<^verbatim>\<open>tst_strerrno\<close>
  in \<^verbatim>\<open>lib/errnos.h\<close> and \<^verbatim>\<open>tst_strsig\<close> in \<^verbatim>\<open>lib/signame.h\<close>. A table is the list of its
  designated initialisers with the numbers of Linux on x86-64; the entries under
  \<^verbatim>\<open>#ifdef\<close> are those this platform defines.
\<close>

section \<open>Definitions\<close>

text \<open>
  \<^verbatim>\<open>PAIR_LOOKUP\<close>: the array has one element more than the largest index, elements with no
  initialiser have a NULL name, and the last of several initialisers of an element counts.
\<close>

type_synonym pair_table = "(nat \<times> cstr) list"

definition pair_arr :: "pair_table \<Rightarrow> cstr option list" where
  "pair_arr ps = fold (\<lambda>(k, n) arr. arr[k := Some n]) ps (replicate (Suc (Max (set (map fst ps)))) None)"

definition pair_lookup :: "pair_table \<Rightarrow> int \<Rightarrow> cstr" where
  "pair_lookup ps idx =
     (if idx < 0 \<or> nat idx \<ge> length (pair_arr ps) then ''???''
      else case pair_arr ps ! nat idx of None \<Rightarrow> ''???'' | Some n \<Rightarrow> n)"

definition ttype_pairs :: pair_table where
  "ttype_pairs = [(0, ''TPASS''), (1, ''TFAIL''), (2, ''TBROK''), (32, ''TCONF''), (4, ''TWARN''), (16, ''TINFO'')]"

definition errno_pairs :: pair_table where
  "errno_pairs = [
    (0, ''SUCCESS''), (1, ''EPERM''), (2, ''ENOENT''), (3, ''ESRCH''), (4, ''EINTR''), (5, ''EIO''),
    (6, ''ENXIO''), (7, ''E2BIG''), (8, ''ENOEXEC''), (9, ''EBADF''), (10, ''ECHILD''),
    (11, ''EAGAIN/EWOULDBLOCK''), (12, ''ENOMEM''), (13, ''EACCES''), (14, ''EFAULT''),
    (15, ''ENOTBLK''), (16, ''EBUSY''), (17, ''EEXIST''), (18, ''EXDEV''), (19, ''ENODEV''),
    (20, ''ENOTDIR''), (21, ''EISDIR''), (22, ''EINVAL''), (23, ''ENFILE''), (24, ''EMFILE''),
    (25, ''ENOTTY''), (26, ''ETXTBSY''), (27, ''EFBIG''), (28, ''ENOSPC''), (29, ''ESPIPE''),
    (30, ''EROFS''), (31, ''EMLINK''), (32, ''EPIPE''), (33, ''EDOM''), (34, ''ERANGE''),
    (35, ''EDEADLK''), (36, ''ENAMETOOLONG''), (37, ''ENOLCK''), (38, ''ENOSYS''),
    (39, ''ENOTEMPTY''), (40, ''ELOOP''), (42, ''ENOMSG''), (43, ''EIDRM''), (44, ''ECHRNG''),
    (45, ''EL2NSYNC''), (46, ''EL3HLT''), (47, ''EL3RST''), (48, ''ELNRNG''), (49, ''EUNATCH''),
    (50, ''ENOCSI''), (51, ''EL2HLT''), (52, ''EBADE''), (53, ''EBADR''), (54, ''EXFULL''),
    (55, ''ENOANO''), (56, ''EBADRQC''), (57, ''EBADSLT''), (59, ''EBFONT''), (60, ''ENOSTR''),
    (61, ''ENODATA''), (62, ''ETIME''), (63, ''ENOSR''), (64, ''ENONET''), (65, ''ENOPKG''),
    (66, ''EREMOTE''), (67, ''ENOLINK''), (68, ''EADV''), (69, ''ESRMNT''), (70, ''ECOMM''),
    (71, ''EPROTO''), (72, ''EMULTIHOP''), (73, ''EDOTDOT''), (74, ''EBADMSG''),
    (75, ''EOVERFLOW''), (76, ''ENOTUNIQ''), (77, ''EBADFD''), (78, ''EREMCHG''), (79, ''ELIBACC''),
    (80, ''ELIBBAD''), (81, ''ELIBSCN''), (82, ''ELIBMAX''), (83, ''ELIBEXEC''), (84, ''EILSEQ''),
    (85, ''ERESTART''), (86, ''ESTRPIPE''), (87, ''EUSERS''), (88, ''ENOTSOCK''),
    (89, ''EDESTADDRREQ''), (90, ''EMSGSIZE''), (91, ''EPROTOTYPE''), (92, ''ENOPROTOOPT''),
    (93, ''EPROTONOSUPPORT''), (94, ''ESOCKTNOSUPPORT''), (95, ''EOPNOTSUPP''),
    (96, ''EPFNOSUPPORT''), (97, ''EAFNOSUPPORT''), (98, ''EADDRINUSE''), (99, ''EADDRNOTAVAIL''),
    (100, ''ENETDOWN''), (101, ''ENETUNREACH''), (102, ''ENETRESET''), (103, ''ECONNABORTED''),
    (104, ''ECONNRESET''), (105, ''ENOBUFS''), (106, ''EISCONN''), (107, ''ENOTCONN''),
    (108, ''ESHUTDOWN''), (109, ''ETOOMANYREFS''), (110, ''ETIMEDOUT''), (111, ''ECONNREFUSED''),
    (112, ''EHOSTDOWN''), (113, ''EHOSTUNREACH''), (114, ''EALREADY''), (115, ''EINPROGRESS''),
    (116, ''ESTALE''), (117, ''EUCLEAN''), (118, ''ENOTNAM''), (119, ''ENAVAIL''),
    (120, ''EISNAM''), (121, ''EREMOTEIO''), (122, ''EDQUOT''), (123, ''ENOMEDIUM''),
    (124, ''EMEDIUMTYPE''), (125, ''ECANCELED''), (126, ''ENOKEY''), (127, ''EKEYEXPIRED''),
    (128, ''EKEYREVOKED''), (129, ''EKEYREJECTED''), (130, ''EOWNERDEAD''),
    (131, ''ENOTRECOVERABLE''), (132, ''ERFKILL''), (133, ''EHWPOISON'')]"

definition signal_pairs :: pair_table where
  "signal_pairs = [
    (1, ''SIGHUP''), (2, ''SIGINT''), (3, ''SIGQUIT''), (4, ''SIGILL''), (5, ''SIGTRAP''),
    (6, ''SIGIOT/SIGABRT''), (7, ''SIGBUS''), (8, ''SIGFPE''), (9, ''SIGKILL''), (10, ''SIGUSR1''),
    (11, ''SIGSEGV''), (12, ''SIGUSR2''), (13, ''SIGPIPE''), (14, ''SIGALRM''), (15, ''SIGTERM''),
    (16, ''SIGSTKFLT''), (17, ''SIGCHLD/SIGCLD''), (18, ''SIGCONT''), (19, ''SIGSTOP''),
    (20, ''SIGTSTP''), (21, ''SIGTTIN''), (22, ''SIGTTOU''), (23, ''SIGURG''), (24, ''SIGXCPU''),
    (25, ''SIGXFSZ''), (26, ''SIGVTALRM''), (27, ''SIGPROF''), (28, ''SIGWINCH''),
    (29, ''SIGIO/SIGPOLL''), (30, ''SIGPWR''), (31, ''SIGSYS/SIGUNUSED'')]"

text \<open>\<^verbatim>\<open>TTYPE_RESULT\<close>: the low six bits of a result type.\<close>

definition TTYPE_RESULT :: "int \<Rightarrow> int" where
  "TTYPE_RESULT ttype = ttype mod 64"

definition strttype :: "int \<Rightarrow> cstr" where
  "strttype ttype = pair_lookup ttype_pairs (TTYPE_RESULT ttype)"

definition tst_strerrno :: "int \<Rightarrow> cstr" where
  "tst_strerrno err = pair_lookup errno_pairs err"

definition tst_strsig :: "int \<Rightarrow> cstr" where
  "tst_strsig sig = pair_lookup signal_pairs sig"

section \<open>Lookup\<close>

lemma length_fold_update [simp]:
  "length (fold (\<lambda>(k, n) arr. arr[k := Some n]) ps arr) = length arr"
  by (induction ps arbitrary: arr) auto

lemma fold_update_nth:
  assumes "\<forall>p \<in> set ps. fst p < length arr" "i < length arr" "distinct (map fst ps)"
  shows "fold (\<lambda>(k, n) arr. arr[k := Some n]) ps arr ! i =
    (case map_of ps i of None \<Rightarrow> arr ! i | Some n \<Rightarrow> Some n)"
  using assms
proof (induction ps arbitrary: arr)
  case Nil
  then show ?case by simp
next
  case (Cons p ps)
  obtain k n where p: "p = (k, n)" by fastforce
  have "map_of ps k = None" using Cons.prems(3) p by (auto simp: map_of_eq_None_iff)
  with Cons p show ?case by (auto split: option.split)
qed

text \<open>With distinct indices the lookup is the table read as a map.\<close>

lemma pair_lookup_map:
  assumes "distinct (map fst ps)" "ps \<noteq> []"
  shows "pair_lookup ps idx =
    (if idx < 0 then ''???'' else case map_of ps (nat idx) of None \<Rightarrow> ''???'' | Some n \<Rightarrow> n)"
proof -
  let ?n = "Suc (Max (set (map fst ps)))"
  have len: "length (pair_arr ps) = ?n" by (simp add: pair_arr_def)
  have le: "k < ?n" if "(k, n) \<in> set ps" for k n
  proof -
    have "k \<in> set (map fst ps)" using that by force
    then have "k \<le> Max (set (map fst ps))" by (intro Max_ge) simp_all
    then show ?thesis by simp
  qed
  show ?thesis
  proof (cases "idx < 0 \<or> nat idx \<ge> ?n")
    case True
    moreover have "map_of ps (nat idx) = None" if "nat idx \<ge> ?n"
      using that le map_of_SomeD by (metis not_less option.exhaust)
    ultimately show ?thesis using len by (auto simp: pair_lookup_def)
  next
    case False
    then have "pair_arr ps ! nat idx = (case map_of ps (nat idx) of None \<Rightarrow> None | Some n \<Rightarrow> Some n)"
      unfolding pair_arr_def using le assms(1) by (subst fold_update_nth) (auto simp del: replicate_Suc split: option.split)
    with False len show ?thesis by (auto simp: pair_lookup_def split: option.split)
  qed
qed

lemma ttype_pairs_distinct: "distinct (map fst ttype_pairs)" "ttype_pairs \<noteq> []"
  by (simp_all add: ttype_pairs_def)

lemma errno_pairs_distinct: "distinct (map fst errno_pairs)" "errno_pairs \<noteq> []"
  by (simp_all add: errno_pairs_def)

lemma signal_pairs_distinct: "distinct (map fst signal_pairs)" "signal_pairs \<noteq> []"
  by (simp_all add: signal_pairs_def)

lemma errno_names_distinct: "distinct (map snd errno_pairs)"
  by (simp add: errno_pairs_def)

lemma map_of_inj_names:
  assumes "distinct (map snd ps)" "map_of ps i = Some n" "map_of ps j = Some n"
  shows "i = j"
  using assms by (metis distinct_map inj_onD map_of_SomeD prod.inject snd_conv)

section \<open>Properties\<close>

text \<open>
  The name of an errno value. \<^verbatim>\<open>tst_strerrno\<close> reads inside its array for every argument:
  it returns the listed name for a listed number and \<^verbatim>\<open>???\<close> for any other, negative and
  too large ones included; and no two listed numbers have the same name.
\<close>

lemma strerrno_names:
  "tst_strerrno err =
     (if err < 0 then ''???'' else case map_of errno_pairs (nat err) of None \<Rightarrow> ''???'' | Some n \<Rightarrow> n) \<and>
   (\<forall>i j n. map_of errno_pairs i = Some n \<and> map_of errno_pairs j = Some n \<longrightarrow> i = j)"
  unfolding tst_strerrno_def pair_lookup_map [OF errno_pairs_distinct]
  using map_of_inj_names [OF errno_names_distinct] by blast

end
