(* ===== verification/Tst_Res.thy ===== *)
theory Tst_Res
  imports Name_Tables
begin

unbundle bit_operations_syntax

text \<open>
  \<^verbatim>\<open>lib/tst_res.c\<close>: how a test reports its results. The state holds the static variables of
  the file and what was printed; a call ends in one of three ways, and the state at that moment
  is part of the result. The message arguments are the expanded texts; \<^verbatim>\<open>errno\<close> and the two
  globals \<^verbatim>\<open>TEST_ERRNO\<close> and \<^verbatim>\<open>TEST_RETURN\<close> are part of the environment of a call. The
  recursive mutex around the calls and the delegation of \<^verbatim>\<open>tst_resm\<close> and \<^verbatim>\<open>tst_brkm\<close> to
  \<^verbatim>\<open>lib/tst_test.c\<close> in tests of the new library are not part of the model.
\<close>

datatype tmode = VERBOSE | NOPASS | DISCARD

record tst_env =
  TCID :: cstr
  TOUTPUT :: "cstr option"
  t_errno :: int
  TEST_ERRNO :: int
  TEST_RETURN :: int
  t_strerror :: "int \<Rightarrow> cstr"

record tst_state =
  T_exitval :: int
  T_mode :: tmode
  first_time :: bool
  Buffered :: bool
  Last_tcid :: cstr
  Last_num :: int
  Last_type :: int
  Last_mesg :: cstr
  tst_count :: int
  tst_brk_entered :: int
  tout :: cstr

datatype tst_result = Running tst_state | Exited int tst_state | Aborted tst_state

fun and_then :: "tst_result \<Rightarrow> (tst_state \<Rightarrow> tst_result) \<Rightarrow> tst_result" where
  "and_then (Running s) f = f s"
| "and_then (Exited c s) f = Exited c s"
| "and_then (Aborted s) f = Aborted s"

lemma and_then_Running: "and_then r f = Running s' \<longleftrightarrow> (\<exists>s. r = Running s \<and> f s = Running s')"
  by (cases r) auto

lemma and_then_Exited:
  "and_then r f = Exited c s' \<longleftrightarrow> r = Exited c s' \<or> (\<exists>s. r = Running s \<and> f s = Exited c s')"
  by (cases r) auto

abbreviation USERMESG :: nat where
  "USERMESG \<equiv> 2048"

section \<open>Definitions\<close>

text \<open>\<^verbatim>\<open>EXPAND_VAR_ARGS\<close> into a buffer of \<open>n\<close> bytes; an empty text fails its assertion.\<close>

definition expand :: "nat \<Rightarrow> cstr \<Rightarrow> cstr" where
  "expand n mesg = take (n - 1) mesg"

definition check_env :: "tst_env \<Rightarrow> tst_state \<Rightarrow> tst_state" where
  "check_env env s =
     (if \<not> first_time s then s
      else s\<lparr>first_time := False,
             T_mode := (case TOUTPUT env of
                 None \<Rightarrow> VERBOSE
               | Some v \<Rightarrow> if v = ''NOPASS'' then NOPASS else if v = ''DISCARD'' then DISCARD else VERBOSE)\<rparr>)"

text \<open>The texts for the flags TERRNO, TTERRNO and TRERRNO (bits 8, 9 and 10).\<close>

definition errno_suffix :: "tst_env \<Rightarrow> cstr \<Rightarrow> int \<Rightarrow> cstr" where
  "errno_suffix env what e =
     '': '' @ what @ ''='' @ tst_strerrno e @ ''('' @ dec_int e @ ''): '' @ t_strerror env e"

definition result_line :: "tmode \<Rightarrow> cstr \<Rightarrow> int \<Rightarrow> int \<Rightarrow> cstr \<Rightarrow> cstr" where
  "result_line mode tcid tnum ttype tmesg =
     pad_right 8 tcid @ '' '' @ pad_left 4 (dec_int tnum)
     @ (if mode = VERBOSE then ''  '' else ''       '') @ strttype ttype @ ''  :  '' @ tmesg"

definition too_long :: "tst_state \<Rightarrow> tst_result" where
  "too_long s = Aborted s"

definition tst_print :: "tst_env \<Rightarrow> cstr \<Rightarrow> int \<Rightarrow> int \<Rightarrow> cstr \<Rightarrow> tst_state \<Rightarrow> tst_result" where
  "tst_print env tcid tnum ttype tmesg s =
     (let r = TTYPE_RESULT ttype;
          s1 = s\<lparr>T_exitval := T_exitval s OR r\<rparr>
      in if T_mode s = DISCARD \<or> (T_mode s = NOPASS \<and> r \<noteq> TFAIL \<and> r \<noteq> TBROK \<and> r \<noteq> TWARN) then Running s1
         else
           (let m1 = result_line (T_mode s) tcid tnum ttype tmesg;
                m2 = m1 @ (if bit ttype 8 then errno_suffix env ''errno'' (t_errno env) else []);
                m3 = m2 @ (if bit ttype 9 then errno_suffix env ''TEST_ERRNO'' (TEST_ERRNO env) else []);
                m4 = m3 @ (if bit ttype 10 then errno_suffix env ''TEST_RETURN'' (TEST_RETURN env) else [])
            in if length m1 \<ge> USERMESG then too_long s1
               else if length m2 \<ge> USERMESG then too_long s1
               else if length m3 \<ge> USERMESG then too_long s1
               else if length m4 + 1 \<ge> USERMESG then too_long s1
               else Running (s1\<lparr>tout := tout s1 @ m4 @ [newline]\<rparr>)))"

definition buffer_result :: "tst_env \<Rightarrow> int \<Rightarrow> int \<Rightarrow> cstr \<Rightarrow> tst_state \<Rightarrow> tst_state" where
  "buffer_result env tnum ttype tmesg s =
     s\<lparr>Last_tcid := TCID env, Last_num := tnum, Last_type := TTYPE_RESULT ttype, Last_mesg := tmesg,
       Buffered := True\<rparr>"

definition tst_condense :: "tst_env \<Rightarrow> int \<Rightarrow> int \<Rightarrow> cstr \<Rightarrow> tst_state \<Rightarrow> tst_result" where
  "tst_condense env tnum ttype tmesg s =
     (if Buffered s \<and> Last_tcid s = TCID env \<and> Last_type s = TTYPE_RESULT ttype \<and> Last_mesg s = tmesg
      then Running s
      else and_then (if Buffered s then tst_print env (Last_tcid s) (Last_num s) (Last_type s) (Last_mesg s) s
                     else Running s)
             (\<lambda>s1. Running (buffer_result env tnum ttype tmesg s1)))"

definition tst_flush :: "tst_env \<Rightarrow> tst_state \<Rightarrow> tst_result" where
  "tst_flush env s =
     (if Buffered s \<and> T_mode s = NOPASS
      then and_then (tst_print env (Last_tcid s) (Last_num s) (Last_type s) (Last_mesg s) s)
             (\<lambda>s1. Running (s1\<lparr>Buffered := False\<rparr>))
      else Running s)"

text \<open>\<open>loc\<close> is the source position, \<open>None\<close> for a NULL file name.\<close>

definition res_text :: "(cstr \<times> int) option \<Rightarrow> int \<Rightarrow> cstr \<Rightarrow> cstr" where
  "res_text loc ttype mesg =
     (let r = TTYPE_RESULT ttype;
          pre = (case loc of
              None \<Rightarrow> []
            | Some (file, lineno) \<Rightarrow>
                if r \<noteq> TPASS \<and> r \<noteq> TINFO then file @ '':'' @ dec_int lineno @ '': '' else [])
      in pre @ expand (USERMESG - length pre) mesg)"

definition tst_res :: "tst_env \<Rightarrow> (cstr \<times> int) option \<Rightarrow> int \<Rightarrow> cstr \<Rightarrow> tst_state \<Rightarrow> tst_result" where
  "tst_res env loc ttype mesg s =
     (if mesg = [] then Aborted s
      else
        (let r = TTYPE_RESULT ttype;
             tmesg = res_text loc ttype mesg;
             s1 = check_env env (s\<lparr>T_exitval := T_exitval s OR r\<rparr>)
         in if r = TWARN \<or> r = TINFO then tst_print env (TCID env) 0 ttype tmesg s1
            else
              and_then (if tst_count s1 < 0
                        then tst_print env (TCID env) 0 TWARN ''tst_res(): tst_count < 0 is not valid'' s1
                        else Running s1)
                (\<lambda>s2. and_then
                   (case T_mode s2 of
                      DISCARD \<Rightarrow> Running s2
                    | NOPASS \<Rightarrow> tst_condense env (tst_count s2 + 1) ttype tmesg s2
                    | VERBOSE \<Rightarrow> tst_print env (TCID env) (tst_count s2 + 1) ttype tmesg s2)
                   (\<lambda>s3. Running (s3\<lparr>tst_count := tst_count s3 + 1\<rparr>)))))"

definition tst_exit :: "tst_env \<Rightarrow> tst_state \<Rightarrow> tst_result" where
  "tst_exit env s = and_then (tst_flush env s) (\<lambda>s1. Exited (T_exitval s1 AND NOT TINFO) s1)"

text \<open>\<^verbatim>\<open>fork\<close> returns 0 in the child, whose results start afresh.\<close>

definition tst_fork :: "tst_env \<Rightarrow> int \<Rightarrow> tst_state \<Rightarrow> tst_result" where
  "tst_fork env child s =
     and_then (tst_flush env s) (\<lambda>s1. Running (if child = 0 then s1\<lparr>T_exitval := 0\<rparr> else s1))"

definition tst_vfork :: "tst_env \<Rightarrow> int \<Rightarrow> tst_state \<Rightarrow> tst_result" where
  "tst_vfork env child s = tst_flush env s"

text \<open>
  The cleanup function of the test is a parameter: a NULL pointer, or a function on the state
  that may itself report results or exit.
\<close>

definition invalid_type_mesg :: "int \<Rightarrow> cstr" where
  "invalid_type_mesg r = ''tst_brk__: Invalid Type: '' @ dec_int r @ ''. Using TBROK''"

definition tst_brk ::
    "tst_env \<Rightarrow> (cstr \<times> int) option \<Rightarrow> int \<Rightarrow> (tst_state \<Rightarrow> tst_result) option \<Rightarrow> cstr \<Rightarrow> tst_state \<Rightarrow> tst_result"
where
  "tst_brk env loc ttype func mesg s =
     (if mesg = [] then Aborted s
      else
        (let r = TTYPE_RESULT ttype;
             tmesg = expand USERMESG mesg;
             valid = (r = TFAIL \<or> r = TBROK \<or> r = TCONF);
             ttype1 = (if valid then ttype else (ttype AND NOT r) OR TBROK)
         in and_then (if valid then Running s else tst_print env (TCID env) 0 TWARN (invalid_type_mesg r) s) (\<lambda>s1.
            and_then (tst_res env loc ttype1 tmesg s1) (\<lambda>s2.
            and_then
              (if tst_brk_entered s2 \<noteq> 0 then Running s2
               else if r = TCONF
               then tst_res env loc ttype1 ''Remaining cases not appropriate for configuration'' s2
               else if r = TBROK then tst_res env loc TBROK ''Remaining cases broken'' s2
               else Running s2) (\<lambda>s3.
            and_then
              (case func of
                 None \<Rightarrow> Running s3
               | Some f \<Rightarrow>
                   and_then (f (s3\<lparr>tst_brk_entered := tst_brk_entered s3 + 1\<rparr>))
                     (\<lambda>s4. Running (s4\<lparr>tst_brk_entered := tst_brk_entered s4 - 1\<rparr>))) (\<lambda>s5.
            if tst_brk_entered s5 = 0 then tst_exit env s5 else Running s5))))))"

text \<open>\<^verbatim>\<open>tst_brkm_\<close> aborts if \<^verbatim>\<open>tst_brk__\<close> returns.\<close>

definition tst_brkm ::
    "tst_env \<Rightarrow> (cstr \<times> int) option \<Rightarrow> int \<Rightarrow> (tst_state \<Rightarrow> tst_result) option \<Rightarrow> cstr \<Rightarrow> tst_state \<Rightarrow> tst_result"
where
  "tst_brkm env loc ttype func mesg s =
     (if mesg = [] then Aborted s
      else and_then (tst_brk env loc ttype func (expand USERMESG mesg) s) Aborted)"

definition tst_resm :: "tst_env \<Rightarrow> (cstr \<times> int) option \<Rightarrow> int \<Rightarrow> cstr \<Rightarrow> tst_state \<Rightarrow> tst_result" where
  "tst_resm env loc ttype mesg s =
     (if mesg = [] then Aborted s else tst_res env loc ttype (expand USERMESG mesg) s)"

definition tst_require_root :: "tst_env \<Rightarrow> (cstr \<times> int) option \<Rightarrow> int \<Rightarrow> tst_state \<Rightarrow> tst_result" where
  "tst_require_root env loc euid s =
     (if euid \<noteq> 0 then tst_brkm env loc TCONF None ''Test needs to be run as root'' s else Running s)"

text \<open>\<open>wait_result\<close> is what \<^verbatim>\<open>waitpid\<close> returns; a status that is not an exit is a signal.\<close>

definition tst_record_childstatus ::
    "tst_env \<Rightarrow> (cstr \<times> int) option \<Rightarrow> (tst_state \<Rightarrow> tst_result) option \<Rightarrow> int \<Rightarrow> int \<Rightarrow> int \<Rightarrow> tst_state \<Rightarrow> tst_result"
where
  "tst_record_childstatus env loc cleanup child wait_result status s =
     and_then
       (if wait_result < 0
        then tst_brkm env loc (TBROK OR 256) cleanup (''waitpid('' @ dec_int child @ '') failed'') s
        else Running s) (\<lambda>s0.
     if WIFEXITED status then
       (let r = TTYPE_RESULT (WEXITSTATUS status);
            info = (\<lambda>b m s. if b then tst_resm env loc TINFO m s else Running s)
        in and_then (info (r = TPASS) ''Child process returned TPASS'' (s0\<lparr>T_exitval := T_exitval s0 OR r\<rparr>)) (\<lambda>s1.
           and_then (info (r AND TFAIL \<noteq> 0) ''Child process returned TFAIL'' s1) (\<lambda>s2.
           and_then (info (r AND TBROK \<noteq> 0) ''Child process returned TBROK'' s2)
             (info (r AND TCONF \<noteq> 0) ''Child process returned TCONF''))))
     else
       tst_brkm env loc TBROK cleanup
         (''child process('' @ dec_int child @ '') killed by unexpected signal ''
          @ tst_strsig (WTERMSIG status) @ ''('' @ dec_int (WTERMSIG status) @ '')'') s0)"

text \<open>
  \<^verbatim>\<open>tst_resm_hexd_\<close>: \<open>buf\<close> is the text of \<^verbatim>\<open>tmesg\<close> and \<open>pos\<close> the offset of \<^verbatim>\<open>pmesg\<close> in it; the
  bytes are written there as \<^verbatim>\<open>%02x\<close>, and a line is reported after every 16 bytes.
\<close>

definition hex_digit :: "nat \<Rightarrow> char" where
  "hex_digit n = (if n < 10 then char_of (48 + n) else char_of (87 + n))"

definition hex2 :: "nat \<Rightarrow> cstr" where
  "hex2 b = [hex_digit (b div 16), hex_digit (b mod 16)]"

fun hexd_loop ::
    "tst_env \<Rightarrow> (cstr \<times> int) option \<Rightarrow> int \<Rightarrow> nat \<Rightarrow> nat list \<Rightarrow> cstr \<Rightarrow> nat \<Rightarrow> tst_state \<Rightarrow> tst_result"
where
  "hexd_loop env loc ttype i [] buf pos s = Running s"
| "hexd_loop env loc ttype i (b # bs) buf pos s =
     (let buf1 = take pos buf @ (if pos \<noteq> 0 then '' '' else []) @ hex2 b
      in if (i + 1) mod 16 = 0 \<or> bs = []
         then and_then (tst_res env loc ttype buf1 s) (\<lambda>s1. hexd_loop env loc ttype (i + 1) bs buf1 0 s1)
         else hexd_loop env loc ttype (i + 1) bs buf1 (length buf1) s)"

definition tst_resm_hexd ::
    "tst_env \<Rightarrow> (cstr \<times> int) option \<Rightarrow> int \<Rightarrow> nat list \<Rightarrow> cstr \<Rightarrow> tst_state \<Rightarrow> tst_result"
where
  "tst_resm_hexd env loc ttype bytes mesg s =
     (if mesg = [] then Aborted s
      else
        (let tmesg = expand USERMESG mesg;
             size = length bytes;
             offset = length tmesg
         in if size > 16 \<or> size = 0 \<or> offset + size * 3 \<ge> USERMESG
            then and_then (tst_res env loc ttype tmesg s) (hexd_loop env loc ttype 0 bytes tmesg 0)
            else hexd_loop env loc ttype 0 bytes tmesg offset s))"

section \<open>Frames\<close>

lemma check_env_fields [simp]:
  "T_exitval (check_env env s) = T_exitval s" "Buffered (check_env env s) = Buffered s"
  "Last_type (check_env env s) = Last_type s" "tst_count (check_env env s) = tst_count s"
  "tst_brk_entered (check_env env s) = tst_brk_entered s" "tout (check_env env s) = tout s"
  "Last_tcid (check_env env s) = Last_tcid s" "Last_num (check_env env s) = Last_num s"
  "Last_mesg (check_env env s) = Last_mesg s"
  by (simp_all add: check_env_def)

lemma tst_print_Running:
  assumes "tst_print env tcid tnum ttype tmesg s = Running s'"
  shows "\<exists>t. s' = s\<lparr>T_exitval := T_exitval s OR TTYPE_RESULT ttype, tout := t\<rparr>"
  using assms
  by (auto simp: tst_print_def Let_def too_long_def split: if_splits intro: exI [of _ "tout s"])

lemma tst_print_not_Exited: "tst_print env tcid tnum ttype tmesg s \<noteq> Exited c s'"
  by (simp add: tst_print_def Let_def too_long_def)

text \<open>A buffered result has already been counted in the exit value.\<close>

definition buffer_counted :: "tst_state \<Rightarrow> bool" where
  "buffer_counted s \<longleftrightarrow> (Buffered s \<longrightarrow> T_exitval s OR Last_type s = T_exitval s)"

lemma or_assoc_absorb: "x OR y = x \<Longrightarrow> (x OR z) OR y = x OR (z :: int)"
  by (metis or.assoc or.commute)

lemma TTYPE_RESULT_idem [simp]: "TTYPE_RESULT (TTYPE_RESULT t) = TTYPE_RESULT t"
  by (simp add: TTYPE_RESULT_def)

lemma tst_condense_Running:
  assumes "tst_condense env tnum ttype tmesg s = Running s'" "buffer_counted s"
    and "T_exitval s OR TTYPE_RESULT ttype = T_exitval s" "TTYPE_RESULT (Last_type s) = Last_type s \<or> \<not> Buffered s"
  shows "T_exitval s' = T_exitval s \<and> buffer_counted s' \<and> tst_count s' = tst_count s \<and>
    tst_brk_entered s' = tst_brk_entered s \<and> (Buffered s' \<longrightarrow> TTYPE_RESULT (Last_type s') = Last_type s')"
proof (cases "Buffered s \<and> Last_tcid s = TCID env \<and> Last_type s = TTYPE_RESULT ttype \<and> Last_mesg s = tmesg")
  case True
  with assms show ?thesis by (auto simp: tst_condense_def)
next
  case False
  with assms(1) obtain s1 where s1: "(if Buffered s
      then tst_print env (Last_tcid s) (Last_num s) (Last_type s) (Last_mesg s) s else Running s) = Running s1"
    and s': "s' = buffer_result env tnum ttype tmesg s1"
    by (auto simp: tst_condense_def and_then_Running)
  have "T_exitval s1 = T_exitval s \<and> tst_count s1 = tst_count s \<and> tst_brk_entered s1 = tst_brk_entered s"
    using s1 assms(2,4) by (auto simp: buffer_counted_def split: if_splits dest: tst_print_Running)
  then show ?thesis using s' assms(3) by (simp add: buffer_result_def buffer_counted_def)
qed

definition res_inv :: "tst_state \<Rightarrow> bool" where
  "res_inv s \<longleftrightarrow> buffer_counted s \<and> 0 \<le> tst_count s \<and> (Buffered s \<longrightarrow> TTYPE_RESULT (Last_type s) = Last_type s)"

text \<open>One report adds its type to the exit value.\<close>

lemma tst_res_exitval:
  assumes "tst_res env loc ttype mesg s = Running s'" "res_inv s"
  shows "T_exitval s' = T_exitval s OR TTYPE_RESULT ttype \<and> res_inv s' \<and> tst_brk_entered s' = tst_brk_entered s"
proof -
  let ?r = "TTYPE_RESULT ttype" and ?m = "res_text loc ttype mesg"
  let ?s1 = "check_env env (s\<lparr>T_exitval := T_exitval s OR ?r\<rparr>)"
  have absorb: "T_exitval ?s1 OR ?r = T_exitval ?s1" by (simp add: or.assoc)
  have bc: "buffer_counted ?s1" using assms(2)
    by (auto simp: res_inv_def buffer_counted_def intro: or_assoc_absorb)
  have print: "T_exitval s2 = T_exitval s OR ?r \<and> buffer_counted s2 \<and> tst_count s2 = tst_count s \<and>
      tst_brk_entered s2 = tst_brk_entered s \<and> (Buffered s2 \<longrightarrow> TTYPE_RESULT (Last_type s2) = Last_type s2)"
    if "tst_print env tcid n ttype ?m ?s1 = Running s2" for tcid n s2
    using tst_print_Running [OF that] absorb bc assms(2)
    by (auto simp: buffer_counted_def res_inv_def)
  show ?thesis
  proof (cases "?r = TWARN \<or> ?r = TINFO")
    case True
    with assms(1) have "tst_print env (TCID env) 0 ttype ?m ?s1 = Running s'"
      by (auto simp: tst_res_def Let_def split: if_splits)
    with print [OF this] assms(2) show ?thesis by (simp add: res_inv_def)
  next
    case False
    moreover have "0 \<le> tst_count ?s1" using assms(2) by (simp add: res_inv_def)
    ultimately obtain s3 where s3: "(case T_mode ?s1 of DISCARD \<Rightarrow> Running ?s1
        | NOPASS \<Rightarrow> tst_condense env (tst_count ?s1 + 1) ttype ?m ?s1
        | VERBOSE \<Rightarrow> tst_print env (TCID env) (tst_count ?s1 + 1) ttype ?m ?s1) = Running s3"
      and s': "s' = s3\<lparr>tst_count := tst_count s3 + 1\<rparr>"
      using assms(1) by (auto simp: tst_res_def Let_def and_then_Running split: if_splits)
    have "T_exitval s3 = T_exitval s OR ?r \<and> buffer_counted s3 \<and> tst_count s3 = tst_count s \<and>
      tst_brk_entered s3 = tst_brk_entered s \<and> (Buffered s3 \<longrightarrow> TTYPE_RESULT (Last_type s3) = Last_type s3)"
    proof (cases "T_mode ?s1")
      case VERBOSE
      then show ?thesis using s3 print by simp
    next
      case NOPASS
      with s3 tst_condense_Running [of env _ ttype ?m ?s1 s3] bc absorb assms(2) show ?thesis
        by (auto simp: res_inv_def)
    next
      case DISCARD
      then show ?thesis using s3 bc assms(2) by (auto simp: res_inv_def)
    qed
    then show ?thesis using s' assms(2) by (auto simp: res_inv_def buffer_counted_def)
  qed
qed

lemma tst_flush_exitval:
  assumes "tst_flush env s = Running s'" "res_inv s"
  shows "T_exitval s' = T_exitval s"
proof (cases "Buffered s \<and> T_mode s = NOPASS")
  case True
  with assms obtain s1 where "tst_print env (Last_tcid s) (Last_num s) (Last_type s) (Last_mesg s) s = Running s1"
    "s' = s1\<lparr>Buffered := False\<rparr>"
    by (auto simp: tst_flush_def and_then_Running)
  with tst_print_Running [OF this(1)] True assms(2) show ?thesis
    by (auto simp: res_inv_def buffer_counted_def)
next
  case False
  with assms(1) show ?thesis by (auto simp: tst_flush_def)
qed

lemma tst_exit_code:
  assumes "res_inv s"
  shows "(\<exists>s'. tst_exit env s = Aborted s') \<or> (\<exists>s'. tst_exit env s = Exited (T_exitval s AND NOT TINFO) s')"
proof (cases "tst_flush env s")
  case (Running s1)
  with tst_flush_exitval [OF Running assms] show ?thesis by (simp add: tst_exit_def)
next
  case (Exited c s1)
  then have False by (auto simp: tst_flush_def and_then_Exited tst_print_not_Exited split: if_splits)
  then show ?thesis ..
next
  case (Aborted s1)
  then show ?thesis by (simp add: tst_exit_def)
qed

section \<open>Sequences of results\<close>

text \<open>A test that reports a list of results: position, type and message of each.\<close>

type_synonym report_item = "(cstr \<times> int) option \<times> int \<times> cstr"

fun report :: "tst_env \<Rightarrow> report_item list \<Rightarrow> tst_state \<Rightarrow> tst_result" where
  "report env [] s = Running s"
| "report env ((loc, ttype, mesg) # rs) s = and_then (tst_res env loc ttype mesg s) (report env rs)"

abbreviation item_type :: "report_item \<Rightarrow> int" where
  "item_type i \<equiv> TTYPE_RESULT (fst (snd i))"

lemma report_exitval:
  assumes "report env rs s = Running s'" "res_inv s"
  shows "T_exitval s' = fold (\<lambda>i v. v OR item_type i) rs (T_exitval s) \<and> res_inv s'"
  using assms
proof (induction rs arbitrary: s)
  case Nil
  then show ?case by simp
next
  case (Cons i rs)
  obtain loc t m where i: "i = (loc, t, m)" using prod_cases3 by blast
  with Cons.prems(1) obtain s1 where "tst_res env loc t m s = Running s1" "report env rs s1 = Running s'"
    by (auto simp: and_then_Running)
  with Cons i tst_res_exitval [OF this(1) Cons.prems(2)] show ?case by simp
qed

lemma bit_fold_or: "bit (fold (\<lambda>i v. v OR item_type i) rs v) k \<longleftrightarrow> bit v k \<or> (\<exists>i \<in> set rs. bit (item_type i) k)"
  by (induction rs arbitrary: v) (auto simp: bit_or_iff)

lemma bit_pow2: "bit (2 ^ n :: int) k \<longleftrightarrow> k = n"
  by (auto simp: bit_exp_iff)

lemma flag_powers: "TFAIL = 2 ^ 0" "TBROK = 2 ^ 1" "TWARN = 2 ^ 2" "TINFO = 2 ^ 4" "TCONF = 2 ^ 5"
  by (simp_all add: flag_defs)

lemma flags_distinct [simp]:
  "TPASS \<noteq> TFAIL" "TPASS \<noteq> TBROK" "TPASS \<noteq> TWARN" "TPASS \<noteq> TINFO"
  "TPASS \<noteq> TCONF" "TFAIL \<noteq> TPASS" "TFAIL \<noteq> TBROK" "TFAIL \<noteq> TWARN"
  "TFAIL \<noteq> TINFO" "TFAIL \<noteq> TCONF" "TBROK \<noteq> TPASS" "TBROK \<noteq> TFAIL"
  "TBROK \<noteq> TWARN" "TBROK \<noteq> TINFO" "TBROK \<noteq> TCONF" "TWARN \<noteq> TPASS"
  "TWARN \<noteq> TFAIL" "TWARN \<noteq> TBROK" "TWARN \<noteq> TINFO" "TWARN \<noteq> TCONF"
  "TINFO \<noteq> TPASS" "TINFO \<noteq> TFAIL" "TINFO \<noteq> TBROK" "TINFO \<noteq> TWARN"
  "TINFO \<noteq> TCONF" "TCONF \<noteq> TPASS" "TCONF \<noteq> TFAIL" "TCONF \<noteq> TBROK"
  "TCONF \<noteq> TWARN" "TCONF \<noteq> TINFO"
  by (simp_all add: flag_defs)

definition result_flags :: "int set" where
  "result_flags = {TPASS, TFAIL, TBROK, TWARN, TINFO, TCONF}"

lemma bit_flag:
  assumes "r \<in> result_flags"
  shows "bit r k \<longleftrightarrow> (r = TFAIL \<and> k = 0) \<or> (r = TBROK \<and> k = 1) \<or> (r = TWARN \<and> k = 2) \<or>
    (r = TINFO \<and> k = 4) \<or> (r = TCONF \<and> k = 5)"
proof -
  have "bit TFAIL k \<longleftrightarrow> k = 0" "bit TBROK k \<longleftrightarrow> k = 1" "bit TWARN k \<longleftrightarrow> k = 2" "bit TINFO k \<longleftrightarrow> k = 4"
    "bit TCONF k \<longleftrightarrow> k = 5" "\<not> bit TPASS k"
    unfolding flag_powers bit_pow2 by (simp_all add: TPASS_def)
  with assms show ?thesis unfolding result_flags_def by (elim insertE) simp_all
qed

lemma exit_bits:
  assumes "\<forall>i \<in> set rs. item_type i \<in> result_flags"
    and "c = fold (\<lambda>i v. v OR item_type i) rs 0 AND NOT TINFO"
  shows "bit c k \<longleftrightarrow> (\<exists>i \<in> set rs. (item_type i = TFAIL \<and> k = 0) \<or> (item_type i = TBROK \<and> k = 1) \<or>
    (item_type i = TWARN \<and> k = 2) \<or> (item_type i = TCONF \<and> k = 5))"
proof -
  have "bit c k \<longleftrightarrow> (\<exists>i \<in> set rs. bit (item_type i) k) \<and> k \<noteq> 4"
    unfolding assms(2) bit_and_iff bit_fold_or bit_not_iff flag_powers(4) bit_pow2 by simp
  moreover have "(\<exists>i \<in> set rs. bit (item_type i) k) \<longleftrightarrow> (\<exists>i \<in> set rs. (item_type i = TFAIL \<and> k = 0) \<or>
      (item_type i = TBROK \<and> k = 1) \<or> (item_type i = TWARN \<and> k = 2) \<or> (item_type i = TINFO \<and> k = 4) \<or>
      (item_type i = TCONF \<and> k = 5))"
    using assms(1) bit_flag by (intro bex_cong) auto
  ultimately show ?thesis by auto
qed

text \<open>Condensed output: of adjacent equal results only the first is kept.\<close>

fun runs :: "(int \<times> int \<times> cstr) list \<Rightarrow> (int \<times> int \<times> cstr) list" where
  "runs [] = []"
| "runs [x] = [x]"
| "runs (x # y # zs) = (if snd x = snd y then runs (x # zs) else x # runs (y # zs))"

definition shown :: "int \<Rightarrow> bool" where
  "shown t \<longleftrightarrow> t = TFAIL \<or> t = TBROK \<or> t = TWARN"

definition run_line :: "tst_env \<Rightarrow> int \<times> int \<times> cstr \<Rightarrow> cstr" where
  "run_line env x = (case x of (n, t, m) \<Rightarrow>
     if shown t then result_line NOPASS (TCID env) n t m @ [newline] else [])"

text \<open>The results of a list of reports, numbered from \<open>n\<close> on.\<close>

fun numbered :: "int \<Rightarrow> report_item list \<Rightarrow> (int \<times> int \<times> cstr) list" where
  "numbered n [] = []"
| "numbered n ((loc, t, m) # rs) = (n, TTYPE_RESULT t, res_text loc t m) # numbered (n + 1) rs"

definition plain_item :: "report_item \<Rightarrow> bool" where
  "plain_item i \<longleftrightarrow> snd (snd i) \<noteq> [] \<and> item_type i \<in> {TPASS, TFAIL, TBROK, TCONF}"

definition line_fits :: "tst_env \<Rightarrow> int \<times> int \<times> cstr \<Rightarrow> bool" where
  "line_fits env x = (case x of (n, t, m) \<Rightarrow>
     length (result_line NOPASS (TCID env) n t m) + 1 < USERMESG \<and> TTYPE_RESULT t = t)"

lemma high_bits_clear:
  assumes "TTYPE_RESULT t = t" "6 \<le> k"
  shows "\<not> bit t k"
proof -
  have "take_bit 6 t = t" using assms(1) by (simp add: TTYPE_RESULT_def take_bit_eq_mod)
  then have "bit t k = bit (take_bit 6 t) k" by simp
  with assms(2) show ?thesis by (simp add: bit_take_bit_iff)
qed

lemma print_buffered:
  assumes "T_mode s = NOPASS" "line_fits env (n, t, m)" "T_exitval s OR t = T_exitval s"
  shows "tst_print env (TCID env) n t m s = Running (s\<lparr>tout := tout s @ run_line env (n, t, m)\<rparr>)"
proof -
  have t: "TTYPE_RESULT t = t" using assms(2) by (simp add: line_fits_def)
  note hb = high_bits_clear [OF t]
  show ?thesis
    using assms t hb [of 8] hb [of 9] hb [of 10]
    by (auto simp: tst_print_def run_line_def shown_def line_fits_def Let_def)
qed

text \<open>The state with a result in the buffer.\<close>

definition holds_result :: "tst_env \<Rightarrow> tst_state \<Rightarrow> int \<times> int \<times> cstr \<Rightarrow> bool" where
  "holds_result env s x \<longleftrightarrow> T_mode s = NOPASS \<and> \<not> first_time s \<and> 0 \<le> tst_count s \<and> Buffered s \<and>
     Last_tcid s = TCID env \<and> (Last_num s, Last_type s, Last_mesg s) = x \<and> T_exitval s OR Last_type s = T_exitval s"

lemma tst_res_NOPASS:
  assumes "T_mode s = NOPASS" "\<not> first_time s" "0 \<le> tst_count s" "plain_item (loc, t, m)"
  shows "tst_res env loc t m s = and_then
    (tst_condense env (tst_count s + 1) t (res_text loc t m) (s\<lparr>T_exitval := T_exitval s OR TTYPE_RESULT t\<rparr>))
    (\<lambda>s3. Running (s3\<lparr>tst_count := tst_count s3 + 1\<rparr>))"
  using assms by (auto simp: tst_res_def check_env_def plain_item_def Let_def)

text \<open>A further result either repeats the buffered one or sends it to the output.\<close>

lemma condense_step:
  assumes "holds_result env s x" "line_fits env x" "plain_item (loc, t, m)"
    and "y = (tst_count s + 1, TTYPE_RESULT t, res_text loc t m)"
  shows "\<exists>s'. tst_res env loc t m s = Running s' \<and> tst_count s' = tst_count s + 1 \<and>
    (if snd x = snd y then holds_result env s' x \<and> tout s' = tout s
     else holds_result env s' y \<and> tout s' = tout s @ run_line env x)"
proof -
  obtain n t' m' where x: "x = (n, t', m')" using prod_cases3 by blast
  let ?s1 = "s\<lparr>T_exitval := T_exitval s OR TTYPE_RESULT t\<rparr>"
  have h: "T_mode s = NOPASS" "\<not> first_time s" "0 \<le> tst_count s" "Buffered s" "Last_tcid s = TCID env"
    "Last_num s = n" "Last_type s = t'" "Last_mesg s = m'" "T_exitval s OR t' = T_exitval s"
    using assms(1) x by (auto simp: holds_result_def)
  have e: "T_exitval ?s1 OR t' = T_exitval ?s1" using or_assoc_absorb [OF h(9)] by simp
  note print = print_buffered [of ?s1 env n t' m', OF _ assms(2) [unfolded x] e]
  show ?thesis
  proof (cases "snd x = snd y")
    case True
    then have "tst_condense env (tst_count s + 1) t (res_text loc t m) ?s1 = Running ?s1"
      using h x assms(4) by (simp add: tst_condense_def)
    then show ?thesis using True h e x by (simp add: tst_res_NOPASS [OF h(1-3) assms(3)] holds_result_def)
  next
    case False
    then have "tst_condense env (tst_count s + 1) t (res_text loc t m) ?s1 =
        Running (buffer_result env (tst_count s + 1) t (res_text loc t m)
          (?s1\<lparr>tout := tout ?s1 @ run_line env (n, t', m')\<rparr>))"
      using h x assms(4) print by (auto simp: tst_condense_def)
    then show ?thesis using False h x assms(4)
      by (auto simp: tst_res_NOPASS [OF h(1-3) assms(3)] holds_result_def buffer_result_def or.assoc)
  qed
qed

lemma report_condensed:
  assumes "holds_result env s x" "line_fits env x" "list_all plain_item rs"
    and "list_all (line_fits env) (numbered (tst_count s + 1) rs)"
  shows "\<exists>s'. and_then (report env rs s) (tst_flush env) = Running s' \<and>
    tout s' = tout s @ concat (map (run_line env) (runs (x # numbered (tst_count s + 1) rs)))"
  using assms
proof (induction rs arbitrary: s x)
  case Nil
  then obtain n t m where x: "x = (n, t, m)" using prod_cases3 by blast
  with Nil have "tst_print env (TCID env) n t m s = Running (s\<lparr>tout := tout s @ run_line env (n, t, m)\<rparr>)"
    by (intro print_buffered) (auto simp: holds_result_def)
  with Nil x show ?case by (simp add: tst_flush_def holds_result_def)
next
  case (Cons i rs)
  obtain loc t m where i: "i = (loc, t, m)" using prod_cases3 by blast
  let ?y = "(tst_count s + 1, TTYPE_RESULT t, res_text loc t m)"
  obtain s' where s': "tst_res env loc t m s = Running s'" "tst_count s' = tst_count s + 1"
    "if snd x = snd ?y then holds_result env s' x \<and> tout s' = tout s
     else holds_result env s' ?y \<and> tout s' = tout s @ run_line env x"
    using condense_step [OF Cons.prems(1,2), of loc t m ?y] Cons.prems(3) i by auto
  have l: "list_all (line_fits env) (numbered (tst_count s' + 1) rs)" "line_fits env ?y" "list_all plain_item rs"
    using Cons.prems(3,4) i s'(2) by auto
  show ?case
  proof (cases "snd x = snd ?y")
    case True
    with Cons.IH [of s' x] s' l Cons.prems(2) i show ?thesis by simp
  next
    case False
    with Cons.IH [of s' ?y] s' l i show ?thesis by auto
  qed
qed

text \<open>The status \<^verbatim>\<open>tst_exit\<close> gives after a sequence of results.\<close>

lemma report_then_exit:
  assumes "report env rs s = Running s'" "tst_exit env s' = Exited c s''"
    and "res_inv s" "T_exitval s = 0"
  shows "c = fold (\<lambda>i v. v OR item_type i) rs 0 AND NOT TINFO"
proof -
  from report_exitval [OF assms(1,3)] have s': "T_exitval s' = fold (\<lambda>i v. v OR item_type i) rs 0" "res_inv s'"
    using assms(4) by auto
  with tst_exit_code [OF s'(2), of env] assms(2) show ?thesis by auto
qed

lemma exit_status_range:
  assumes "\<forall>i \<in> set rs. item_type i \<in> result_flags"
    and "c = fold (\<lambda>i v. v OR item_type i) rs 0 AND NOT TINFO"
  shows "0 \<le> c" "c < 64"
proof -
  have "c = take_bit 6 c"
    using exit_bits [OF assms] by (intro bit_eqI) (auto simp: bit_take_bit_iff)
  then show "0 \<le> c" "c < 64"
    using take_bit_nonnegative [of 6 c] take_bit_int_less_exp [of 6 c] by simp_all
qed

section \<open>Properties\<close>

text \<open>
  C15: the exit status of a test. Whatever the display mode, after any sequence of results the
  status \<^verbatim>\<open>tst_exit\<close> gives has exactly the bits of the result types that were reported, TINFO
  apart; in particular it is 0 exactly if every result was TPASS or TINFO.
\<close>

theorem tst_exit_status:
  assumes "report env rs s = Running s'" "tst_exit env s' = Exited c s''"
    and "res_inv s" "T_exitval s = 0" "\<forall>i \<in> set rs. item_type i \<in> result_flags"
  shows "(c = 0 \<longleftrightarrow> (\<forall>i \<in> set rs. item_type i \<in> {TPASS, TINFO})) \<and>
    (bit c 0 \<longleftrightarrow> (\<exists>i \<in> set rs. item_type i = TFAIL)) \<and> (bit c 1 \<longleftrightarrow> (\<exists>i \<in> set rs. item_type i = TBROK)) \<and>
    (bit c 2 \<longleftrightarrow> (\<exists>i \<in> set rs. item_type i = TWARN)) \<and> (bit c 5 \<longleftrightarrow> (\<exists>i \<in> set rs. item_type i = TCONF))"
proof -
  note c = report_then_exit [OF assms(1-4)]
  note b = exit_bits [OF assms(5) c]
  have "c = 0 \<longleftrightarrow> (\<forall>k. \<not> bit c k)" by (simp add: bit_eq_iff)
  also have "\<dots> \<longleftrightarrow> (\<forall>i \<in> set rs. item_type i \<notin> {TFAIL, TBROK, TWARN, TCONF})"
    unfolding b by auto
  also have "\<dots> \<longleftrightarrow> (\<forall>i \<in> set rs. item_type i \<in> {TPASS, TINFO})"
    using assms(5) by (intro ball_cong refl) (auto simp: result_flags_def)
  finally show ?thesis unfolding b by auto
qed

definition fresh_state :: "tmode \<Rightarrow> tst_state" where
  "fresh_state m = \<lparr>T_exitval = 0, T_mode = m, first_time = False, Buffered = False, Last_tcid = [], Last_num = 0,
     Last_type = 0, Last_mesg = [], tst_count = 0, tst_brk_entered = 0, tout = []\<rparr>"

definition demo_env :: tst_env where
  "demo_env = \<lparr>TCID = ''fork01'', TOUTPUT = None, t_errno = 0, TEST_ERRNO = 0, TEST_RETURN = 0, t_strerror = (\<lambda>_. [])\<rparr>"

theorem tst_exit_status_witness:
  "\<exists>s' s''. report demo_env [(None, TFAIL, ''bad''), (None, TINFO, ''note'')] (fresh_state DISCARD) = Running s' \<and>
     tst_exit demo_env s' = Exited 1 s''"
proof -
  obtain s' where s': "report demo_env [(None, TFAIL, ''bad''), (None, TINFO, ''note'')] (fresh_state DISCARD) = Running s'"
    "T_mode s' = DISCARD" "Buffered s' = False"
    by (simp add: tst_res_def fresh_state_def demo_env_def check_env_def tst_print_def TTYPE_RESULT_def flag_defs Let_def)
  have r: "res_inv (fresh_state DISCARD)" "T_exitval (fresh_state DISCARD) = 0"
    by (simp_all add: res_inv_def buffer_counted_def fresh_state_def)
  from report_exitval [OF s'(1) r(1)] r(2) have "T_exitval s' = 1 OR 16"
    by (simp add: TTYPE_RESULT_def flag_defs)
  then have e: "tst_exit demo_env s' = Exited 1 s'"
    using s'(2,3) by (simp add: tst_exit_def tst_flush_def TINFO_def)
  have "bit (1::int) 0" using tst_exit_status [OF s'(1) e r] by (simp add: result_flags_def TTYPE_RESULT_def flag_defs)
  with s'(1) e show ?thesis by blast
qed



lemma report_not_Exited: "tst_res env loc ttype mesg s \<noteq> Exited c s'"
proof -
  have "tst_condense env n ttype m s \<noteq> Exited c s'" for n m s
    by (auto simp: tst_condense_def and_then_Exited tst_print_not_Exited)
  then show ?thesis
    by (auto simp: tst_res_def Let_def and_then_Exited tst_print_not_Exited split: tmode.splits if_splits)
qed

lemma tst_brk_result:
  assumes "TTYPE_RESULT ttype = r" "r \<in> {TFAIL, TBROK, TCONF}" "tst_brk_entered s = 0" "res_inv s" "mesg \<noteq> []"
  shows "case tst_brk env loc ttype None mesg s of
      Running s' \<Rightarrow> False | Exited c s' \<Rightarrow> c AND r = r | Aborted s' \<Rightarrow> True"
proof -
  have keep0: "(x OR y) AND r = r" if "x AND r = r" for x y
    using that by (simp add: bit_eq_iff bit_and_iff bit_or_iff) blast
  have "r AND NOT TINFO = r" using assms(2) by (auto simp: flag_defs)
  then have keep: "(x AND NOT TINFO) AND r = r" if "x AND r = r" for x
    using that by (simp add: bit_eq_iff bit_and_iff bit_not_iff) blast
  let ?m = "expand USERMESG mesg"
  show ?thesis
  proof (cases "tst_res env loc ttype ?m s")
    case (Running s2)
    note r2 = tst_res_exitval [OF Running assms(4)]
    define k where "k = (if r = TCONF then tst_res env loc ttype ''Remaining cases not appropriate for configuration'' s2
      else if r = TBROK then tst_res env loc TBROK ''Remaining cases broken'' s2 else Running s2)"
    have "tst_brk env loc ttype None mesg s = and_then k (\<lambda>s5. if tst_brk_entered s5 = 0 then tst_exit env s5 else Running s5)"
      using assms(1,2,3,5) Running r2 by (auto simp: tst_brk_def k_def Let_def)
    moreover have "res_inv s5 \<and> tst_brk_entered s5 = 0 \<and> T_exitval s5 AND r = r" if "k = Running s5" for s5
    proof -
      have "T_exitval s2 AND r = r" using r2 assms(1) by (simp add: bit_eq_iff bit_and_iff bit_or_iff) blast
      then show ?thesis
        using that r2 assms(3) tst_res_exitval [of env loc _ _ s2 s5] keep0
        by (auto simp: k_def split: if_splits)
    qed
    moreover have "k \<noteq> Exited c s'" for c s' using report_not_Exited by (auto simp: k_def)
    ultimately show ?thesis
      using tst_exit_code [of _ env] keep by (cases k) (fastforce split: tst_result.split)+
  next
    case (Exited c s')
    then show ?thesis using report_not_Exited by blast
  next
    case (Aborted s')
    then show ?thesis using assms(1,2,5) by (auto simp: tst_brk_def Let_def)
  qed
qed



end
