(* ===== verification/Random_Range.thy ===== *)
theory Random_Range
  imports LTP_Prelude
begin

text \<open>
  \<^verbatim>\<open>lib/random_range.c\<close>: random multiples in a range, a random bit of a mask, and the parser of
  range lists. Integers are mathematical integers with the width written out: an operation
  whose result does not fit is a signed overflow, a fault. The value of \<^verbatim>\<open>lrand48\<close>, a number
  from 0 to \<open>2 ^ 31 - 1\<close>, is an argument. \<^verbatim>\<open>%\<close> and \<^verbatim>\<open>/\<close> round towards zero. The branches for
  CRAY and for MIPS with 64-bit longs are not those of Linux.
\<close>

section \<open>Definitions\<close>

text \<open>The value returned and what \<^verbatim>\<open>*errp\<close> points to.\<close>

type_synonym range_result = "int \<times> cstr option"

text \<open>The common part of the three functions: the ends moved to multiples, and the number of multiples.\<close>

definition mult_bounds :: "nat \<Rightarrow> int \<Rightarrow> int \<Rightarrow> int \<Rightarrow> (int \<times> int) outcome" where
  "mult_bounds w lo hi mul =
     bind_outcome (if crem lo mul \<noteq> 0 then checked w (lo + (mul - crem lo mul)) else Ok lo) (\<lambda>lo'.
     bind_outcome (if crem hi mul \<noteq> 0 then checked w (hi - crem hi mul) else Ok hi) (\<lambda>hi'.
       Ok (lo', hi')))"

definition num_mults :: "nat \<Rightarrow> int \<Rightarrow> int \<Rightarrow> int \<Rightarrow> int outcome" where
  "num_mults w lo hi mul =
     bind_outcome (checked w (hi - lo)) (\<lambda>d. checked w (cdiv d mul + 1))"

definition no_mult_mesg :: "int \<Rightarrow> int \<Rightarrow> int \<Rightarrow> cstr" where
  "no_mult_mesg lo hi mul = ''no numbers in the range '' @ dec_int lo @ '':'' @ dec_int hi
     @ '' that are a multiple of '' @ dec_int mul"

definition range_body ::
    "nat \<Rightarrow> (int \<Rightarrow> int \<Rightarrow> int outcome) \<Rightarrow> int \<Rightarrow> int \<Rightarrow> int \<Rightarrow> range_result outcome"
where
  "range_body w draw min_arg max_arg mul =
     (if mul < 1 then Ok (-1, Some ''mult arg must be greater than 0'')
      else
        (let lo = (if max_arg < min_arg then max_arg else min_arg);
             hi = (if max_arg < min_arg then min_arg else max_arg)
         in bind_outcome (mult_bounds w lo hi mul) (\<lambda>(lo', hi').
              if lo' > hi' then Ok (-1, Some (no_mult_mesg min_arg max_arg mul))
              else
                bind_outcome (num_mults w lo' hi' mul) (\<lambda>nmults.
                bind_outcome (draw lo' hi') (\<lambda>r.
                bind_outcome (checked 64 (crem r nmults * mul)) (\<lambda>d.
                bind_outcome (checked 64 (lo' + d)) (\<lambda>v. Ok (v, None))))))))"

definition random_range :: "int \<Rightarrow> int \<Rightarrow> int \<Rightarrow> int \<Rightarrow> range_result outcome" where
  "random_range rnd min_arg max_arg mul = range_body 32 (\<lambda>lo hi. Ok rnd) min_arg max_arg mul"

definition random_rangel :: "int \<Rightarrow> int \<Rightarrow> int \<Rightarrow> int \<Rightarrow> range_result outcome" where
  "random_rangel rnd min_arg max_arg mul = range_body 64 (\<lambda>lo hi. Ok rnd) min_arg max_arg mul"

text \<open>
  \<^verbatim>\<open>divider\<close>, with the random number drawn once at its start. A shift of the \<^verbatim>\<open>int\<close> 1 by 31
  places or more is undefined.
\<close>

function divider :: "int \<Rightarrow> int \<Rightarrow> nat \<Rightarrow> int \<Rightarrow> int outcome" where
  "divider lo hi cnt rnd =
     (if cnt > 32 then Ok (-1)
      else bind_outcome (checked 64 (hi - lo)) (\<lambda>diff.
        if diff \<le> 2147483647 then checked 64 (lo + rnd)
        else
          (let half = cdiv diff 2
           in bind_outcome (checked 64 (lo + half)) (\<lambda>med.
                if cnt \<ge> 31 then Fault
                else if half \<le> 2147483647
                then (if bit rnd cnt then checked 64 (med + rnd) else checked 64 (lo + rnd))
                else if bit rnd cnt then divider med hi (cnt + 1) rnd
                else divider lo med (cnt + 1) rnd))))"
  by pat_completeness auto
termination
  by (relation "measure (\<lambda>(lo, hi, cnt, rnd). 33 - cnt)") auto

declare divider.simps [simp del]

definition random_rangell :: "int \<Rightarrow> int \<Rightarrow> int \<Rightarrow> int \<Rightarrow> range_result outcome" where
  "random_rangell rnd min_arg max_arg mul =
     range_body 64 (\<lambda>lo hi. if hi \<le> 2147483647 then Ok rnd else divider lo hi 0 rnd) min_arg max_arg mul"

text \<open>
  \<^verbatim>\<open>random_bit\<close>: the mask is a signed 64-bit number; the right shift of a negative number is
  arithmetic, \<^verbatim>\<open>div 2\<close>. The second loop is not bounded in the source.
\<close>

definition count_bits :: "int \<Rightarrow> nat" where
  "count_bits msk = length (filter (bit msk) [0..<64])"

partial_function (option) random_bit_loop :: "int \<Rightarrow> int \<Rightarrow> nat \<Rightarrow> nat option" where
  "random_bit_loop b msk nshift =
     (if b = 0 then Some nshift
      else random_bit_loop (if odd msk then b - 1 else b) (msk div 2) (nshift + 1))"

definition random_bit :: "int \<Rightarrow> int \<Rightarrow> nat option outcome" where
  "random_bit rnd msk =
     (if msk = 0 then Ok None
      else bind_outcome (random_range rnd 1 (int (count_bits msk)) 1) (\<lambda>(b, err).
        case random_bit_loop b msk 0 of None \<Rightarrow> Fault | Some n \<Rightarrow> Ok (Some (n - 1))))"

subsection \<open>Range lists\<close>

record range =
  rmin :: int
  rmax :: int
  rmult :: int

text \<open>
  The default parser: \<^verbatim>\<open>sscanf(str, "%i%c", ip, &c) == 1\<close>, a decimal, octal (leading 0) or
  hexadecimal (leading 0x) number and nothing behind it.
\<close>

definition digit_value :: "char \<Rightarrow> nat option" where
  "digit_value c = (let n = of_char c in
     if 48 \<le> n \<and> n \<le> 57 then Some (n - 48)
     else if 97 \<le> n \<and> n \<le> 102 then Some (n - 87)
     else if 65 \<le> n \<and> n \<le> 70 then Some (n - 55) else None)"

fun scan_digits :: "nat \<Rightarrow> nat \<Rightarrow> cstr \<Rightarrow> nat \<times> cstr" where
  "scan_digits base acc [] = (acc, [])"
| "scan_digits base acc (c # cs) = (case digit_value c of
     Some d \<Rightarrow> if d < base then scan_digits base (base * acc + d) cs else (acc, c # cs)
   | None \<Rightarrow> (acc, c # cs))"

definition str_to_int :: "cstr \<Rightarrow> int option" where
  "str_to_int str =
     (let s1 = dropWhile is_space str;
          neg = (s1 \<noteq> [] \<and> hd s1 = CHR ''-'');
          s2 = (if s1 \<noteq> [] \<and> (hd s1 = CHR ''-'' \<or> hd s1 = CHR ''+'') then tl s1 else s1);
          hex = (take 2 s2 = ''0x'' \<or> take 2 s2 = ''0X'');
          body = (if hex then drop 2 s2 else s2);
          base = (if hex then 16 else if s2 \<noteq> [] \<and> hd s2 = CHR ''0'' then 8 else 10);
          (n, rest) = scan_digits base 0 body
      in if body = [] \<or> rest = body \<or> rest \<noteq> [] then None
         else Some (if neg then - int n else int n))"

text \<open>One token, split at its first two colons: \<^verbatim>\<open>n1str\<close>, \<^verbatim>\<open>n2str\<close> and \<^verbatim>\<open>multstr\<close>.\<close>

definition split_colon :: "cstr \<Rightarrow> cstr \<times> cstr option" where
  "split_colon s = (takeWhile (\<lambda>c. c \<noteq> CHR '':'') s, map_option (drop 1) (strchr s (CHR '':'')))"

definition range_fields :: "cstr \<Rightarrow> cstr \<times> cstr option \<times> cstr option" where
  "range_fields tok = (case split_colon tok of
       (n1, None) \<Rightarrow> (n1, None, None)
     | (n1, Some r) \<Rightarrow> (case split_colon r of (n2, m) \<Rightarrow> (n1, Some n2, m)))"

text \<open>
  Parsing one number: an empty field keeps the value it has, and the error text, with the
  offending field in it, goes to a buffer of 256 bytes.
\<close>

definition parse_num :: "(cstr \<Rightarrow> int option) \<Rightarrow> cstr \<Rightarrow> int \<Rightarrow> (cstr + int) outcome" where
  "parse_num parse_func s dflt =
     (if s = [] then Ok (Inr dflt)
      else case parse_func s of
             Some n \<Rightarrow> Ok (Inr n)
           | None \<Rightarrow> (let m = ''error parsing string '' @ s @ '' into an integer''
                      in if length m < 256 then Ok (Inl m) else Fault))"

definition parse_range_tok :: "(cstr \<Rightarrow> int option) \<Rightarrow> range \<Rightarrow> cstr \<Rightarrow> (cstr + range) outcome" where
  "parse_range_tok parse_func dflt tok = (case range_fields tok of (n1, n2, m) \<Rightarrow>
     bind_outcome (parse_num parse_func n1 (rmin dflt)) (\<lambda>a. case a of
       Inl e \<Rightarrow> Ok (Inl e)
     | Inr lo \<Rightarrow>
         bind_outcome (case n2 of None \<Rightarrow> Ok (Inr lo) | Some s \<Rightarrow> parse_num parse_func s (rmax dflt)) (\<lambda>b. case b of
           Inl e \<Rightarrow> Ok (Inl e)
         | Inr hi \<Rightarrow>
             bind_outcome (case m of None \<Rightarrow> Ok (Inr (rmult dflt)) | Some s \<Rightarrow> parse_num parse_func s (rmult dflt))
               (\<lambda>c. case c of Inl e \<Rightarrow> Ok (Inl e)
                  | Inr mu \<Rightarrow> Ok (Inr \<lparr>rmin = lo, rmax = hi, rmult = mu\<rparr>)))))"

text \<open>The loop over the tokens writes into an array with one element per comma and one more.\<close>

fun parse_ranges_loop ::
    "(cstr \<Rightarrow> int option) \<Rightarrow> range \<Rightarrow> nat \<Rightarrow> range list \<Rightarrow> cstr list \<Rightarrow> (cstr + range list) outcome"
where
  "parse_ranges_loop parse_func dflt cap rs [] = Ok (Inr rs)"
| "parse_ranges_loop parse_func dflt cap rs (tok # toks) =
     (if cap \<le> length rs then Fault
      else bind_outcome (parse_range_tok parse_func dflt tok) (\<lambda>r. case r of
        Inl e \<Rightarrow> Ok (Inl e)
      | Inr x \<Rightarrow> parse_ranges_loop parse_func dflt cap (rs @ [x]) toks))"

definition parse_ranges :: "(cstr \<Rightarrow> int option) option \<Rightarrow> range \<Rightarrow> cstr \<Rightarrow> (cstr + range list) outcome" where
  "parse_ranges parse_func dflt str =
     (let ncommas = length (filter (\<lambda>c. c = CHR '','') str);
          pf = (case parse_func of None \<Rightarrow> str_to_int | Some f \<Rightarrow> f)
      in parse_ranges_loop pf dflt (ncommas + 1) [] (tokens '','' str))"

section \<open>Multiples in a range\<close>

text \<open>The first multiple from \<open>lo\<close> on and the last one up to \<open>hi\<close>.\<close>

definition mult_up :: "int \<Rightarrow> int \<Rightarrow> int" where
  "mult_up lo m = (if lo mod m = 0 then lo else lo + (m - lo mod m))"

definition mult_down :: "int \<Rightarrow> int \<Rightarrow> int" where
  "mult_down hi m = hi - hi mod m"

lemma mult_up_bounds:
  assumes "0 < m"
  shows "m dvd mult_up lo m" "lo \<le> mult_up lo m" "mult_up lo m < lo + m"
proof -
  have b: "0 \<le> lo mod m" "lo mod m < m" using assms by simp_all
  have "m dvd lo - lo mod m" by simp
  then have d: "m dvd (lo - lo mod m) + m" by (rule dvd_add) simp
  have e: "lo + (m - lo mod m) = (lo - lo mod m) + m" by simp
  show "m dvd mult_up lo m" unfolding mult_up_def e using d by (simp add: mod_0_imp_dvd)
  show "lo \<le> mult_up lo m" using b by (simp add: mult_up_def)
  show "mult_up lo m < lo + m"
  proof (cases "lo mod m = 0")
    case True
    with assms show ?thesis by (simp add: mult_up_def)
  next
    case False
    with b(1) have "0 < lo mod m" by linarith
    with False show ?thesis by (simp add: mult_up_def)
  qed
qed

lemma mult_up_least:
  assumes "0 < m" "m dvd v" "lo \<le> v"
  shows "mult_up lo m \<le> v"
proof (rule ccontr)
  assume "\<not> mult_up lo m \<le> v"
  then have "0 < mult_up lo m - v" "mult_up lo m - v < m"
    using mult_up_bounds(3) [OF assms(1), of lo] assms(3) by auto
  moreover have "m dvd mult_up lo m - v" using mult_up_bounds(1) [OF assms(1)] assms(2) by (rule dvd_diff)
  ultimately show False by (auto dest: zdvd_imp_le)
qed

lemma mult_down_bounds:
  assumes "0 < m"
  shows "m dvd mult_down hi m" "mult_down hi m \<le> hi" "hi - m < mult_down hi m"
  using assms pos_mod_bound [of m hi] by (simp_all add: mult_down_def)

lemma mult_down_greatest:
  assumes "0 < m" "m dvd v" "v \<le> hi"
  shows "v \<le> mult_down hi m"
proof (rule ccontr)
  assume "\<not> v \<le> mult_down hi m"
  then have "0 < v - mult_down hi m" "v - mult_down hi m < m"
    using mult_down_bounds(3) [OF assms(1), of hi] assms(3) by auto
  moreover have "m dvd v - mult_down hi m" using assms(2) mult_down_bounds(1) [OF assms(1)] by (rule dvd_diff)
  ultimately show False by (auto dest: zdvd_imp_le)
qed

lemma multiple_exists:
  assumes "0 < m"
  shows "(\<exists>v. m dvd v \<and> lo \<le> v \<and> v \<le> hi) \<longleftrightarrow> mult_up lo m \<le> mult_down hi m"
  using mult_up_bounds [OF assms, of lo] mult_down_bounds [OF assms, of hi]
    mult_up_least [OF assms] mult_down_greatest [OF assms]
  by (meson order_trans)

lemma mult_bounds_value:
  assumes "0 \<le> lo" "lo \<le> hi" "0 < m" "hi + m < 2 ^ (w - 1)"
  shows "mult_bounds w lo hi m = Ok (mult_up lo m, mult_down hi m)"
proof -
  have p: "0 \<le> (2::int) ^ (w - 1)" by simp
  have "0 \<le> mult_down hi m" using assms(1,2) by (simp add: mult_down_def zmod_le_nonneg_dividend)
  then have "in_width w (mult_down hi m)"
    using mult_down_bounds(2) [OF assms(3), of hi] assms(3,4) p unfolding in_width_def by linarith
  moreover have "in_width w (mult_up lo m)"
    using mult_up_bounds [OF assms(3), of lo] assms p unfolding in_width_def by linarith
  ultimately show ?thesis
    using assms by (auto simp: mult_bounds_def crem_nonneg mult_up_def mult_down_def)
qed

text \<open>The value drawn: a multiple between the two ends.\<close>

lemma drawn_multiple:
  fixes m lo hi r n :: int
  assumes "0 < m" "m dvd lo" "m dvd hi" "lo \<le> hi" "0 \<le> r" "n = (hi - lo) div m + 1"
  shows "lo \<le> lo + r mod n * m" "lo + r mod n * m \<le> hi" "m dvd lo + r mod n * m"
proof -
  have "m dvd hi - lo" using assms(3,2) by (rule dvd_diff)
  then have d: "(hi - lo) div m * m = hi - lo" by (rule dvd_div_mult_self)
  have n: "0 < n" using assms(1,4,6) by (simp add: add_nonneg_pos pos_imp_zdiv_nonneg_iff)
  then have "0 \<le> r mod n" "r mod n \<le> n - 1" by (simp_all add: zle_diff1_eq)
  then have "0 \<le> r mod n * m" "r mod n * m \<le> (n - 1) * m" using assms(1) by (simp_all add: mult_right_mono)
  with d assms(6) show "lo \<le> lo + r mod n * m" "lo + r mod n * m \<le> hi" by simp_all
  show "m dvd lo + r mod n * m" using assms(2) by simp
qed

lemma range_body_result:
  assumes "0 \<le> lo" "lo = min a b" "hi = max a b" "0 < m" "hi + m < 2 ^ (w - 1)" "w \<le> 64"
    and "mult_up lo m \<le> mult_down hi m \<Longrightarrow> \<exists>r. draw (mult_up lo m) (mult_down hi m) = Ok r \<and> 0 \<le> r"
  shows "if \<exists>v. m dvd v \<and> lo \<le> v \<and> v \<le> hi
    then \<exists>v. range_body w draw a b m = Ok (v, None) \<and> m dvd v \<and> lo \<le> v \<and> v \<le> hi
    else range_body w draw a b m = Ok (-1, Some (no_mult_mesg a b m))"
proof -
  let ?l = "mult_up lo m" and ?h = "mult_down hi m"
  have ab: "(if b < a then b else a) = lo" "(if b < a then a else b) = hi" using assms(2,3) by auto
  have "lo \<le> hi" using assms(2,3) by simp
  note mb = mult_bounds_value [OF assms(1) this assms(4,5)]
  note ub = mult_up_bounds [OF assms(4), of lo] and db = mult_down_bounds [OF assms(4), of hi]
  have big: "(2::int) ^ (w - 1) \<le> 2 ^ 63" using assms(6) by (intro power_increasing) auto
  show ?thesis
  proof (cases "?l \<le> ?h")
    case True
    obtain r where r: "draw ?l ?h = Ok r" "0 \<le> r" using assms(7) [OF True] by blast
    let ?n = "(?h - ?l) div m + 1"
    have q: "0 \<le> (?h - ?l) div m" "(?h - ?l) div m \<le> ?h - ?l"
      using True assms(4) zdiv_mono2 [of "?h - ?l" 1 m] by (simp_all add: pos_imp_zdiv_nonneg_iff)
    have "0 \<le> (2::int) ^ (w - 1)" by simp
    then have "in_width w (?h - ?l)" "in_width w ?n"
      using q ub(2) db(2) assms(1,4,5) True unfolding in_width_def by linarith+
    then have n: "num_mults w ?l ?h m = Ok ?n"
      using True assms(4) by (simp add: num_mults_def cdiv_nonneg)
    note v = drawn_multiple [OF assms(4) ub(1) db(1) True r(2) refl]
    have "crem r ?n = r mod ?n" using r(2) q by (intro crem_nonneg) auto
    moreover have "(2::int) ^ 63 = 2 ^ (64 - 1)" by simp
    then have "in_width 64 (r mod ?n * m)" "in_width 64 (?l + r mod ?n * m)"
      using v ub(2) db(2) assms(1,4,5) big unfolding in_width_def by linarith+
    ultimately have "range_body w draw a b m = Ok (?l + r mod ?n * m, None)"
      using True mb n r assms(4) unfolding range_body_def Let_def ab by simp
    with v ub(2) db(2) True show ?thesis by (auto simp: multiple_exists [OF assms(4)])
  next
    case False
    then have "range_body w draw a b m = Ok (-1, Some (no_mult_mesg a b m))"
      using mb assms(4) unfolding range_body_def Let_def ab by simp
    with False show ?thesis by (simp add: multiple_exists [OF assms(4)])
  qed
qed

section \<open>Ranges beyond 32 bits\<close>

text \<open>Halving reaches a distance of 2 gigabytes after at most 30 rounds below \<open>2 ^ 61\<close>.\<close>

lemma half_bounds:
  assumes "0 \<le> (d::int)" "d \<le> 2 ^ Suc n"
  shows "0 \<le> d div 2" "d div 2 \<le> 2 ^ n" "d - d div 2 \<le> 2 ^ n"
  using assms by (auto simp: field_simps)

lemma divider_value:
  assumes "k = 30 - cnt" "cnt \<le> 30" "0 \<le> lo" "lo \<le> hi" "hi < 2 ^ 61" "hi - lo \<le> 2 ^ (61 - cnt)" "0 \<le> rnd" "rnd < 2 ^ 31"
  shows "\<exists>r. divider lo hi cnt rnd = Ok r \<and> 0 \<le> r"
  using assms
proof (induction k arbitrary: lo hi cnt)
  case 0
  then have c: "cnt = 30" "hi - lo \<le> 2 ^ Suc 30" by auto
  note h = half_bounds [OF _ c(2)]
  have "cdiv (hi - lo) 2 = (hi - lo) div 2" using 0 by (simp add: cdiv_nonneg)
  moreover have "in_width 64 (hi - lo)" "in_width 64 (lo + rnd)" "in_width 64 (lo + (hi - lo) div 2)"
    "in_width 64 (lo + (hi - lo) div 2 + rnd)" "(hi - lo) div 2 \<le> 2147483647"
    using 0 h unfolding in_width_def by simp_all
  ultimately show ?case
    using 0 h c by (subst divider.simps) (simp add: Let_def)
next
  case (Suc k)
  then have c: "k = 30 - Suc cnt" "Suc cnt \<le> 30" "61 - cnt = Suc (61 - Suc cnt)" by auto
  let ?half = "(hi - lo) div 2"
  let ?med = "lo + ?half"
  have "0 \<le> hi - lo" "hi - lo \<le> 2 ^ Suc (61 - Suc cnt)" using Suc.prems c(3) by simp_all
  note h = half_bounds [OF this]
  have e: "cdiv (hi - lo) 2 = ?half" using Suc.prems by (simp add: cdiv_nonneg)
  have "hi - ?med \<le> 2 ^ (61 - Suc cnt)" "?med - lo \<le> 2 ^ (61 - Suc cnt)" "0 \<le> ?med" "lo \<le> ?med" "?med \<le> hi"
    using h Suc.prems(3,4) by linarith+
  then have ih: "\<exists>r. divider ?med hi (Suc cnt) rnd = Ok r \<and> 0 \<le> r" "\<exists>r. divider lo ?med (Suc cnt) rnd = Ok r \<and> 0 \<le> r"
    using Suc.IH [OF c(1,2)] Suc.prems by auto
  have "in_width 64 (hi - lo)" "in_width 64 (lo + rnd)" "in_width 64 ?med" "in_width 64 (?med + rnd)"
    using Suc.prems \<open>?med \<le> hi\<close> \<open>0 \<le> ?med\<close> unfolding in_width_def by simp_all
  with e ih Suc.prems(2,3,7) c \<open>0 \<le> ?med\<close> show ?case
    by (subst divider.simps) (simp add: Let_def)
qed

section \<open>A random bit\<close>

text \<open>The bits of a mask from position \<open>n\<close> on, and the loop that shifts them out.\<close>

lemma random_bit_loop_0: "random_bit_loop 0 m n = Some n"
  by (subst random_bit_loop.simps) simp

lemma random_bit_loop_step:
  "b \<noteq> 0 \<Longrightarrow> random_bit_loop b m n = random_bit_loop (if odd m then b - 1 else b) (m div 2) (n + 1)"
  by (subst random_bit_loop.simps) simp

lemma filter_bit_Suc: "length (filter (bit (m::int)) [0..<Suc k]) =
  (if odd m then 1 else 0) + length (filter (bit (m div 2)) [0..<k])"
proof -
  have "[0..<Suc k] = 0 # map Suc [0..<k]" by (metis map_Suc_upt upt_conv_Cons zero_less_Suc)
  moreover have "filter (bit m) (map Suc [0..<k]) = map Suc (filter (bit (m div 2)) [0..<k])"
    by (simp add: filter_map comp_def bit_Suc)
  ultimately show ?thesis by (simp add: bit_0)
qed

lemma random_bit_loop_value:
  assumes "0 < b" "b \<le> int (length (filter (bit m) [0..<k]))"
  shows "\<exists>j < k. bit m j \<and> random_bit_loop b m n = Some (n + Suc j)"
  using assms
proof (induction k arbitrary: b m n)
  case 0
  then show ?case by simp
next
  case (Suc k)
  let ?b = "if odd m then b - 1 else b"
  have le: "?b \<le> int (length (filter (bit (m div 2)) [0..<k]))"
    using Suc.prems(2) unfolding filter_bit_Suc by (auto split: if_splits)
  have step: "random_bit_loop b m n = random_bit_loop ?b (m div 2) (n + 1)"
    using Suc.prems(1) by (simp add: random_bit_loop_step)
  show ?case
  proof (cases "?b = 0")
    case True
    then have "odd m" using Suc.prems(1) by (auto split: if_splits)
    with step True show ?thesis by (intro exI [of _ 0]) (auto simp: random_bit_loop_0 bit_0)
  next
    case False
    then obtain j where "j < k" "bit (m div 2) j" "random_bit_loop ?b (m div 2) (n + 1) = Some (n + 1 + Suc j)"
      using Suc.IH [of ?b "m div 2" "n + 1"] Suc.prems(1) le by (auto split: if_splits)
    with step show ?thesis by (intro exI [of _ "Suc j"]) (auto simp: bit_Suc)
  qed
qed

lemma count_bits_pos:
  assumes "m \<noteq> 0" "in_width 64 m"
  shows "0 < count_bits m"
proof (rule ccontr)
  assume "\<not> 0 < count_bits m"
  then have "\<forall>k < 64. \<not> bit m k" by (auto simp: count_bits_def filter_empty_conv)
  then have "take_bit 64 m = 0" by (intro bit_eqI) (auto simp: bit_take_bit_iff)
  then have "m mod 2 ^ 64 = 0" by (simp add: take_bit_eq_mod)
  then obtain q where "m = 2 ^ 64 * q" by (auto dest!: mod_0_imp_dvd elim!: dvdE)
  moreover have "\<bar>q\<bar> \<ge> 1" using \<open>m = 2 ^ 64 * q\<close> assms(1) by auto
  ultimately show False using assms(2) by (auto simp: in_width_def)
qed

lemma count_bits_le: "count_bits m \<le> 64"
  using length_filter_le [of "bit m" "[0..<64]"] by (simp add: count_bits_def)

section \<open>Properties\<close>



text \<open>
  Below zero the range is missed. With both ends negative the remainder of C has the wrong
  sign for the adjustment: for the range from -7 to -5 and multiples of 3, \<^verbatim>\<open>random_range\<close>
  returns -3 for every random number, although -6 is in the range and -3 is not.
\<close>

lemma random_range_negative:
  assumes "0 \<le> rnd"
  shows "random_range rnd (-7) (-5) 3 = Ok (-3, None)"
  using assms
  by (simp add: random_range_def range_body_def mult_bounds_def num_mults_def checked_def in_width_def
      signed_modulo_int_def signed_divide_int_def)

text \<open>
  \<^verbatim>\<open>random_bit\<close> returns one of the bits of its mask: for every 64-bit mask other than 0 its
  search loop ends and the bit it returns is set in the mask.
\<close>

lemma random_bit_set:
  assumes "m \<noteq> 0" "in_width 64 m" "0 \<le> rnd" "rnd < 2 ^ 31"
  shows "\<exists>k < 64. random_bit rnd m = Ok (Some k) \<and> bit m k"
proof -
  let ?n = "int (count_bits m)"
  have n: "1 \<le> ?n" "?n \<le> 64" using count_bits_pos [OF assms(1,2)] count_bits_le [of m] by auto
  have "\<exists>v. random_range rnd 1 ?n 1 = Ok (v, None) \<and> 1 \<le> v \<and> v \<le> ?n"
    using range_body_result [of 1 1 ?n ?n 1 32 "\<lambda>lo hi. Ok rnd"] n assms(3)
    unfolding random_range_def by (auto split: if_splits)
  then obtain v where v: "random_range rnd 1 ?n 1 = Ok (v, None)" "0 < v" "v \<le> ?n" by auto
  obtain j where "j < 64" "bit m j" "random_bit_loop v m 0 = Some (Suc j)"
    using random_bit_loop_value [OF v(2) v(3) [unfolded count_bits_def], of 0] by auto
  with v(1) assms(1) show ?thesis by (simp add: random_bit_def)
qed

end
