(* ===== verification/Symbol.thy ===== *)
theory Symbol
  imports Splitstr
begin

text \<open>
  \<^verbatim>\<open>pan/symbol.c\<close>: the symbol table of the report tools, a hierarchy of linked lists whose keys
  are words joined by commas.

  The C code works on pointers, and its callers share them with it, so the model has an explicit
  store: a map from addresses to the three kinds of blocks the code allocates. Address 0 is NULL.
  Reading a block that is not there, or one of another kind, is a fault. Addresses are not used
  again after \<^verbatim>\<open>free\<close>, so any use of a freed block is a fault too. The number of allocations that
  still succeed is part of the store.
\<close>

section \<open>Definitions\<close>

text \<open>
  A \<^verbatim>\<open>struct symh\<close> (\<^verbatim>\<open>sym\<close>, \<^verbatim>\<open>cursor\<close>; the \<^verbatim>\<open>magic\<close> number is what makes the block a header), a
  \<^verbatim>\<open>struct sym\<close> (\<^verbatim>\<open>next\<close>, \<^verbatim>\<open>key\<close>, \<^verbatim>\<open>data\<close>) and a string.
\<close>

datatype scell = Hdr nat nat | Nod nat nat nat | Txt cstr

record symmem =
  cells :: "nat \<Rightarrow> scell option"
  brk :: nat
  room :: nat

definition salloc :: "scell \<Rightarrow> symmem \<Rightarrow> nat \<times> symmem" where
  "salloc c m =
     (if room m = 0 then (0, m)
      else (brk m, m\<lparr>cells := (cells m)(brk m \<mapsto> c), brk := brk m + 1, room := room m - 1\<rparr>))"

definition sfree :: "nat \<Rightarrow> symmem \<Rightarrow> symmem outcome" where
  "sfree a m =
     (if a = 0 then Ok m
      else if cells m a = None then Fault
      else Ok (m\<lparr>cells := (cells m)(a := None)\<rparr>))"

definition sstore :: "nat \<Rightarrow> scell \<Rightarrow> symmem \<Rightarrow> symmem" where
  "sstore a c m = m\<lparr>cells := (cells m)(a \<mapsto> c)\<rparr>"

definition hdr :: "symmem \<Rightarrow> nat \<Rightarrow> (nat \<times> nat) outcome" where
  "hdr m a = (case cells m a of Some (Hdr s c) \<Rightarrow> if a = 0 then Fault else Ok (s, c) | _ \<Rightarrow> Fault)"

definition nod :: "symmem \<Rightarrow> nat \<Rightarrow> (nat \<times> nat \<times> nat) outcome" where
  "nod m a = (case cells m a of Some (Nod n k d) \<Rightarrow> if a = 0 then Fault else Ok (n, k, d) | _ \<Rightarrow> Fault)"

definition txt_at :: "symmem \<Rightarrow> nat \<Rightarrow> cstr outcome" where
  "txt_at m a = (case cells m a of Some (Txt s) \<Rightarrow> if a = 0 then Fault else Ok s | _ \<Rightarrow> Fault)"

text \<open>
  \<^verbatim>\<open>((SYM) p)->magic == SYM_MAGIC\<close> for a pointer that may be a table or a string. The number is
  0x0badc0de; it has no zero byte, so a string shorter than four characters differs from it
  at its NUL at the latest, whatever lies behind it.
\<close>

definition magic_bytes :: cstr where
  "magic_bytes = [CHR 0xDE, CHR 0xC0, CHR 0xAD, CHR 0x0B]"

definition is_magic :: "symmem \<Rightarrow> nat \<Rightarrow> bool outcome" where
  "is_magic m a =
     (if a = 0 then Fault
      else case cells m a of
             Some (Hdr s c) \<Rightarrow> Ok True
           | Some (Txt s) \<Rightarrow> Ok (take 4 s = magic_bytes)
           | _ \<Rightarrow> Fault)"

definition newsym :: "symmem \<Rightarrow> nat \<times> symmem" where
  "newsym m = salloc (Hdr 0 0) m"

definition mknode :: "nat \<Rightarrow> cstr \<Rightarrow> nat \<Rightarrow> symmem \<Rightarrow> nat \<times> symmem" where
  "mknode nx key data m =
     (let (n, m1) = salloc (Nod nx 0 data) m
      in if n = 0 then (0, m1)
         else
           (let (k, m2) = salloc (Txt key) m1
            in if k = 0 then (0, m2\<lparr>cells := (cells m2)(n := None)\<rparr>)
               else (n, sstore n (Nod nx k data) m2)))"

text \<open>
  The two walks along \<^verbatim>\<open>next\<close>. Their first argument bounds the number of nodes; the callers pass
  the number of addresses ever given out, which no list without a cycle exceeds, so that running
  out of it stands for a walk that does not end.
\<close>

fun find_key1 :: "nat \<Rightarrow> symmem \<Rightarrow> nat \<Rightarrow> cstr \<Rightarrow> nat outcome" where
  "find_key1 0 m s key = (if s = 0 then Ok 0 else Fault)"
| "find_key1 (Suc f) m s key =
     (if s = 0 then Ok 0
      else bind_outcome (nod m s) (\<lambda>(nx, kp, d).
           bind_outcome (txt_at m kp) (\<lambda>t. if t = key then Ok s else find_key1 f m nx key)))"

fun last_node :: "nat \<Rightarrow> symmem \<Rightarrow> nat \<Rightarrow> nat outcome" where
  "last_node 0 m s = Fault"
| "last_node (Suc f) m s =
     bind_outcome (nod m s) (\<lambda>(nx, kp, d). if nx = 0 then Ok s else last_node f m nx)"

text \<open>A failing \<^verbatim>\<open>assert\<close> ends the process by SIGABRT.\<close>

definition add_key :: "symmem \<Rightarrow> nat \<Rightarrow> cstr \<Rightarrow> nat \<Rightarrow> (int \<times> symmem) outcome" where
  "add_key m tb key data =
     bind_outcome (hdr m tb) (\<lambda>(s, c).
       if s = 0 then
         (let (n, m1) = mknode 0 key data m
          in Ok (if n = 0 then -1 else 0, sstore tb (Hdr n c) m1))
       else
         bind_outcome (last_node (brk m) m s) (\<lambda>sn.
         bind_outcome (nod m sn) (\<lambda>(nx, kp, d).
           (let (n, m1) = mknode 0 key data m
            in if n = 0 then Exit 134 else Ok (0, sstore sn (Nod n kp d) m1)))))"

definition sym_open :: "symmem \<Rightarrow> nat \<times> symmem" where
  "sym_open m = newsym m"

text \<open>
  The search loop that \<^verbatim>\<open>sym_put\<close> and \<^verbatim>\<open>sym_get\<close> share. It ends at the node of the complete key
  (NULL if there was no key word at all), at the first word that is missing, or at a word whose
  data is not a table.
\<close>

datatype walk = Found nat | Missing nat "cstr list" | NotDir

fun sym_walk :: "symmem \<Rightarrow> nat \<Rightarrow> nat \<Rightarrow> cstr list \<Rightarrow> walk outcome" where
  "sym_walk m csym nsym [] = Ok (Found nsym)"
| "sym_walk m csym nsym (k # ks) =
     bind_outcome (hdr m csym) (\<lambda>(s, c).
     bind_outcome (find_key1 (brk m) m s k) (\<lambda>n.
       if n = 0 then Ok (Missing csym (k # ks))
       else if ks = [] then Ok (Found n)
       else bind_outcome (nod m n) (\<lambda>(nx, kp, d).
         if d = 0 then Ok NotDir
         else bind_outcome (is_magic m d) (\<lambda>b. if \<not> b then Ok NotDir else sym_walk m d n ks))))"

text \<open>The loop of \<^verbatim>\<open>sym_put\<close> that adds the missing words; the results of \<^verbatim>\<open>add_key\<close> are not looked at.\<close>

fun sym_create :: "symmem \<Rightarrow> nat \<Rightarrow> cstr list \<Rightarrow> nat \<Rightarrow> symmem outcome" where
  "sym_create m csym [] data = Ok m"
| "sym_create m csym [k] data = bind_outcome (add_key m csym k data) (\<lambda>(r, m1). Ok m1)"
| "sym_create m csym (k # k' # ks) data =
     (let (h, m0) = newsym m
      in bind_outcome (add_key m0 csym k h) (\<lambda>(r, m1). sym_create m1 h (k' # ks) data))"

definition PUT_REPLACE :: int where "PUT_REPLACE = 1"

definition put_act :: "nat \<Rightarrow> int \<Rightarrow> symmem \<Rightarrow> walk \<Rightarrow> (int \<times> symmem) outcome" where
  "put_act data flags m w = (case w of
       NotDir \<Rightarrow> Ok (ENOTDIR, m)
     | Found n \<Rightarrow>
         if flags = PUT_REPLACE
         then bind_outcome (nod m n) (\<lambda>(nx, kp, d). Ok (0, sstore n (Nod nx kp data) m))
         else Ok (EEXIST, m)
     | Missing b ks \<Rightarrow> bind_outcome (sym_create m b ks data) (\<lambda>m1. Ok (0, m1)))"

text \<open>
  Every way out behind the split of the key runs \<^verbatim>\<open>splitstr_free\<close>, which faults for a key that
  starts with a comma.
\<close>

definition sym_put ::
    "mem_env \<Rightarrow> symmem \<Rightarrow> nat \<Rightarrow> cstr \<Rightarrow> nat \<Rightarrow> int \<Rightarrow> (int \<times> symmem) outcome"
where
  "sym_put me m tb key data flags =
     (if tb = 0 then Ok (EINVAL, m)
      else bind_outcome (splitstr me (Some key) (Some '','')) (\<lambda>(keys, cnt).
        case keys of
          None \<Rightarrow> Ok (EINVAL, m)
        | Some arr \<Rightarrow>
            bind_outcome (sym_walk m tb 0 (argv_of arr)) (\<lambda>w.
            bind_outcome (put_act data flags m w) (\<lambda>r.
            bind_outcome (splitstr_free keys) (\<lambda>b. Ok r)))))"

definition sym_get :: "mem_env \<Rightarrow> symmem \<Rightarrow> nat \<Rightarrow> cstr \<Rightarrow> nat outcome" where
  "sym_get me m tb key =
     (if tb = 0 then Ok 0
      else bind_outcome (splitstr me (if strdup_ok me then Some key else None) (Some '','')) (\<lambda>(keys, cnt).
        case keys of
          None \<Rightarrow> Ok 0
        | Some arr \<Rightarrow>
            bind_outcome (sym_walk m tb 0 (argv_of arr)) (\<lambda>w.
            bind_outcome (splitstr_free keys) (\<lambda>b.
              case w of
                Found n \<Rightarrow> bind_outcome (nod m n) (\<lambda>(nx, kp, d). Ok d)
              | _ \<Rightarrow> Ok 0))))"

text \<open>
  \<^verbatim>\<open>sym_seq\<close>: the returned code, the new store, and what \<^verbatim>\<open>key->data\<close> and \<^verbatim>\<open>data->data\<close> are set to
  when the code is 0. \<^verbatim>\<open>R_LAST\<close> and \<^verbatim>\<open>R_PREV\<close> are refused by the code.
\<close>

datatype seq_flag = R_CURSOR | R_FIRST | R_NEXT | R_LAST | R_PREV

definition set_cursor :: "symmem \<Rightarrow> nat \<Rightarrow> nat \<Rightarrow> (int \<times> symmem \<times> nat \<times> nat) outcome" where
  "set_cursor m tb cur =
     bind_outcome (hdr m tb) (\<lambda>(s, c).
       (let m1 = sstore tb (Hdr s cur) m
        in if cur = 0 then Ok (1, m1, 0, 0)
           else bind_outcome (nod m1 cur) (\<lambda>(nx, kp, d). Ok (0, m1, kp, d))))"

definition sym_seq ::
    "mem_env \<Rightarrow> symmem \<Rightarrow> nat \<Rightarrow> cstr \<Rightarrow> seq_flag \<Rightarrow> (int \<times> symmem \<times> nat \<times> nat) outcome"
where
  "sym_seq me m tb key flags = (case flags of
       R_CURSOR \<Rightarrow>
         bind_outcome (sym_get me m tb key) (\<lambda>csym.
           if csym = 0 then Ok (2, m, 0, 0)
           else bind_outcome (is_magic m csym) (\<lambda>b.
             if \<not> b then Ok (2, m, 0, 0)
             else bind_outcome (hdr m csym) (\<lambda>(s, c). set_cursor m tb s)))
     | R_FIRST \<Rightarrow> bind_outcome (hdr m tb) (\<lambda>(s, c). set_cursor m tb s)
     | R_NEXT \<Rightarrow>
         bind_outcome (hdr m tb) (\<lambda>(s, c).
           if c = 0 then Ok (1, m, 0, 0)
           else bind_outcome (nod m c) (\<lambda>(nx, kp, d). set_cursor m tb nx))
     | _ \<Rightarrow> Ok (-1, m, 0, 0))"

text \<open>
  \<^verbatim>\<open>sym_dump\<close> and \<^verbatim>\<open>sym_rm\<close> descend into the data of every node. The first argument bounds the
  length of a chain of nested calls and loop rounds.
\<close>

fun sym_dump_f :: "nat \<Rightarrow> symmem \<Rightarrow> nat \<Rightarrow> nat \<Rightarrow> (int \<times> cstr) outcome"
  and dump_nodes :: "nat \<Rightarrow> symmem \<Rightarrow> nat \<Rightarrow> nat \<Rightarrow> cstr outcome"
where
  "sym_dump_f f m a depth =
     (case f of 0 \<Rightarrow> Fault
      | Suc f' \<Rightarrow>
        if a = 0 then Ok (-1, [])
        else bind_outcome (is_magic m a) (\<lambda>b.
          if \<not> b then Ok (-1, [])
          else bind_outcome (hdr m a) (\<lambda>(s, c).
               bind_outcome (dump_nodes f' m s depth) (\<lambda>out. Ok (0, out)))))"
| "dump_nodes f m se depth =
     (case f of 0 \<Rightarrow> if se = 0 then Ok [] else Fault
      | Suc f' \<Rightarrow>
        if se = 0 then Ok []
        else bind_outcome (nod m se) (\<lambda>(nx, kp, d).
             bind_outcome (txt_at m kp) (\<lambda>key.
             bind_outcome (sym_dump_f f' m d (depth + 1)) (\<lambda>(r, sub).
             bind_outcome (dump_nodes f' m nx depth) (\<lambda>rest.
               Ok (concat (replicate depth [CHR 0x22, CHR '' '']) @ key @ [newline] @ sub @ rest))))))"

definition sym_dump :: "symmem \<Rightarrow> nat \<Rightarrow> nat \<Rightarrow> (int \<times> cstr) outcome" where
  "sym_dump m tb depth = sym_dump_f (2 * brk m + 2) m tb depth"

text \<open>The two flags of \<^verbatim>\<open>sym_rm\<close>, \<^verbatim>\<open>RM_KEY\<close> and \<^verbatim>\<open>RM_DATA\<close>, as truth values.\<close>

fun sym_rm_f :: "nat \<Rightarrow> bool \<Rightarrow> bool \<Rightarrow> nat \<Rightarrow> symmem \<Rightarrow> symmem outcome"
  and rm_nodes :: "nat \<Rightarrow> bool \<Rightarrow> bool \<Rightarrow> nat \<Rightarrow> symmem \<Rightarrow> symmem outcome"
where
  "sym_rm_f f rm_key rm_data a m =
     (case f of 0 \<Rightarrow> Fault
      | Suc f' \<Rightarrow>
        if a = 0 then Ok m
        else bind_outcome (is_magic m a) (\<lambda>b.
          if \<not> b then (if rm_data then Ok m else sfree a m)
          else bind_outcome (hdr m a) (\<lambda>(s, c).
               bind_outcome (rm_nodes f' rm_key rm_data s m) (\<lambda>m1.
                 if rm_data then Ok m1 else sfree a m1))))"
| "rm_nodes f rm_key rm_data se m =
     (case f of 0 \<Rightarrow> if se = 0 then Ok m else Fault
      | Suc f' \<Rightarrow>
        if se = 0 then Ok m
        else bind_outcome (nod m se) (\<lambda>(nx, kp, d).
             bind_outcome (sym_rm_f f' rm_key rm_data d m) (\<lambda>m1.
             bind_outcome (nod m1 se) (\<lambda>(nse, kp', d').
             bind_outcome (if rm_key then sfree kp' m1 else Ok m1) (\<lambda>m2.
             bind_outcome (if rm_data then sfree d' m2 else Ok m2) (\<lambda>m3.
             bind_outcome (sfree se m3) (\<lambda>m4. rm_nodes f' rm_key rm_data nse m4)))))))"

definition sym_rm :: "bool \<Rightarrow> bool \<Rightarrow> nat \<Rightarrow> symmem \<Rightarrow> symmem outcome" where
  "sym_rm rm_key rm_data tb m = sym_rm_f (2 * brk m + 2) rm_key rm_data tb m"

declare sym_dump_f.simps [simp del] dump_nodes.simps [simp del]
  sym_rm_f.simps [simp del] rm_nodes.simps [simp del]

end
