(* ===== verification/Symbol_Tree.thy ===== *)
theory Symbol_Tree
  imports Symbol
begin

text \<open>
  What the symbol table of \<^verbatim>\<open>pan/symbol.c\<close> represents. A tree whose tables and entries carry the
  addresses of their blocks determines the contents of these blocks, its layout; a store
  represents the tree if it holds the layout. The operations on the store are shown to be
  operations on trees, and the laws of a hierarchical table follow for them.
\<close>

section \<open>Trees and their layout\<close>

text \<open>
  A leaf is a data pointer that is not a table; a table has the address of its header, its cursor
  and its entries; an entry has the addresses of its node and of its key.
\<close>

datatype stree = Leaf nat | Tab nat nat sents
  and sents = SNil | SCons nat nat cstr stree sents

fun dptr :: "stree \<Rightarrow> nat" where
  "dptr (Leaf p) = p"
| "dptr (Tab a c es) = a"

fun first :: "sents \<Rightarrow> nat" where
  "first SNil = 0"
| "first (SCons n ka k t es) = n"

primrec layout :: "stree \<Rightarrow> (nat \<times> scell) list" and layouts :: "sents \<Rightarrow> (nat \<times> scell) list" where
  "layout (Leaf p) = []"
| "layout (Tab a c es) = (a, Hdr (first es) c) # layouts es"
| "layouts SNil = []"
| "layouts (SCons n ka k t es) = (n, Nod (first es) ka (dptr t)) # (ka, Txt k) # layout t @ layouts es"

primrec leaves :: "stree \<Rightarrow> nat list" and leavess :: "sents \<Rightarrow> nat list" where
  "leaves (Leaf p) = [p]"
| "leaves (Tab a c es) = leavess es"
| "leavess SNil = []"
| "leavess (SCons n ka k t es) = leaves t @ leavess es"

abbreviation addrs :: "stree \<Rightarrow> nat list" where
  "addrs t \<equiv> map fst (layout t)"

abbreviation addrss :: "sents \<Rightarrow> nat list" where
  "addrss es \<equiv> map fst (layouts es)"

text \<open>A store holds a list of blocks: they are there, at different addresses that were given out.\<close>

definition holds :: "symmem \<Rightarrow> (nat \<times> scell) list \<Rightarrow> bool" where
  "holds m L \<longleftrightarrow> distinct (map fst L) \<and> (\<forall>(a, c) \<in> set L. cells m a = Some c) \<and>
     (\<forall>a \<in> fst ` set L. 0 < a \<and> a < brk m)"

definition leaf_ok :: "symmem \<Rightarrow> nat \<Rightarrow> bool" where
  "leaf_ok m p \<longleftrightarrow> p = 0 \<or> (\<exists>s. cells m p = Some (Txt s) \<and> take 4 s \<noteq> magic_bytes)"

definition mem_ok :: "symmem \<Rightarrow> bool" where
  "mem_ok m \<longleftrightarrow> 0 < brk m \<and> (\<forall>a. cells m a \<noteq> None \<longrightarrow> 0 < a \<and> a < brk m)"

definition rep :: "symmem \<Rightarrow> stree \<Rightarrow> bool" where
  "rep m t \<longleftrightarrow> mem_ok m \<and> holds m (layout t) \<and> (\<forall>p \<in> set (leaves t). leaf_ok m p)"

definition reps :: "symmem \<Rightarrow> sents \<Rightarrow> bool" where
  "reps m es \<longleftrightarrow> mem_ok m \<and> holds m (layouts es) \<and> (\<forall>p \<in> set (leavess es). leaf_ok m p)"

section \<open>The operations on trees\<close>

fun sfind :: "sents \<Rightarrow> cstr \<Rightarrow> (nat \<times> nat \<times> nat \<times> stree) option" where
  "sfind SNil key = None"
| "sfind (SCons n ka k t es) key = (if k = key then Some (n, first es, ka, t) else sfind es key)"

fun sput :: "sents \<Rightarrow> cstr \<Rightarrow> stree \<Rightarrow> sents" where
  "sput SNil key u = SNil"
| "sput (SCons n ka k t es) key u =
     (if k = key then SCons n ka k u es else SCons n ka k t (sput es key u))"

fun sapp :: "sents \<Rightarrow> sents \<Rightarrow> sents" where
  "sapp SNil es' = es'"
| "sapp (SCons n ka k t es) es' = SCons n ka k t (sapp es es')"

text \<open>The entry made for missing key words, at addresses from \<open>n\<close> on.\<close>

fun chain :: "nat \<Rightarrow> cstr list \<Rightarrow> nat \<Rightarrow> sents" where
  "chain n [] d = SNil"
| "chain n [k] d = SCons n (n + 1) k (Leaf d) SNil"
| "chain n (k # k' # ks) d = SCons (n + 1) (n + 2) k (Tab n 0 (chain (n + 3) (k' # ks) d)) SNil"

fun tget :: "stree \<Rightarrow> cstr list \<Rightarrow> stree option" where
  "tget t [] = Some t"
| "tget (Leaf p) (k # ks) = None"
| "tget (Tab a c es) (k # ks) = (case sfind es k of None \<Rightarrow> None | Some (n, nx, ka, u) \<Rightarrow> tget u ks)"

fun tput :: "nat \<Rightarrow> bool \<Rightarrow> nat \<Rightarrow> stree \<Rightarrow> cstr list \<Rightarrow> int \<times> stree" where
  "tput f repl d t [] = (if repl then (0, Leaf d) else (EEXIST, t))"
| "tput f repl d (Leaf p) (k # ks) = (ENOTDIR, Leaf p)"
| "tput f repl d (Tab a c es) (k # ks) = (case sfind es k of
       None \<Rightarrow> (0, Tab a c (sapp es (chain f (k # ks) d)))
     | Some (n, nx, ka, u) \<Rightarrow> (case tput f repl d u ks of (rc, u') \<Rightarrow> (rc, Tab a c (sput es k u'))))"

text \<open>The number of blocks a put allocates.\<close>

fun need :: "stree \<Rightarrow> cstr list \<Rightarrow> nat" where
  "need t [] = 0"
| "need (Leaf p) (k # ks) = 0"
| "need (Tab a c es) (k # ks) = (case sfind es k of
       None \<Rightarrow> 3 * length (k # ks) - 1
     | Some (n, nx, ka, u) \<Rightarrow> need u ks)"

section \<open>Reading\<close>

lemma holds_append:
  "holds m (A @ B) \<longleftrightarrow> holds m A \<and> holds m B \<and> fst ` set A \<inter> fst ` set B = {}"
  by (auto simp: holds_def)

lemma holds_Cons:
  "holds m ((a, c) # B) \<longleftrightarrow> cells m a = Some c \<and> 0 < a \<and> a < brk m \<and> a \<notin> fst ` set B \<and> holds m B"
  by (auto simp: holds_def)

lemma rep_Tab:
  "rep m (Tab a c es) \<longleftrightarrow> reps m es \<and> cells m a = Some (Hdr (first es) c) \<and> 0 < a \<and> a < brk m \<and> a \<notin> set (addrss es)"
  by (auto simp: rep_def reps_def holds_Cons)

lemma reps_SNil [simp]: "reps m SNil \<longleftrightarrow> mem_ok m"
  by (simp add: reps_def holds_def)

lemma reps_SCons:
  "reps m (SCons n ka k t es) \<longleftrightarrow> cells m n = Some (Nod (first es) ka (dptr t)) \<and> cells m ka = Some (Txt k) \<and>
     0 < n \<and> n < brk m \<and> 0 < ka \<and> ka < brk m \<and> n \<noteq> ka \<and>
     n \<notin> set (addrs t) \<and> n \<notin> set (addrss es) \<and> ka \<notin> set (addrs t) \<and> ka \<notin> set (addrss es) \<and>
     set (addrs t) \<inter> set (addrss es) = {} \<and> rep m t \<and> reps m es"
  by (auto simp: rep_def reps_def holds_Cons holds_append)

lemma hdr_Tab: "rep m (Tab a c es) \<Longrightarrow> hdr m a = Ok (first es, c)"
  by (simp add: rep_Tab hdr_def)

lemma sents_induct [case_names SNil SCons]:
  assumes "P SNil" "\<And>n ka k t es. P es \<Longrightarrow> P (SCons n ka k t es)"
  shows "P es"
  by (rule sents.induct [of "\<lambda>_. True" P]) (auto intro: assms)

fun sents_len :: "sents \<Rightarrow> nat" where
  "sents_len SNil = 0"
| "sents_len (SCons n ka k t es) = Suc (sents_len es)"

lemma distinct_below: "distinct xs \<Longrightarrow> \<forall>x \<in> set xs. x < n \<Longrightarrow> length xs \<le> n"
  for xs :: "nat list"
  using card_mono [of "{..<n}" "set xs"] distinct_card [of xs] by auto

lemma sents_len_layouts: "sents_len es \<le> length (layouts es)"
  by (induction es rule: sents_induct) auto

lemma sents_len_brk: "reps m es \<Longrightarrow> sents_len es \<le> brk m"
  using distinct_below [of "addrss es" "brk m"] sents_len_layouts [of es]
  by (auto simp: reps_def holds_def)

lemma first_0: "reps m es \<Longrightarrow> first es = 0 \<longleftrightarrow> es = SNil"
  by (cases es) (auto simp: reps_SCons)

lemma find_key1_sents:
  assumes "reps m es" "sents_len es \<le> f"
  shows "find_key1 f m (first es) key = Ok (case sfind es key of None \<Rightarrow> 0 | Some (n, nx, ka, u) \<Rightarrow> n)"
  using assms
proof (induction es arbitrary: f rule: sents_induct)
  case SNil
  then show ?case by (cases f) auto
next
  case (SCons n ka k t es)
  then obtain f' where "f = Suc f'" by (cases f) auto
  with SCons show ?case by (auto simp: reps_SCons nod_def txt_at_def)
qed

lemma find_key1_brk:
  "reps m es \<Longrightarrow> find_key1 (brk m) m (first es) key =
     Ok (case sfind es key of None \<Rightarrow> 0 | Some (n, nx, ka, u) \<Rightarrow> n)"
  by (simp add: find_key1_sents sents_len_brk)

lemma sfind_Some:
  "reps m es \<Longrightarrow> sfind es key = Some (n, nx, ka, u) \<Longrightarrow>
     cells m n = Some (Nod nx ka (dptr u)) \<and> 0 < n \<and> n < brk m \<and> rep m u \<and> n \<notin> set (addrs u) \<and>
     n \<in> set (addrss es) \<and> set (addrs u) \<subseteq> set (addrss es)"
  by (induction es rule: sents_induct) (auto simp: reps_SCons split: if_splits)

lemma is_magic_rep: "rep m t \<Longrightarrow> dptr t \<noteq> 0 \<Longrightarrow> is_magic m (dptr t) = Ok (\<exists>a c es. t = Tab a c es)"
  by (cases t) (auto simp: rep_Tab is_magic_def, auto simp: rep_def leaf_ok_def)

text \<open>
  The search of a key that is not empty: at the node of the entry if the tree has one at this
  path, and otherwise at no node.
\<close>

lemma walk_get:
  assumes "rep m (Tab a c es)" "ks \<noteq> []"
  shows "\<exists>w. sym_walk m a n0 ks = Ok w \<and>
    (case tget (Tab a c es) ks of
       Some u \<Rightarrow> \<exists>n nx kp. w = Found n \<and> nod m n = Ok (nx, kp, dptr u)
     | None \<Rightarrow> \<forall>n. w \<noteq> Found n)"
  using assms
proof (induction ks arbitrary: a c es n0)
  case Nil
  then show ?case by simp
next
  case (Cons k ks)
  from Cons.prems(1) have es: "reps m es" by (simp add: rep_Tab)
  show ?case
  proof (cases "sfind es k")
    case None
    with es Cons.prems(1) show ?thesis by (simp add: hdr_Tab find_key1_brk)
  next
    case (Some q)
    then obtain n nx ka u where q: "sfind es k = Some (n, nx, ka, u)" by (cases q) auto
    from sfind_Some [OF es q] have n: "nod m n = Ok (nx, ka, dptr u)" "0 < n" "rep m u"
      by (auto simp: nod_def)
    show ?thesis
    proof (cases "ks = []")
      case True
      with q n es Cons.prems(1) show ?thesis by (simp add: hdr_Tab find_key1_brk)
    next
      case False
      then obtain k' ks' where ks: "ks = k' # ks'" by (cases ks) auto
      show ?thesis
      proof (cases u)
        case (Leaf p)
        with q n es ks Cons.prems(1) is_magic_rep [OF n(3)] show ?thesis
          by (auto simp: hdr_Tab find_key1_brk)
      next
        case (Tab a' c' es')
        with n(3) have "a' \<noteq> 0" by (simp add: rep_Tab)
        with q n es ks Tab Cons.prems(1) is_magic_rep [OF n(3)] Cons.IH [of a' c' es' n] show ?thesis
          by (simp add: hdr_Tab find_key1_brk)
      qed
    qed
  qed
qed

section \<open>Writing\<close>

text \<open>Blocks that the store already holds can be written again.\<close>

lemma absorb:
  assumes "holds m P" "fst ` set P \<inter> fst ` set R = {}"
  shows "cells m ++ map_of (P @ R) = cells m ++ map_of R" "cells m ++ map_of (R @ P) = cells m ++ map_of R"
proof -
  have P: "cells m x = Some y" if "map_of P x = Some y" for x y
    using that assms(1) by (auto simp: holds_def dest!: map_of_SomeD)
  have R: "map_of R x = None" if "map_of P x = Some y" for x y
  proof -
    from that have "x \<in> fst ` set P" by (auto dest!: map_of_SomeD intro: rev_image_eqI)
    with assms(2) show ?thesis by (auto simp: map_of_eq_None_iff)
  qed
  show "cells m ++ map_of (P @ R) = cells m ++ map_of R" "cells m ++ map_of (R @ P) = cells m ++ map_of R"
    using P R by (auto simp: map_add_def fun_eq_iff split: option.splits)
qed

lemma first_sapp: "first (sapp es es') = (if es = SNil then first es' else first es)"
  by (cases es) auto

text \<open>Linking an entry behind the last one.\<close>

lemma last_node_sents:
  assumes "reps m es" "es \<noteq> SNil" "sents_len es \<le> f" "set (addrss es) \<inter> set (addrss e) = {}"
  shows "\<exists>l kl dl. last_node f m (first es) = Ok l \<and> cells m l = Some (Nod 0 kl dl) \<and> 0 < l \<and> l \<in> set (addrss es) \<and>
    cells m ++ map_of (layouts (sapp es e)) = (cells m ++ map_of (layouts e))(l \<mapsto> Nod (first e) kl dl)"
  using assms
proof (induction es arbitrary: f rule: sents_induct)
  case SNil
  then show ?case by simp
next
  case (SCons n ka k t es)
  then obtain f' where f: "f = Suc f'" by (cases f) auto
  from SCons.prems(1) have n: "nod m n = Ok (first es, ka, dptr t)" "0 < n" "reps m es"
    by (simp_all add: reps_SCons nod_def)
  let ?P = "(n, Nod (first es) ka (dptr t)) # (ka, Txt k) # layout t"
  have P: "holds m ?P" using SCons.prems(1) by (auto simp: reps_SCons rep_def holds_Cons)
  show ?case
  proof (cases "es = SNil")
    case True
    let ?Q = "(ka, Txt k) # layout t"
    have "cells m ++ map_of (?Q @ layouts e) = cells m ++ map_of (layouts e)"
      using P SCons.prems(4) by (intro absorb(1)) (auto simp: holds_Cons)
    then have "cells m ++ map_of (layouts (sapp (SCons n ka k t es) e)) =
      (cells m ++ map_of (layouts e))(n \<mapsto> Nod (first e) ka (dptr t))"
      using True by simp
    moreover have "last_node f m (first (SCons n ka k t es)) = Ok n" "cells m n = Some (Nod 0 ka (dptr t))"
      "n \<in> set (addrss (SCons n ka k t es))"
      using True f n SCons.prems(1) by (simp_all add: reps_SCons)
    ultimately show ?thesis using n(2) by blast
  next
    case False
    have "sents_len es \<le> f'" "set (addrss es) \<inter> set (addrss e) = {}" using SCons.prems(3,4) f by auto
    from SCons.IH [OF n(3) False this] obtain l kl dl where l: "last_node f' m (first es) = Ok l" "cells m l = Some (Nod 0 kl dl)" "0 < l"
        "l \<in> set (addrss es)"
        "cells m ++ map_of (layouts (sapp es e)) = (cells m ++ map_of (layouts e))(l \<mapsto> Nod (first e) kl dl)"
      by blast
    have dom: "set (addrss (sapp es e)) = set (addrss es) \<union> set (addrss e)"
      by (induction es rule: sents_induct) (auto simp: first_sapp)
    have "cells m ++ map_of (?P @ layouts (sapp es e)) = cells m ++ map_of (layouts (sapp es e))"
      using P SCons.prems(1,4) dom by (intro absorb(1)) (auto simp: reps_SCons)
    then have "cells m ++ map_of (layouts (sapp (SCons n ka k t es) e)) =
      (cells m ++ map_of (layouts e))(l \<mapsto> Nod (first e) kl dl)"
      using l(5) False by (simp add: first_sapp)
    moreover have "last_node f m (first (SCons n ka k t es)) = Ok l" "l \<in> set (addrss (SCons n ka k t es))"
      using l(1,4) f n(1) False first_0 [OF n(3)] by simp_all
    ultimately show ?thesis using l(2,3) by blast
  qed
qed

text \<open>A store with blocks written into it and \<open>k\<close> addresses more given out.\<close>

definition wr :: "(nat \<times> scell) list \<Rightarrow> nat \<Rightarrow> symmem \<Rightarrow> symmem" where
  "wr L k m = m\<lparr>cells := cells m ++ map_of L, brk := brk m + k, room := room m - k\<rparr>"

lemma wr_fields [simp]: "cells (wr L k m) = cells m ++ map_of L" "brk (wr L k m) = brk m + k" "room (wr L k m) = room m - k"
  by (simp_all add: wr_def)

lemma symmem_eqI:
  "cells (m::symmem) = cells m' \<Longrightarrow> brk m = brk m' \<Longrightarrow> room m = room m' \<Longrightarrow> m = m'"
  by (cases m; cases m') simp

lemma mem_ok_wr:
  "mem_ok m \<Longrightarrow> \<forall>a \<in> fst ` set L. 0 < a \<and> a < brk m + k \<Longrightarrow> mem_ok (wr L k m)"
  by (fastforce simp: mem_ok_def map_add_def split: option.splits dest!: map_of_SomeD)

lemma mem_ok_fresh: "mem_ok m \<Longrightarrow> brk m \<le> a \<Longrightarrow> cells m a = None"
  by (metis mem_ok_def not_le)

lemma mknode_value:
  assumes "2 \<le> room m" "mem_ok m"
  shows "mknode 0 k d m = (brk m, wr [(brk m, Nod 0 (brk m + 1) d), (brk m + 1, Txt k)] 2 m)"
  using assms by (auto simp: mknode_def salloc_def sstore_def Let_def wr_def mem_ok_def fun_upd_twist)

lemma addrss_sapp: "set (addrss (sapp es e)) = set (addrss es) \<union> set (addrss e)"
  by (induction es rule: sents_induct) auto

lemma add_key_tree:
  assumes "rep m (Tab a c es)" "2 \<le> room m"
  shows "add_key m a k d = Ok (0, wr (layout (Tab a c (sapp es (SCons (brk m) (brk m + 1) k (Leaf d) SNil)))) 2 m)"
proof -
  let ?n = "brk m" and ?e = "SCons (brk m) (brk m + 1) k (Leaf d) SNil"
  from assms(1) have es: "reps m es" and ok: "mem_ok m" and a: "cells m a = Some (Hdr (first es) c)" "a < ?n" "0 < ?n"
    "a \<notin> set (addrss es)" by (auto simp: rep_Tab reps_def mem_ok_def)
  show ?thesis
  proof (cases "es = SNil")
    case True
    with a assms show ?thesis
      by (auto simp: add_key_def hdr_Tab [OF assms(1)] mknode_value [OF assms(2) ok] sstore_def fun_upd_twist
          intro!: symmem_eqI)
  next
    case False
    have below: "x < ?n" if "x \<in> set (addrss es)" for x using es that by (auto simp: reps_def holds_def)
    then have "?n \<notin> set (addrss es)" "?n + 1 \<notin> set (addrss es)" by (metis less_irrefl, metis less_add_same_cancel1 not_less_iff_gr_or_eq zero_less_one)
    then have disj: "set (addrss es) \<inter> set (addrss ?e) = {}" by simp
    from last_node_sents [OF es False sents_len_brk [OF es] disj] obtain l kl dl where
      l: "last_node ?n m (first es) = Ok l" "cells m l = Some (Nod 0 kl dl)" "0 < l" "l \<in> set (addrss es)"
         "cells m ++ map_of (layouts (sapp es ?e)) = (cells m ++ map_of (layouts ?e))(l \<mapsto> Nod (first ?e) kl dl)"
      by blast
    have "holds m [(a, Hdr (first es) c)]" using a assms(1) by (simp add: holds_Cons rep_Tab holds_def)
    then have "cells m ++ map_of ([(a, Hdr (first es) c)] @ layouts (sapp es ?e)) = cells m ++ map_of (layouts (sapp es ?e))"
      using a below by (intro absorb(1)) (auto simp: addrss_sapp simp flip: set_map)
    with l(5) have "cells m ++ map_of (layout (Tab a c (sapp es ?e))) =
      (cells m ++ map_of (layouts ?e))(l \<mapsto> Nod ?n kl dl)" using False by (simp add: first_sapp)
    then show ?thesis
      using l(1-3) False first_0 [OF es] a(3) hdr_Tab [OF assms(1)]
      by (auto simp: add_key_def nod_def mknode_value [OF assms(2) ok] sstore_def fun_upd_twist intro!: symmem_eqI)
  qed
qed

lemma rep_mono:
  assumes "rep m t" "cells m \<subseteq>\<^sub>m cells m'" "brk m \<le> brk m'" "mem_ok m'"
  shows "rep m' t"
proof -
  have c: "cells m' a = Some x" if "cells m a = Some x" for a x
    using assms(2) that by (metis domI map_le_def)
  then show ?thesis
    using assms(1,3,4) by (fastforce simp: rep_def holds_def leaf_ok_def)
qed

lemma layouts_last:
  "layouts (sapp es (SCons n ka k t SNil)) = layouts (sapp es (SCons n ka k (Leaf (dptr t)) SNil)) @ layout t"
  by (induction es rule: sents_induct) (auto simp: first_sapp)

lemma layouts_chain:
  "ks \<noteq> [] \<Longrightarrow> set (addrss (chain n ks d)) \<subseteq> {n..<n + (3 * length ks - 1)} \<and> distinct (addrss (chain n ks d))"
proof (induction n ks d rule: chain.induct)
  case (3 n k k' ks d)
  then have IH: "set (addrss (chain (n + 3) (k' # ks) d)) \<subseteq> {n + 3..<n + 3 + (3 * length (k' # ks) - 1)}"
    "distinct (addrss (chain (n + 3) (k' # ks) d))" by auto
  then have "x \<notin> set (addrss (chain (n + 3) (k' # ks) d))" if "x < n + 3" for x
    using that by (meson atLeastLessThan_iff in_mono not_le)
  then have "n \<notin> set (addrss (chain (n + 3) (k' # ks) d))" "n + 1 \<notin> set (addrss (chain (n + 3) (k' # ks) d))"
    "n + 2 \<notin> set (addrss (chain (n + 3) (k' # ks) d))" by simp_all
  moreover have "{n + 3..<n + 3 + (3 * length (k' # ks) - 1)} \<subseteq> {n..<n + (3 * length (k # k' # ks) - 1)}" by auto
  with IH(1) have "set (addrss (chain (n + 3) (k' # ks) d)) \<subseteq> {n..<n + (3 * length (k # k' # ks) - 1)}" by (rule subset_trans)
  ultimately show ?case using IH(2) by simp
qed auto

lemma create_tree:
  assumes "rep m (Tab a c es)" "ks \<noteq> []" "3 * length ks - 1 \<le> room m"
  shows "sym_create m a ks d =
    Ok (wr (layout (Tab a c (sapp es (chain (brk m) ks d)))) (3 * length ks - 1) m)"
  using assms
proof (induction ks arbitrary: m a c es rule: induct_list012)
  case (2 k)
  then show ?case using add_key_tree [of m a c es k d] by (simp add: numeral_2_eq_2)
next
  case (3 k k' ks)
  let ?h = "brk m"
  let ?e = "SCons (?h + 1) (?h + 2) k (Leaf ?h) SNil"
  let ?X = "layout (Tab a c (sapp es ?e))" and ?T = "layout (Tab ?h 0 (chain (?h + 3) (k' # ks) d))"
  define m0 where "m0 = wr [(?h, Hdr 0 0)] 1 m"
  define m1 where "m1 = wr ?X 2 m0"
  have ok: "mem_ok m" and a: "0 < a" "a < ?h" using "3.prems"(1) by (simp_all add: rep_Tab reps_def)
  have new: "newsym m = (?h, m0)"
    using "3.prems"(3) by (auto simp: newsym_def salloc_def m0_def intro!: symmem_eqI)
  have ok0: "mem_ok m0" unfolding m0_def using ok by (intro mem_ok_wr) (auto simp: mem_ok_def)
  have rep0: "rep m0 (Tab a c es)"
    using "3.prems"(1) ok0 mem_ok_fresh [OF ok] by (rule_tac rep_mono) (auto simp: m0_def map_le_def)
  have add: "add_key m0 a k ?h = Ok (0, m1)"
    using add_key_tree [OF rep0, of k ?h] "3.prems"(3) by (simp add: m0_def m1_def numeral_eq_Suc)
  have below: "x < ?h" if "x \<in> set (addrss es)" for x
    using "3.prems"(1) that by (auto simp: rep_Tab reps_def holds_def)
  have X: "set (map fst ?X) \<subseteq> {x. 0 < x \<and> x < ?h \<or> x = ?h + 1 \<or> x = ?h + 2}"
    using below a "3.prems"(1) by (auto simp: addrss_sapp rep_Tab reps_def holds_def simp flip: set_map)
  have T: "set (map fst ?T) \<subseteq> insert ?h {?h + 3..<?h + 3 + (3 * length (k' # ks) - 1)}"
    using layouts_chain [of "k' # ks" "?h + 3" d] by auto
  have ok1: "mem_ok m1" unfolding m1_def using ok0 X by (intro mem_ok_wr) (auto simp: m0_def)
  have "?h \<notin> set (map fst ?X)" using X by auto
  then have "map_of ?X ?h = None" by (simp add: map_of_eq_None_iff del: set_map) auto
  then have h1: "cells m1 ?h = Some (Hdr 0 0)" by (simp add: m1_def m0_def map_add_def)
  have "rep m1 (Tab ?h 0 SNil)" using ok1 h1 a by (simp add: rep_Tab m1_def m0_def)
  moreover have brk1: "brk m1 = ?h + 3" "room m1 = room m - 3" by (simp_all add: m1_def m0_def)
  ultimately have "sym_create m1 ?h (k' # ks) d = Ok (wr ?T (3 * length (k' # ks) - 1) m1)"
    using "3.IH"(2) [of m1 ?h 0 SNil] "3.prems"(3) by simp
  moreover have "wr ?T (3 * length (k' # ks) - 1) m1 =
    wr (layout (Tab a c (sapp es (chain ?h (k # k' # ks) d)))) (3 * length (k # k' # ks) - 1) m"
  proof (rule symmem_eqI)
    have "dom (map_of ?X) \<inter> dom (map_of ?T) = {}"
      using X T by (simp add: dom_map_of_conv_image_fst del: layout.simps) fastforce
    then have "map_of ?T ++ map_of ?X = map_of ?X ++ map_of ?T" by (rule map_add_comm [symmetric])
    then have "map_of (?X @ ?T) = map_of ?X ++ map_of ?T" by (simp add: map_of_append)
    moreover have "layout (Tab a c (sapp es (chain ?h (k # k' # ks) d))) = ?X @ ?T"
      by (simp add: layouts_last [of es _ _ _ "Tab ?h 0 (chain (?h + 3) (k' # ks) d)"] first_sapp)
    moreover have "(cells m)(?h \<mapsto> Hdr 0 0) ++ map_of ?X ++ map_of ?T = cells m ++ map_of ?X ++ map_of ?T"
      by (auto simp: map_add_def fun_eq_iff split: option.splits)
    ultimately show "cells (wr ?T (3 * length (k' # ks) - 1) m1) =
      cells (wr (layout (Tab a c (sapp es (chain ?h (k # k' # ks) d)))) (3 * length (k # k' # ks) - 1) m)"
      by (simp add: m1_def m0_def del: layout.simps)
  qed (simp_all add: m1_def m0_def)
  ultimately show ?case by (simp add: new add)
qed simp

lemma first_sput [simp]: "first (sput es k u) = first es"
  by (induction es rule: sents_induct) auto

lemma sput_same: "sfind es k = Some (n, nx, ka, u) \<Longrightarrow> sput es k u = es"
  by (induction es rule: sents_induct) (auto split: if_splits)

lemma sfind_layout: "sfind es k = Some (n, nx, ka, u) \<Longrightarrow> set (layout u) \<subseteq> set (layouts es)"
  by (induction es rule: sents_induct) (auto split: if_splits)

lemma sfind_leaves: "sfind es k = Some (n, nx, ka, u) \<Longrightarrow> set (leaves u) \<subseteq> set (leavess es)"
  by (induction es rule: sents_induct) (auto split: if_splits)

lemma wr_holds: "holds m L \<Longrightarrow> wr L 0 m = m"
  using absorb(1) [of m L "[]"] by (auto intro!: symmem_eqI)

text \<open>Changing the contents of an entry touches its node and the blocks of the contents only.\<close>

lemma sput_layout:
  assumes "reps m es" "sfind es k = Some (n, nx, ka, u)"
    "set (addrs u') \<inter> (set (addrss es) - set (addrs u)) = {}"
  shows "cells m ++ map_of (layouts (sput es k u')) = (cells m ++ map_of (layout u'))(n \<mapsto> Nod nx ka (dptr u'))"
  using assms
proof (induction es rule: sents_induct)
  case SNil
  then show ?case by simp
next
  case (SCons n0 ka0 k0 t es)
  show ?case
  proof (cases "k0 = k")
    case True
    with SCons.prems have eq: "n0 = n" "nx = first es" "ka0 = ka" "u = t" by auto
    have "reps m es" and es: "holds m [(ka, Txt k)]" "set (addrs t) \<inter> set (addrss es) = {}"
      "ka \<notin> set (addrs t)" "ka \<notin> set (addrss es)"
      using SCons.prems(1) eq True by (simp_all add: reps_SCons holds_def)
    then have hes: "holds m (layouts es)" by (simp add: reps_def)
    have u': "set (addrs u') \<inter> set (addrss es) = {}" "ka \<notin> set (addrs u')"
      using es SCons.prems(3) eq by (auto simp del: set_map)
    have "cells m ++ map_of ([(ka, Txt k)] @ layout u' @ layouts es) = cells m ++ map_of (layout u' @ layouts es)"
      using es u' by (intro absorb(1)) auto
    also have "\<dots> = cells m ++ map_of (layout u')"
      using hes u' by (intro absorb(2)) (simp_all add: Int_commute)
    finally have old: "cells m ++ map_of ([(ka, Txt k)] @ layout u' @ layouts es) = cells m ++ map_of (layout u')" .
    have "layouts (sput (SCons n0 ka0 k0 t es) k u') = (n, Nod nx ka (dptr u')) # ([(ka, Txt k)] @ layout u' @ layouts es)"
      using True eq by simp
    then show ?thesis by (simp only: map_of.simps map_add_upd old fst_conv snd_conv)
  next
    case False
    let ?P = "(n0, Nod (first es) ka0 (dptr t)) # (ka0, Txt k0) # layout t"
    from False SCons.prems(2) have find: "sfind es k = Some (n, nx, ka, u)" by simp
    have es: "reps m es" and P: "holds m ?P" and PE: "fst ` set ?P \<inter> set (addrss es) = {}"
      using SCons.prems(1) by (auto simp: reps_SCons rep_def holds_Cons)
    from sfind_Some [OF es find] have sub: "set (addrs u) \<subseteq> set (addrss es)" by blast
    have IH: "cells m ++ map_of (layouts (sput es k u')) = (cells m ++ map_of (layout u'))(n \<mapsto> Nod nx ka (dptr u'))"
      by (rule SCons.IH [OF es find]) (use SCons.prems(3) in \<open>auto simp del: set_map\<close>)
    have "set (addrss (sput es k u')) \<subseteq> set (addrss es) \<union> set (addrs u')"
      by (induction es rule: sents_induct) auto
    moreover have "set (map fst ?P) \<inter> set (addrs u') = {}"
      using PE SCons.prems(3) sub by (auto simp del: set_map simp flip: set_map)
    ultimately have "fst ` set ?P \<inter> fst ` set (layouts (sput es k u')) = {}"
      using PE by (auto simp del: set_map simp flip: set_map)
    then have "cells m ++ map_of (?P @ layouts (sput es k u')) = cells m ++ map_of (layouts (sput es k u'))"
      by (rule absorb(1) [OF P])
    moreover have "layouts (sput (SCons n0 ka0 k0 t es) k u') = ?P @ layouts (sput es k u')" using False by simp
    ultimately show ?thesis using IH by (simp only:)
  qed
qed

text \<open>Blocks of the new tree at old addresses are blocks of the old tree, and the strings among them are unchanged.\<close>

definition kin :: "scell \<Rightarrow> scell \<Rightarrow> bool" where
  "kin c c' \<longleftrightarrow> c = c' \<or> (\<forall>s. c \<noteq> Txt s) \<and> (\<forall>s. c' \<noteq> Txt s)"

lemma sapp_kin:
  "(x, c') \<in> set (layouts (sapp es e)) \<Longrightarrow>
     (\<exists>c. (x, c) \<in> set (layouts es) \<and> kin c c') \<or> (x, c') \<in> set (layouts e)"
  by (induction es rule: sents_induct) (auto simp: kin_def)

lemma sput_kin:
  "(x, c') \<in> set (layouts (sput es k u)) \<Longrightarrow>
     (\<exists>c. (x, c) \<in> set (layouts es) \<and> kin c c') \<or> (x, c') \<in> set (layout u)"
  by (induction es rule: sents_induct) (auto simp: kin_def split: if_splits)

lemma tput_kin:
  assumes "(x, c') \<in> set (layout (snd (tput f r d t ks)))"
  shows "(\<exists>c. (x, c) \<in> set (layout t) \<and> kin c c') \<or> f \<le> x"
  using assms
proof (induction f r d t ks rule: tput.induct)
  case (1 f repl d t)
  then show ?case by (auto simp: kin_def split: if_splits)
next
  case (2 f repl d p k ks)
  then show ?case by simp
next
  case (3 f repl d a c es k ks)
  show ?case
  proof (cases "sfind es k")
    case None
    have "f \<le> y" if "(y, z) \<in> set (layouts (chain f (k # ks) d))" for y z
      using layouts_chain [of "k # ks" f d] that by (auto dest!: subsetD simp: rev_image_eqI)
    with None "3.prems" show ?thesis
      by (auto simp: kin_def dest!: sapp_kin)
  next
    case (Some q)
    then obtain n nx ka u where q: "sfind es k = Some (n, nx, ka, u)" by (cases q) auto
    obtain rc u' where u': "tput f repl d u ks = (rc, u')" by fastforce
    show ?thesis
    proof (cases "(x, c') \<in> set (layout u')")
      case True
      with "3.IH" [OF q refl refl refl] u' sfind_layout [OF q] show ?thesis by auto
    next
      case False
      with "3.prems" q u' show ?thesis by (auto simp: kin_def dest!: sput_kin)
    qed
  qed
qed

lemma distinct_subset_mset: "distinct xs \<Longrightarrow> set xs \<subseteq> set ys \<Longrightarrow> mset xs \<subseteq># mset ys"
  by (auto simp: subseteq_mset_def count_eq_zero_iff distinct_count_atmost_1 Suc_le_eq)

lemma distinct_submset: "mset xs \<subseteq># mset ys \<Longrightarrow> distinct ys \<Longrightarrow> distinct xs"
proof -
  assume sub: "mset xs \<subseteq># mset ys" and "distinct ys"
  then have "count (mset ys) a \<le> 1" for a by (auto simp: distinct_count_atmost_1)
  then have le: "count (mset xs) a \<le> 1" for a using sub le_trans by (blast dest: mset_subset_eq_count)
  have "count (mset xs) a = (if a \<in> set xs then 1 else 0)" for a
    using le [of a] by (auto simp: count_eq_zero_iff le_Suc_eq not_in_iff)
  then show ?thesis by (simp add: distinct_count_atmost_1)
qed

lemma sapp_mset: "mset (addrss (sapp es e)) = mset (addrss es) + mset (addrss e)"
  by (induction es rule: sents_induct) auto

lemma sput_mset:
  "sfind es k = Some (n, nx, ka, u) \<Longrightarrow>
     mset (addrss (sput es k u')) + mset (addrs u) = mset (addrss es) + mset (addrs u')"
  by (induction es rule: sents_induct) (auto split: if_splits simp: ac_simps)

lemma mset_cancel_middle: "A + U \<subseteq># B + (U + R) \<Longrightarrow> A \<subseteq># B + R"
  by (simp add: subseteq_mset_def)

lemma tput_mset: "mset (addrs (snd (tput f r d t ks))) \<subseteq># mset (addrs t) + mset [f..<f + need t ks]"
proof (induction f r d t ks rule: tput.induct)
  case (1 f repl d t)
  then show ?case by simp
next
  case (2 f repl d p k ks)
  then show ?case by simp
next
  case (3 f repl d a c es k ks)
  show ?case
  proof (cases "sfind es k")
    case None
    have "mset (addrss (chain f (k # ks) d)) \<subseteq># mset [f..<f + (3 * length (k # ks) - 1)]"
      using layouts_chain [of "k # ks" f d] by (intro distinct_subset_mset) auto
    with None show ?thesis by (simp add: sapp_mset del: mset_map mset_upt length_Cons)
  next
    case (Some q)
    then obtain n nx ka u where q: "sfind es k = Some (n, nx, ka, u)" by (cases q) auto
    obtain rc u' where u': "tput f repl d u ks = (rc, u')" by fastforce
    let ?R = "mset [f..<f + need u ks]"
    have "mset (addrss (sput es k u')) + mset (addrs u) \<subseteq># mset (addrss es) + (mset (addrs u) + ?R)"
      using "3.IH" [OF q refl refl refl] u' sput_mset [OF q, of u'] by simp
    then have "mset (addrss (sput es k u')) \<subseteq># mset (addrss es) + ?R" by (rule mset_cancel_middle)
    then show ?thesis using q u' by (simp del: mset_map mset_upt)
  qed
qed

lemma sput_leaves: "set (leavess (sput es k u)) \<subseteq> set (leavess es) \<union> set (leaves u)"
  by (induction es rule: sents_induct) auto

lemma sapp_leaves: "set (leavess (sapp es e)) = set (leavess es) \<union> set (leavess e)"
  by (induction es rule: sents_induct) auto

lemma chain_leaves: "set (leavess (chain n ks d)) \<subseteq> {d}"
  by (induction n ks d rule: chain.induct) auto

lemma tput_leaves: "set (leaves (snd (tput f r d t ks))) \<subseteq> insert d (set (leaves t))"
proof (induction f r d t ks rule: tput.induct)
  case (3 f repl d a c es k ks)
  show ?case
  proof (cases "sfind es k")
    case None
    with chain_leaves [of f "k # ks" d] show ?thesis by (auto simp: sapp_leaves)
  next
    case (Some q)
    then obtain n nx ka u where q: "sfind es k = Some (n, nx, ka, u)" by (cases q) auto
    obtain rc u' where u': "tput f repl d u ks = (rc, u')" by fastforce
    have "set (leaves u') \<subseteq> insert d (set (leavess es))"
      using "3.IH" [OF q refl refl refl] u' sfind_leaves [OF q] by auto
    with sput_leaves [of es k u'] q u' show ?thesis by auto
  qed
qed auto

lemma tput_dptr: "ks \<noteq> [] \<Longrightarrow> dptr (snd (tput f r d t ks)) = dptr t"
  by (cases "(f, r, d, t, ks)" rule: tput.cases) (auto split: option.splits prod.splits)

lemma tput_distinct:
  assumes "rep m t"
  shows "distinct (addrs (snd (tput (brk m) r d t ks)))"
proof (rule distinct_submset)
  have below: "x < brk m" if "x \<in> set (addrs t)" for x using assms that by (auto simp: rep_def holds_def)
  show "mset (addrs (snd (tput (brk m) r d t ks))) \<subseteq># mset (addrs t @ [brk m..<brk m + need t ks])" using tput_mset by simp
  show "distinct (addrs t @ [brk m..<brk m + need t ks])"
    using assms by (auto simp: rep_def holds_def simp flip: set_map dest!: below)
qed

text \<open>A put leaves all strings of the store alone.\<close>

lemma put_keeps_txt:
  assumes "rep m t" "cells m p = Some (Txt s)"
  shows "cells (wr (layout (snd (tput (brk m) r d t ks))) j m) p = Some (Txt s)"
proof (cases "map_of (layout (snd (tput (brk m) r d t ks))) p")
  case None
  with assms(2) show ?thesis by (simp add: map_add_def)
next
  case (Some c')
  then have c': "(p, c') \<in> set (layout (snd (tput (brk m) r d t ks)))" by (rule map_of_SomeD)
  have "p < brk m" using assms by (auto simp: rep_def mem_ok_def)
  with tput_kin [OF c'] obtain c where "(p, c) \<in> set (layout t)" "kin c c'" by auto
  with assms have "c' = Txt s" by (auto simp: rep_def holds_def kin_def)
  with map_of_is_SomeI [OF tput_distinct [OF assms(1)] c'] show ?thesis by simp
qed

text \<open>The store that a put leaves represents the new tree.\<close>

lemma rep_put:
  assumes "rep m t" "leaf_ok m d"
  shows "rep (wr (layout (snd (tput (brk m) r d t ks))) (need t ks) m) (snd (tput (brk m) r d t ks))"
proof -
  let ?t = "snd (tput (brk m) r d t ks)" and ?f = "brk m"
  let ?m = "wr (layout ?t) (need t ks) m"
  have below: "0 < x \<and> x < ?f" if "x \<in> set (addrs t)" for x
    using assms(1) that by (auto simp: rep_def holds_def)
  have dist: "distinct (addrs ?t)" by (rule tput_distinct [OF assms(1)])
  have range: "0 < x \<and> x < ?f + need t ks" if "x \<in> set (addrs ?t)" for x
  proof -
    have "x \<in> set (addrs t) \<or> x \<in> set [?f..<?f + need t ks]"
      using set_mset_mono [OF tput_mset [of ?f r d t ks]] that by auto
    then show ?thesis using below [of x] assms(1) by (auto simp: rep_def mem_ok_def simp del: set_map)
  qed
  have ok: "mem_ok ?m" using assms(1) range by (intro mem_ok_wr) (auto simp: rep_def)
  have at: "cells ?m x = Some c" if "(x, c) \<in> set (layout ?t)" for x c
    using map_of_is_SomeI [OF dist that] by simp
  have strs: "cells ?m p = Some (Txt s)" if "cells m p = Some (Txt s)" for p s
    using put_keeps_txt [OF assms(1) that] .
  have "leaf_ok ?m p" if "p \<in> set (leaves ?t)" for p
    using that tput_leaves [of ?f r d t ks] assms strs by (auto simp: rep_def leaf_ok_def dest!: subsetD)
  with ok at dist range show ?thesis by (auto simp: rep_def holds_def)
qed

lemma tput_same: "fst (tput f r d t ks) \<noteq> 0 \<Longrightarrow> snd (tput f r d t ks) = t"
proof (induction f r d t ks rule: tput.induct)
  case (3 f repl d a c es k ks)
  show ?case
  proof (cases "sfind es k")
    case None
    with "3.prems" show ?thesis by simp
  next
    case (Some q)
    then obtain n nx ka u where q: "sfind es k = Some (n, nx, ka, u)" by (cases q) auto
    obtain rc u' where u': "tput f repl d u ks = (rc, u')" by fastforce
    with "3.prems" q have "rc \<noteq> 0" by simp
    with "3.IH" [OF q refl refl refl] u' have "u' = u" by simp
    with q u' show ?thesis by (simp add: sput_same [OF q])
  qed
qed (auto split: if_splits)

text \<open>Writing a table whose entry was changed in place is writing the changed contents.\<close>

lemma Tab_sput_layout:
  assumes "rep m (Tab a c es)" "sfind es k = Some (n, nx, ka, u)"
    "set (addrs u') \<subseteq> set (addrs u) \<union> {brk m..}"
  shows "cells m ++ map_of (layout (Tab a c (sput es k u'))) = (cells m ++ map_of (layout u'))(n \<mapsto> Nod nx ka (dptr u'))"
proof -
  from assms(1) have es: "reps m es" and a: "holds m [(a, Hdr (first es) c)]" "a < brk m" "a \<notin> set (addrss es)"
    by (auto simp: rep_Tab holds_def)
  have below: "x < brk m" if "x \<in> set (addrss es)" for x using es that by (auto simp: reps_def holds_def)
  have sub: "set (addrs u) \<subseteq> set (addrss es)" using sfind_Some [OF es assms(2)] by blast
  have "set (addrs u') \<inter> (set (addrss es) - set (addrs u)) = {}"
    using assms(3) below by (fastforce simp del: set_map)
  note eq = sput_layout [OF es assms(2) this]
  have "set (addrss (sput es k u')) \<subseteq> set (addrss es) \<union> set (addrs u')"
    by (induction es rule: sents_induct) auto
  then have "a \<notin> set (addrss (sput es k u'))"
    using a(2,3) assms(3) sub by (fastforce simp del: set_map)
  then have "cells m ++ map_of ([(a, Hdr (first es) c)] @ layouts (sput es k u')) = cells m ++ map_of (layouts (sput es k u'))"
    by (intro absorb(1) [OF a(1)]) simp
  with eq show ?thesis by (simp only: layout.simps first_sput append_Cons append_Nil)
qed

lemma put_tree:
  assumes "rep m (Tab a c es)" "ks \<noteq> []" "need (Tab a c es) ks \<le> room m"
  shows "bind_outcome (sym_walk m a n0 ks) (put_act d fl m) =
    Ok (fst (tput (brk m) (fl = PUT_REPLACE) d (Tab a c es) ks),
        wr (layout (snd (tput (brk m) (fl = PUT_REPLACE) d (Tab a c es) ks))) (need (Tab a c es) ks) m)"
  using assms
proof (induction ks arbitrary: a c es n0)
  case Nil
  then show ?case by simp
next
  case (Cons k ks)
  let ?r = "fl = PUT_REPLACE"
  from Cons.prems(1) have es: "reps m es" and all: "holds m (layout (Tab a c es))" by (simp add: rep_Tab, simp add: rep_def)
  show ?case
  proof (cases "sfind es k")
    case None
    with Cons.prems es create_tree [OF Cons.prems(1), of "k # ks" d] show ?thesis
      by (simp add: hdr_Tab find_key1_brk put_act_def)
  next
    case (Some q)
    then obtain n nx ka u where q: "sfind es k = Some (n, nx, ka, u)" by (cases q) auto
    from sfind_Some [OF es q] have n: "nod m n = Ok (nx, ka, dptr u)" "0 < n" "rep m u"
      "cells m n = Some (Nod nx ka (dptr u))" "n \<notin> set (addrs u)" "n < brk m"
      by (auto simp: nod_def)
    have same: "wr (layout (Tab a c (sput es k u))) 0 m = m" by (simp only: sput_same [OF q] wr_holds [OF all])
    show ?thesis
    proof (cases "ks = []")
      case True
      have "wr (layout (Tab a c (sput es k (Leaf d)))) 0 m = sstore n (Nod nx ka d) m"
        using Tab_sput_layout [OF Cons.prems(1) q, of "Leaf d"] by (intro symmem_eqI) (simp_all add: sstore_def)
      with True q n es Cons.prems(1) same show ?thesis
        by (simp add: hdr_Tab find_key1_brk put_act_def)
    next
      case False
      then obtain k' ks' where ks: "ks = k' # ks'" by (cases ks) auto
      show ?thesis
      proof (cases u)
        case (Leaf p)
        with q n es ks Cons.prems(1) is_magic_rep [OF n(3)] same show ?thesis
          by (auto simp: hdr_Tab find_key1_brk put_act_def)
      next
        case (Tab a' c' es')
        let ?q = "tput (brk m) ?r d u ks"
        have a': "a' \<noteq> 0" using n(3) Tab by (simp add: rep_Tab)
        have IH: "bind_outcome (sym_walk m a' n ks) (put_act d fl m) = Ok (fst ?q, wr (layout (snd ?q)) (need u ks) m)"
          using Cons.IH [of a' c' es' n] n(3) Tab q ks Cons.prems(3) by simp
        have sub: "set (addrs (snd ?q)) \<subseteq> set (addrs u) \<union> {brk m..}"
          using set_mset_mono [OF tput_mset [of "brk m" ?r d u ks]] by auto
        have "n \<notin> set (addrs (snd ?q))" using sub n(5,6) by (auto simp del: set_map)
        then have "(cells m ++ map_of (layout (snd ?q))) n = Some (Nod nx ka (dptr u))"
          using n(4) by (simp add: map_add_def map_of_eq_None_iff [THEN iffD2])
        then have upd: "(cells m ++ map_of (layout (snd ?q)))(n \<mapsto> Nod nx ka (dptr (snd ?q))) = cells m ++ map_of (layout (snd ?q))"
          using tput_dptr [of ks "brk m" ?r d u] ks by (intro fun_upd_idem) simp
        have "wr (layout (Tab a c (sput es k (snd ?q)))) (need u ks) m = wr (layout (snd ?q)) (need u ks) m"
          using Tab_sput_layout [OF Cons.prems(1) q sub] upd by (intro symmem_eqI) (simp_all only: wr_fields)
        moreover have "sym_walk m a n0 (k # ks) = sym_walk m a' n ks"
          using q n es ks Tab a' Cons.prems(1) is_magic_rep [OF n(3)] by (simp add: hdr_Tab find_key1_brk)
        ultimately show ?thesis using q IH by (simp add: split_beta)
      qed
    qed
  qed
qed

section \<open>The operations of the table\<close>

abbreviation words :: "cstr \<Rightarrow> cstr list" where
  "words key \<equiv> tokens '','' key"

text \<open>A key that does not start with a comma; then it has a word, and freeing its words is in order.\<close>

definition good_key :: "cstr \<Rightarrow> bool" where
  "good_key key \<longleftrightarrow> key \<noteq> [] \<and> hd key \<noteq> CHR '',''"

lemma good_key_words: "good_key key \<Longrightarrow> words key \<noteq> []"
  by (cases key) (auto simp: good_key_def tokens_Some strtok_def)

lemma good_key_split:
  assumes "mem_fine me" "good_key key"
  shows "\<exists>arr n. splitstr me (Some key) (Some '','') = Ok (Some arr, n) \<and> argv_of arr = words key \<and>
    splitstr_free (Some arr) = Ok True"
  using splitstr_cycle [OF assms(1), of key "Some '',''"] good_key_words [OF assms(2)] assms(2)
  by (auto simp: good_key_def)

lemma sym_get_tree:
  assumes "mem_fine me" "good_key key" "rep m (Tab a c es)"
  shows "sym_get me m a key = Ok (case tget (Tab a c es) (words key) of None \<Rightarrow> 0 | Some u \<Rightarrow> dptr u)"
proof -
  from good_key_split [OF assms(1,2)] obtain arr n where
    s: "splitstr me (Some key) (Some '','') = Ok (Some arr, n)" "argv_of arr = words key" "splitstr_free (Some arr) = Ok True"
    by auto
  from walk_get [OF assms(3) good_key_words [OF assms(2)], of 0] obtain w where
    w: "sym_walk m a 0 (words key) = Ok w"
      "case tget (Tab a c es) (words key) of
         Some u \<Rightarrow> \<exists>n nx kp. w = Found n \<and> nod m n = Ok (nx, kp, dptr u) | None \<Rightarrow> \<forall>n. w \<noteq> Found n" by auto
  have "a \<noteq> 0" "strdup_ok me" using assms(1,3) by (auto simp: rep_Tab mem_fine_def)
  with s w show ?thesis
    by (cases "tget (Tab a c es) (words key)"; cases w) (auto simp: sym_get_def)
qed

lemma sym_put_tree:
  assumes "mem_fine me" "good_key key" "rep m (Tab a c es)" "need (Tab a c es) (words key) \<le> room m"
  shows "sym_put me m a key d fl =
    Ok (fst (tput (brk m) (fl = PUT_REPLACE) d (Tab a c es) (words key)),
        wr (layout (snd (tput (brk m) (fl = PUT_REPLACE) d (Tab a c es) (words key)))) (need (Tab a c es) (words key)) m)"
proof -
  from good_key_split [OF assms(1,2)] obtain arr n where
    s: "splitstr me (Some key) (Some '','') = Ok (Some arr, n)" "argv_of arr = words key" "splitstr_free (Some arr) = Ok True"
    by auto
  have "a \<noteq> 0" using assms(3) by (simp add: rep_Tab)
  with s put_tree [OF assms(3) good_key_words [OF assms(2)] assms(4), of 0 d fl] show ?thesis
    by (cases "sym_walk m a 0 (words key)") (auto simp: sym_put_def)
qed

lemma need_le: "need t ks \<le> 3 * length ks"
  by (induction t ks rule: need.induct) (auto split: option.splits intro: trans_le_add2)

subsection \<open>Laws of the tree operations\<close>

lemma sfind_sput_same: "sfind es k = Some (n, nx, ka, u) \<Longrightarrow> sfind (sput es k u') k = Some (n, nx, ka, u')"
  by (induction es rule: sents_induct) (auto split: if_splits)

lemma sfind_sput_other: "k \<noteq> k' \<Longrightarrow> sfind (sput es k u') k' = sfind es k'"
  by (induction es rule: sents_induct) auto

lemma sfind_sapp:
  "map_option (\<lambda>q. snd (snd (snd q))) (sfind (sapp es e) k) =
    (case sfind es k of None \<Rightarrow> map_option (\<lambda>q. snd (snd (snd q))) (sfind e k) | Some q \<Rightarrow> Some (snd (snd (snd q))))"
  by (induction es rule: sents_induct) (auto split: option.splits)

lemma tget_Tab:
  "tget (Tab a c es) (k # ks) = (case map_option (\<lambda>q. snd (snd (snd q))) (sfind es k) of None \<Rightarrow> None | Some u \<Rightarrow> tget u ks)"
  by (auto split: option.splits)

lemma tget_chain: "ks \<noteq> [] \<Longrightarrow> tget (Tab a c (chain n ks d)) ks = Some (Leaf d)"
  by (induction n ks d arbitrary: a c rule: chain.induct) auto

lemma sfind_chain: "sfind (chain n (k # ks) d) k' \<noteq> None \<Longrightarrow> k' = k"
  by (cases ks) (auto split: if_splits)

lemma tget_chain_other:
  assumes "ks \<noteq> []" "\<not> (\<exists>zs. ks' = ks @ zs)" "\<not> (\<exists>zs. ks = ks' @ zs)"
  shows "tget (Tab a c (chain n ks d)) ks' = None"
  using assms
proof (induction n ks d arbitrary: a c ks' rule: chain.induct)
  case (1 n d)
  then show ?case by simp
next
  case (2 n k d)
  then show ?case by (cases ks'; cases "tl ks'") auto
next
  case (3 n k k1 ks d)
  then show ?case by (cases ks') auto
qed

lemma tget_tput_same:
  assumes "fst (tput f r d t ks) = 0"
  shows "tget (snd (tput f r d t ks)) ks = Some (Leaf d)"
  using assms
proof (induction f r d t ks rule: tput.induct)
  case (3 f repl d a c es k ks)
  show ?case
  proof (cases "sfind es k")
    case None
    with tget_chain [of "k # ks" a c f d] show ?thesis by (simp add: tget_Tab sfind_sapp del: tget.simps)
  next
    case (Some q)
    then obtain n nx ka u where q: "sfind es k = Some (n, nx, ka, u)" by (cases q) auto
    obtain rc u' where u': "tput f repl d u ks = (rc, u')" by fastforce
    with "3.prems" q have "rc = 0" by simp
    with "3.IH" [OF q refl refl refl] u' q show ?thesis by (simp add: sfind_sput_same [OF q])
  qed
qed (auto simp: EEXIST_def ENOTDIR_def split: if_splits)

text \<open>Keys of which neither is a beginning of the other do not disturb each other.\<close>

lemma tget_tput_other:
  assumes "\<not> (\<exists>zs. ks' = ks @ zs)" "\<not> (\<exists>zs. ks = ks' @ zs)"
  shows "tget (snd (tput f r d t ks)) ks' = tget t ks'"
  using assms
proof (induction f r d t ks arbitrary: ks' rule: tput.induct)
  case (3 f repl d a c es k ks)
  then obtain k' ks'' where ks': "ks' = k' # ks''" by (cases ks') auto
  show ?case
  proof (cases "sfind es k")
    case None
    show ?thesis
    proof (cases "k' = k")
      case True
      have "tget (Tab a c (chain f (k # ks) d)) (k # ks'') = None"
        using "3.prems" ks' True by (intro tget_chain_other) auto
      with None True ks' show ?thesis by (simp add: tget_Tab sfind_sapp del: tget.simps)
    next
      case False
      with None ks' sfind_chain [of f k ks d k'] show ?thesis
        by (auto simp: tget_Tab sfind_sapp simp del: tget.simps split: option.splits)
    qed
  next
    case (Some q)
    then obtain n nx ka u where q: "sfind es k = Some (n, nx, ka, u)" by (cases q) auto
    obtain rc u' where u': "tput f repl d u ks = (rc, u')" by fastforce
    show ?thesis
    proof (cases "k' = k")
      case True
      with "3.prems" ks' have "\<not> (\<exists>zs. ks'' = ks @ zs)" "\<not> (\<exists>zs. ks = ks'' @ zs)" by auto
      from "3.IH" [OF q refl refl refl this] u' q ks' True show ?thesis by (simp add: sfind_sput_same [OF q])
    next
      case False
      with q u' ks' show ?thesis by (simp add: sfind_sput_other)
    qed
  qed
qed auto

section \<open>The interface of a table\<close>

text \<open>
  What a client of a table with compound keys relies on: \<open>get\<close> and \<open>put\<close> return on a valid
  table, a put that succeeds is seen by the next get, one that fails changes nothing, replacing
  an entry that is there succeeds, and a put does not disturb keys apart from its own.
\<close>

locale key_table =
  fixes valid :: "'m \<Rightarrow> bool"
    and good :: "cstr \<Rightarrow> bool"
    and data_ok :: "'m \<Rightarrow> nat \<Rightarrow> bool"
    and roomy :: "'m \<Rightarrow> cstr \<Rightarrow> bool"
    and get :: "'m \<Rightarrow> cstr \<Rightarrow> nat outcome"
    and put :: "'m \<Rightarrow> cstr \<Rightarrow> nat \<Rightarrow> int \<Rightarrow> (int \<times> 'm) outcome"
    and apart :: "cstr \<Rightarrow> cstr \<Rightarrow> bool"
  assumes get_returns: "valid m \<Longrightarrow> good k \<Longrightarrow> \<exists>p. get m k = Ok p"
    and put_returns: "valid m \<Longrightarrow> good k \<Longrightarrow> data_ok m d \<Longrightarrow> roomy m k \<Longrightarrow>
      \<exists>rc m'. put m k d fl = Ok (rc, m') \<and> valid m'"
    and put_seen: "valid m \<Longrightarrow> good k \<Longrightarrow> data_ok m d \<Longrightarrow> roomy m k \<Longrightarrow> put m k d fl = Ok (0, m') \<Longrightarrow> get m' k = Ok d"
    and put_failed: "valid m \<Longrightarrow> good k \<Longrightarrow> data_ok m d \<Longrightarrow> roomy m k \<Longrightarrow> put m k d fl = Ok (rc, m') \<Longrightarrow> rc \<noteq> 0 \<Longrightarrow> m' = m"
    and replace_present: "valid m \<Longrightarrow> good k \<Longrightarrow> data_ok m d \<Longrightarrow> roomy m k \<Longrightarrow> get m k = Ok p \<Longrightarrow> p \<noteq> 0 \<Longrightarrow>
      \<exists>m'. put m k d PUT_REPLACE = Ok (0, m')"
    and put_apart: "valid m \<Longrightarrow> good k \<Longrightarrow> good k' \<Longrightarrow> data_ok m d \<Longrightarrow> roomy m k \<Longrightarrow> apart k k' \<Longrightarrow>
      put m k d fl = Ok (rc, m') \<Longrightarrow> get m' k' = get m k'"
begin

text \<open>Putting a whole list of entries, as long as every put succeeds.\<close>

fun put_all :: "'m \<Rightarrow> (cstr \<times> nat) list \<Rightarrow> 'm option" where
  "put_all m [] = Some m"
| "put_all m ((k, d) # kds) = (case put m k d 0 of Ok (rc, m') \<Rightarrow> if rc = 0 then put_all m' kds else None | _ \<Rightarrow> None)"

text \<open>Entries under keys that are pairwise apart can all be read back at the end.\<close>

lemma put_all_read:
  assumes "valid m" "\<forall>(k, d) \<in> set kds. good k \<and> (\<forall>m. valid m \<longrightarrow> data_ok m d \<and> roomy m k)"
    "\<And>i j. i < j \<Longrightarrow> j < length kds \<Longrightarrow> apart (fst (kds ! j)) (fst (kds ! i))" "put_all m kds = Some m'"
  shows "valid m' \<and> (\<forall>(k, d) \<in> set kds. get m' k = Ok d) \<and>
    (\<forall>k'. good k' \<and> (\<forall>(k, d) \<in> set kds. apart k k') \<longrightarrow> get m' k' = get m k')"
  using assms
proof (induction kds arbitrary: m)
  case Nil
  then show ?case by simp
next
  case (Cons kd kds)
  obtain k d where kd: "kd = (k, d)" by (cases kd)
  with Cons.prems obtain m1 where m1: "put m k d 0 = Ok (0, m1)" "put_all m1 kds = Some m'"
    by (auto split: outcome.splits if_splits)
  have k: "good k" "data_ok m d" "roomy m k" using Cons.prems(1,2) kd by auto
  have v: "valid m1" using put_returns [OF Cons.prems(1) k, of 0] m1(1) by auto
  have ap: "apart (fst (kds ! j)) (fst (kds ! i))" if "i < j" "j < length kds" for i j
    using Cons.prems(3) [of "Suc i" "Suc j"] that by simp
  have IH: "valid m'" "\<forall>(k, d) \<in> set kds. get m' k = Ok d"
    "\<And>k'. good k' \<Longrightarrow> \<forall>(k, d) \<in> set kds. apart k k' \<Longrightarrow> get m' k' = get m1 k'"
    using Cons.IH [OF v _ ap m1(2)] Cons.prems(2) by auto
  have first: "\<forall>(k', d') \<in> set kds. apart k' k"
  proof
    fix x assume "x \<in> set kds"
    then obtain j where "j < length kds" "x = kds ! j" by (auto simp: in_set_conv_nth)
    then show "case x of (k', d') \<Rightarrow> apart k' k" using Cons.prems(3) [of 0 "Suc j"] kd by (cases x) auto
  qed
  have "get m' k = Ok d" using IH(3) [OF k(1) first] put_seen [OF Cons.prems(1) k m1(1)] by simp
  moreover have "get m' k' = get m k'" if "good k'" "\<forall>(k, d) \<in> set (kd # kds). apart k k'" for k'
    using IH(3) [OF that(1)] put_apart [OF Cons.prems(1) k(1) that(1) k(2,3) _ m1(1)] that(2) kd by auto
  ultimately show ?case using IH(1,2) kd by auto
qed

text \<open>Keeping one value under a key: replace what is there, otherwise make an entry.\<close>

definition upsert :: "'m \<Rightarrow> cstr \<Rightarrow> nat \<Rightarrow> (int \<times> 'm) outcome" where
  "upsert m k d = bind_outcome (get m k) (\<lambda>p. put m k d (if p \<noteq> 0 then PUT_REPLACE else 0))"

lemma upsert_read:
  assumes "valid m" "good k" "data_ok m d" "roomy m k"
  shows "\<exists>rc m'. upsert m k d = Ok (rc, m') \<and> valid m' \<and> (rc = 0 \<longrightarrow> get m' k = Ok d) \<and> (rc \<noteq> 0 \<longrightarrow> m' = m) \<and>
    (\<forall>p. get m k = Ok p \<and> p \<noteq> 0 \<longrightarrow> rc = 0) \<and> (\<forall>k'. good k' \<and> apart k k' \<longrightarrow> get m' k' = get m k')"
proof -
  from get_returns [OF assms(1,2)] obtain p where p: "get m k = Ok p" by auto
  let ?fl = "if p \<noteq> 0 then PUT_REPLACE else 0"
  from put_returns [OF assms, of ?fl] obtain rc m' where m': "put m k d ?fl = Ok (rc, m')" "valid m'" by auto
  have "rc = 0" if "p \<noteq> 0" using replace_present [OF assms p that] m'(1) that by auto
  then show ?thesis
    using p m' put_seen [OF assms] put_failed [OF assms m'(1)] put_apart [OF assms(1,2) _ assms(3,4) _ m'(1)]
    by (auto simp: upsert_def)
qed

end

text \<open>The symbol table provides this interface, for every table at a given address.\<close>

definition tab_at :: "nat \<Rightarrow> symmem \<Rightarrow> bool" where
  "tab_at a m \<longleftrightarrow> (\<exists>c es. rep m (Tab a c es))"

definition key_room :: "symmem \<Rightarrow> cstr \<Rightarrow> bool" where
  "key_room m key \<longleftrightarrow> 3 * length (words key) \<le> room m"

definition keys_apart :: "cstr \<Rightarrow> cstr \<Rightarrow> bool" where
  "keys_apart key key' \<longleftrightarrow> \<not> (\<exists>zs. words key' = words key @ zs) \<and> \<not> (\<exists>zs. words key = words key' @ zs)"

definition plenty_get :: "nat \<Rightarrow> symmem \<Rightarrow> cstr \<Rightarrow> nat outcome" where
  "plenty_get a m key = sym_get mem_plenty m a key"

definition plenty_put :: "nat \<Rightarrow> symmem \<Rightarrow> cstr \<Rightarrow> nat \<Rightarrow> int \<Rightarrow> (int \<times> symmem) outcome" where
  "plenty_put a m key d fl = sym_put mem_plenty m a key d fl"

lemma tput_Tab: "ks \<noteq> [] \<Longrightarrow> \<exists>es'. snd (tput f r d (Tab a c es) ks) = Tab a c es'"
  by (cases ks) (auto split: option.splits prod.splits)

text \<open>One put, with everything the laws need.\<close>

lemma sym_put_step:
  assumes "mem_fine me" "good_key key" "rep m (Tab a c es)" "leaf_ok m d" "key_room m key"
  shows "\<exists>rc m' es'. sym_put me m a key d fl = Ok (rc, m') \<and> rep m' (Tab a c es') \<and>
    tput (brk m) (fl = PUT_REPLACE) d (Tab a c es) (words key) = (rc, Tab a c es') \<and> (rc \<noteq> 0 \<longrightarrow> m' = m)"
proof -
  let ?q = "tput (brk m) (fl = PUT_REPLACE) d (Tab a c es) (words key)"
  have room: "need (Tab a c es) (words key) \<le> room m"
    using need_le [of "Tab a c es" "words key"] assms(5) by (simp add: key_room_def)
  from tput_Tab [OF good_key_words [OF assms(2)]] obtain es' where es': "snd ?q = Tab a c es'" by blast
  have same: "wr (layout (snd ?q)) (need (Tab a c es) (words key)) m = m" if "fst ?q \<noteq> 0"
  proof -
    have "need t ks = 0" if "fst (tput f r d t ks) \<noteq> 0" for f r t ks
      using that by (induction f r d t ks rule: tput.induct) (auto split: option.splits prod.splits if_splits)
    with that have "need (Tab a c es) (words key) = 0" by blast
    with tput_same [OF that] assms(3) show ?thesis using wr_holds [of m "layout (Tab a c es)"] by (simp add: rep_def)
  qed
  show ?thesis
    using sym_put_tree [OF assms(1-3) room, of d fl] rep_put [OF assms(3,4), of "fl = PUT_REPLACE" "words key"] es' same
    by (auto simp: prod_eq_iff)
qed

interpretation st: key_table "tab_at a" good_key leaf_ok key_room "plenty_get a" "plenty_put a" keys_apart
  for a
proof (unfold_locales, goal_cases)
  case (1 m k)
  then show ?case by (auto simp: tab_at_def plenty_get_def sym_get_tree [OF mem_plenty_fine])
next
  case (2 m k d fl)
  then show ?case
    using sym_put_step [OF mem_plenty_fine] by (fastforce simp: tab_at_def plenty_put_def)
next
  case (3 m k d fl m')
  then obtain c es where t: "rep m (Tab a c es)" by (auto simp: tab_at_def)
  from sym_put_step [OF mem_plenty_fine 3(2) t 3(3,4), of fl] 3(5) obtain es' where
    p: "rep m' (Tab a c es')" "tput (brk m) (fl = PUT_REPLACE) d (Tab a c es) (words k) = (0, Tab a c es')"
    by (auto simp: plenty_put_def)
  with tget_tput_same [of "brk m" "fl = PUT_REPLACE" d "Tab a c es" "words k"] show ?case
    by (simp add: plenty_get_def sym_get_tree [OF mem_plenty_fine 3(2) p(1)])
next
  case (4 m k d fl rc m')
  then obtain c es where t: "rep m (Tab a c es)" by (auto simp: tab_at_def)
  from sym_put_step [OF mem_plenty_fine 4(2) t 4(3,4), of fl] 4(5,6) show ?case by (auto simp: plenty_put_def)
next
  case (5 m k d p)
  then obtain c es where t: "rep m (Tab a c es)" by (auto simp: tab_at_def)
  have "fst (tput f True d u ks) = 0" if "tget u ks \<noteq> None" for f u ks
    using that by (induction f True d u ks rule: tput.induct) (auto split: option.splits prod.splits)
  moreover have "tget (Tab a c es) (words k) \<noteq> None"
    using 5(5,6) by (auto simp: plenty_get_def sym_get_tree [OF mem_plenty_fine 5(2) t] split: option.splits)
  ultimately have "fst (tput (brk m) True d (Tab a c es) (words k)) = 0" by blast
  then show ?case
    using sym_put_step [OF mem_plenty_fine 5(2) t 5(3,4), of PUT_REPLACE] by (auto simp: plenty_put_def)
next
  case (6 m k k' d fl rc m')
  then obtain c es where t: "rep m (Tab a c es)" by (auto simp: tab_at_def)
  from sym_put_step [OF mem_plenty_fine 6(2) t 6(4,5), of fl] 6(7) obtain es' where
    p: "rep m' (Tab a c es')" "tput (brk m) (fl = PUT_REPLACE) d (Tab a c es) (words k) = (rc, Tab a c es')"
    by (auto simp: plenty_put_def)
  with tget_tput_other [of "words k'" "words k" "brk m" "fl = PUT_REPLACE" d "Tab a c es"] 6(6) show ?case
    by (simp add: keys_apart_def plenty_get_def sym_get_tree [OF mem_plenty_fine 6(3) p(1)]
        sym_get_tree [OF mem_plenty_fine 6(3) t])
qed

section \<open>Stepping through a table\<close>

lemma mem_ok_sstore: "mem_ok m \<Longrightarrow> 0 < a \<Longrightarrow> a < brk m \<Longrightarrow> mem_ok (sstore a x m)"
  by (auto simp: mem_ok_def sstore_def)

lemma reps_sstore_hdr:
  assumes "reps m es" "a \<notin> set (addrss es)" "cells m a = Some (Hdr s c)"
  shows "reps (sstore a (Hdr s' c') m) es"
proof -
  have "0 < a" "a < brk m" using assms(1,3) by (auto simp: reps_def mem_ok_def)
  moreover have "x \<noteq> a" if "(x, y) \<in> set (layouts es)" for x y using assms(2) that by force
  ultimately show ?thesis
    using assms(1,3) mem_ok_sstore [of m a "Hdr s' c'"]
    by (fastforce simp: reps_def holds_def leaf_ok_def sstore_def)
qed

lemma set_cursor_rep:
  assumes "rep m (Tab a c es)"
  shows "rep (sstore a (Hdr (first es) cur) m) (Tab a cur es)"
  using assms reps_sstore_hdr [of m es a "first es" c "first es" cur] by (simp add: rep_Tab sstore_def)

text \<open>The entries of a list of nodes as the caller of \<^verbatim>\<open>sym_seq\<close> gets them: key and data pointer.\<close>

fun entries :: "sents \<Rightarrow> (nat \<times> nat) list" where
  "entries SNil = []"
| "entries (SCons n ka k t es) = (ka, dptr t) # entries es"

text \<open>The codes and entries that the calls of a loop give whose condition is \<^verbatim>\<open>sym_seq(.., R_NEXT) == 0\<close>.\<close>

fun seq_loop :: "nat \<Rightarrow> mem_env \<Rightarrow> nat \<Rightarrow> (int \<times> symmem \<times> nat \<times> nat) outcome \<Rightarrow> ((nat \<times> nat) list \<times> symmem) outcome" where
  "seq_loop 0 me tb r = Fault"
| "seq_loop (Suc f) me tb r = bind_outcome r (\<lambda>(rc, m, k, d).
     if rc \<noteq> 0 then Ok ([], m)
     else bind_outcome (seq_loop f me tb (sym_seq me m tb [] R_NEXT)) (\<lambda>(kds, m'). Ok ((k, d) # kds, m')))"

lemma seq_loop_entries:
  assumes "rep m (Tab a c es)" "reps m L" "a \<notin> set (addrss L)" "sents_len L < f"
  shows "seq_loop f me a (set_cursor m a (first L)) = Ok (entries L, sstore a (Hdr (first es) 0) m)"
  using assms
proof (induction L arbitrary: f m c rule: sents_induct)
  case SNil
  then obtain f' where "f = Suc f'" by (cases f) auto
  with SNil show ?case by (simp add: set_cursor_def hdr_Tab)
next
  case (SCons n ka k t L)
  then obtain f' where f: "f = Suc f'" by (cases f) auto
  let ?m = "sstore a (Hdr (first es) n) m"
  have a: "cells m a = Some (Hdr (first es) c)" using SCons.prems(1) by (simp add: rep_Tab)
  have m: "rep ?m (Tab a n es)" "reps ?m (SCons n ka k t L)"
    using set_cursor_rep [OF SCons.prems(1)] reps_sstore_hdr [OF SCons.prems(2,3) a] by auto
  then have n: "nod ?m n = Ok (first L, ka, dptr t)" "0 < n" "reps ?m L"
    by (simp_all add: reps_SCons nod_def)
  have "seq_loop f' me a (set_cursor ?m a (first L)) = Ok (entries L, sstore a (Hdr (first es) 0) ?m)"
    using SCons.IH [OF m(1) n(3), of f'] SCons.prems(3,4) f by simp
  moreover have "sym_seq me ?m a [] R_NEXT = set_cursor ?m a (first L)"
    using n by (simp add: sym_seq_def hdr_Tab [OF m(1)])
  moreover have "set_cursor m a (first (SCons n ka k t L)) = Ok (0, ?m, ka, dptr t)"
    using n by (simp add: set_cursor_def hdr_Tab [OF SCons.prems(1)])
  ultimately show ?case using f by (simp add: sstore_def)
qed

text \<open>Stepping from the start of the table, and from the start of the table found under a key.\<close>

lemma seq_first_all:
  assumes "rep m (Tab a c es)"
  shows "seq_loop (brk m + 1) me a (sym_seq me m a key R_FIRST) = Ok (entries es, sstore a (Hdr (first es) 0) m)"
  using seq_loop_entries [OF assms, of es "brk m + 1" me] assms sents_len_brk [of m es]
  by (simp add: sym_seq_def hdr_Tab [OF assms] rep_Tab)

lemma tget_sub: "tget t ks = Some u \<Longrightarrow> set (layout u) \<subseteq> set (layout t)"
proof (induction t ks rule: tget.induct)
  case (3 a c es k ks)
  then show ?case using sfind_layout by (fastforce split: option.splits)
qed auto

lemma tget_rep: "rep m t \<Longrightarrow> tget t ks = Some u \<Longrightarrow> rep m u"
proof (induction t ks rule: tget.induct)
  case (3 a c es k ks)
  then show ?case using sfind_Some [of m es k] by (fastforce simp: rep_Tab split: option.splits)
qed auto

lemma seq_cursor_all:
  assumes "mem_fine me" "good_key key" "rep m (Tab a c es)"
    "tget (Tab a c es) (words key) = Some (Tab b c' L)"
  shows "seq_loop (brk m + 1) me a (sym_seq me m a key R_CURSOR) = Ok (entries L, sstore a (Hdr (first es) 0) m)"
proof -
  obtain k ks where ks: "words key = k # ks" using good_key_words [OF assms(2)] by (cases "words key") auto
  have b: "rep m (Tab b c' L)" using tget_rep [OF assms(3,4)] .
  then have L: "reps m L" "b \<noteq> 0" by (simp_all add: rep_Tab)
  have "set (layout (Tab b c' L)) \<subseteq> set (layouts es)"
  proof -
    from assms(4) ks obtain n nx ka u where "sfind es k = Some (n, nx, ka, u)" "tget u ks = Some (Tab b c' L)"
      by (auto split: option.splits)
    then show ?thesis using tget_sub sfind_layout by blast
  qed
  then have "a \<notin> set (addrss L)" using assms(3) by (auto simp: rep_Tab)
  moreover have "is_magic m b = Ok True" using is_magic_rep [OF b] L(2) by simp
  moreover have "sym_get me m a key = Ok b" using sym_get_tree [OF assms(1-3)] assms(4) by simp
  ultimately show ?thesis
    using seq_loop_entries [OF assms(3) L(1), of "brk m + 1" me] L sents_len_brk [OF L(1)] hdr_Tab [OF b]
    by (simp add: sym_seq_def)
qed

section \<open>Removing a table\<close>

definition del :: "nat set \<Rightarrow> symmem \<Rightarrow> symmem" where
  "del A m = m\<lparr>cells := (cells m) |` (- A)\<rparr>"

lemma del_fields [simp]: "cells (del A m) x = (if x \<in> A then None else cells m x)" "brk (del A m) = brk m"
  by (simp_all add: del_def)

lemma del_empty [simp]: "del {} m = m"
  by (auto simp: del_def restrict_map_def intro!: symmem_eqI)

lemma del_del [simp]: "del A (del B m) = del (A \<union> B) m"
  by (auto simp: del_def restrict_map_def fun_eq_iff intro!: symmem_eqI)

lemma sfree_del: "a \<noteq> 0 \<Longrightarrow> cells m a \<noteq> None \<Longrightarrow> sfree a m = Ok (del {a} m)"
  by (auto simp: sfree_def del_def restrict_map_def fun_eq_iff intro!: symmem_eqI)

text \<open>The blocks that belong to a tree: headers, nodes, leaves other than NULL, and keys if \<open>rk\<close>.\<close>

primrec owned :: "bool \<Rightarrow> stree \<Rightarrow> nat set" and owneds :: "bool \<Rightarrow> sents \<Rightarrow> nat set" where
  "owned rk (Leaf p) = {p} - {0}"
| "owned rk (Tab a c es) = insert a (owneds rk es)"
| "owneds rk SNil = {}"
| "owneds rk (SCons n ka k t es) = insert n (if rk then {ka} else {}) \<union> owned rk t \<union> owneds rk es"

text \<open>All these blocks are different, and present.\<close>

primrec blocks :: "stree \<Rightarrow> nat list" and blockss :: "sents \<Rightarrow> nat list" where
  "blocks (Leaf p) = (if p = 0 then [] else [p])"
| "blocks (Tab a c es) = a # blockss es"
| "blockss SNil = []"
| "blockss (SCons n ka k t es) = n # ka # blocks t @ blockss es"

lemma owned_blocks: "owned rk t \<subseteq> set (blocks t)" and owneds_blocks: "owneds rk es \<subseteq> set (blockss es)"
  by (induction t and es) auto

lemma addrs_blocks: "set (addrs t) \<subseteq> set (blocks t)" "set (addrss es) \<subseteq> set (blockss es)"
  by (induction t and es) auto

lemma leaves_blocks: "set (leaves t) \<subseteq> insert 0 (set (blocks t))" "set (leavess es) \<subseteq> insert 0 (set (blockss es))"
  by (induction t and es) auto

definition present :: "symmem \<Rightarrow> (nat \<times> scell) list \<Rightarrow> nat list \<Rightarrow> bool" where
  "present m L ps \<longleftrightarrow> (\<forall>(x, c) \<in> set L. cells m x = Some c \<and> x \<noteq> 0) \<and> (\<forall>p \<in> set ps. leaf_ok m p)"

lemma present_append: "present m (L @ L') (ps @ ps') \<longleftrightarrow> present m L ps \<and> present m L' ps'"
  by (auto simp: present_def)

lemma present_del_all:
  assumes "present m L ps" "A \<inter> fst ` set L = {}" "A \<inter> set ps \<subseteq> {0}"
  shows "present (del A m) L ps"
proof -
  have "x \<notin> A" if "(x, c) \<in> set L" for x c using assms(2) that by force
  moreover have "p = 0 \<or> p \<notin> A" if "p \<in> set ps" for p using assms(3) that by blast
  ultimately show ?thesis using assms(1) by (auto simp: present_def leaf_ok_def split: if_splits)
qed

lemma present_del:
  assumes "present m (layout t) (leaves t)" "A \<inter> set (blocks t) = {}"
  shows "present (del A m) (layout t) (leaves t)"
proof (rule present_del_all [OF assms(1)])
  show "A \<inter> fst ` set (layout t) = {}" using assms(2) addrs_blocks(1) [of t] by (simp only: set_map) blast
  show "A \<inter> set (leaves t) \<subseteq> {0}" using assms(2) leaves_blocks(1) [of t] by blast
qed

lemma presents_del:
  assumes "present m (layouts es) (leavess es)" "A \<inter> set (blockss es) = {}"
  shows "present (del A m) (layouts es) (leavess es)"
proof (rule present_del_all [OF assms(1)])
  show "A \<inter> fst ` set (layouts es) = {}" using assms(2) addrs_blocks(2) [of es] by (simp only: set_map) blast
  show "A \<inter> set (leavess es) \<subseteq> {0}" using assms(2) leaves_blocks(2) [of es] by blast
qed

primrec rm_depth :: "stree \<Rightarrow> nat" and rm_depths :: "sents \<Rightarrow> nat" where
  "rm_depth (Leaf p) = 1"
| "rm_depth (Tab a c es) = Suc (rm_depths es)"
| "rm_depths SNil = 0"
| "rm_depths (SCons n ka k t es) = Suc (max (rm_depth t) (rm_depths es))"

lemma rm_depth_le: "rm_depth t \<le> Suc (length (layout t))" and rm_depths_le: "rm_depths es \<le> length (layouts es)"
  by (induction t and es) auto

text \<open>What \<^verbatim>\<open>sym_rm\<close> frees of one tree: with \<^verbatim>\<open>RM_DATA\<close> the block itself is left to the caller.\<close>

definition rm_set :: "bool \<Rightarrow> bool \<Rightarrow> stree \<Rightarrow> nat set" where
  "rm_set rk rd t = (if rd then owned rk t - {dptr t} else owned rk t)"

lemma sfree_data:
  assumes "present m (layout t) (leaves t)" "dptr t \<notin> A"
  shows "sfree (dptr t) (del A m) = Ok (del ({dptr t} - {0}) (del A m))"
proof (cases "dptr t = 0")
  case False
  then have "cells m (dptr t) \<noteq> None" using assms(1) by (cases t) (auto simp: present_def leaf_ok_def)
  with False assms(2) show ?thesis by (subst sfree_del) auto
qed (simp add: sfree_def)

lemma dptr_blocks: "dptr t \<noteq> 0 \<Longrightarrow> dptr t \<in> set (blocks t)"
  by (cases t) auto

lemma owned_dptr: "present m (layout t) (leaves t) \<Longrightarrow> dptr t \<noteq> 0 \<Longrightarrow> dptr t \<in> owned rk t"
  by (cases t) auto

lemma owned_0: "present m (layout t) (leaves t) \<Longrightarrow> dptr t = 0 \<Longrightarrow> owned rk t = {}"
  by (cases t) (auto simp: present_def)

lemmas sym_rm_Suc = sym_rm_f.simps [of "Suc f" for f, simplified]
lemmas rm_nodes_0 = rm_nodes.simps [of 0, simplified]
lemmas rm_nodes_Suc = rm_nodes.simps [of "Suc f" for f, simplified]

lemma rm_tree:
  "present m (layout t) (leaves t) \<Longrightarrow> distinct (blocks t) \<Longrightarrow> rm_depth t \<le> f \<Longrightarrow>
     sym_rm_f f rk rd (dptr t) m = Ok (del (rm_set rk rd t) m)"
  "present m (layouts es) (leavess es) \<Longrightarrow> distinct (blockss es) \<Longrightarrow> rm_depths es \<le> f \<Longrightarrow>
     rm_nodes f rk rd (first es) m = Ok (del (owneds rk es) m)"
proof (induction t and es arbitrary: m f and m f)
  case (Leaf p)
  then obtain f' where f: "f = Suc f'" by (cases f) auto
  show ?case
  proof (cases "p = 0")
    case True
    then show ?thesis using f by (simp add: sym_rm_Suc rm_set_def)
  next
    case False
    then obtain s where s: "cells m p = Some (Txt s)" "take 4 s \<noteq> magic_bytes"
      using Leaf.prems(1) by (auto simp: present_def leaf_ok_def)
    then have "is_magic m p = Ok False" "sfree p m = Ok (del {p} m)" using False by (simp_all add: is_magic_def sfree_del)
    with False f show ?thesis by (simp add: sym_rm_Suc rm_set_def)
  qed
next
  case (Tab a c es)
  then obtain f' where f: "f = Suc f'" by (cases f) auto
  have a: "cells m a = Some (Hdr (first es) c)" "a \<noteq> 0" "present m (layouts es) (leavess es)"
    "a \<notin> owneds rk es" using Tab.prems owneds_blocks [of rk es] by (auto simp: present_def)
  have "rm_nodes f' rk rd (first es) m = Ok (del (owneds rk es) m)"
    using Tab.IH [OF a(3)] Tab.prems f by simp
  with a f show ?case by (auto simp: sym_rm_Suc is_magic_def hdr_def sfree_del rm_set_def)
next
  case SNil
  then show ?case by (cases f) (auto simp: rm_nodes_0 rm_nodes_Suc)
next
  case (SCons n ka k t es)
  then obtain f' where f: "f = Suc f'" by (cases f) auto
  let ?A = "rm_set rk rd t" and ?K = "if rk then {ka} else {}" and ?D = "if rd then {dptr t} - {0} else {}"
  have m: "cells m n = Some (Nod (first es) ka (dptr t))" "n \<noteq> 0" "cells m ka = Some (Txt k)" "ka \<noteq> 0"
    "present m (layout t) (leaves t)" "present m (layouts es) (leavess es)"
    using SCons.prems(1) by (auto simp: present_def)
  have d: "n \<notin> set (blocks t)" "n \<notin> set (blockss es)" "ka \<notin> set (blocks t)" "ka \<notin> set (blockss es)" "n \<noteq> ka"
    "set (blocks t) \<inter> set (blockss es) = {}" "distinct (blocks t)" "distinct (blockss es)"
    using SCons.prems(2) by auto
  have A: "?A \<subseteq> set (blocks t)" "?D \<subseteq> set (blocks t)"
    using owned_blocks [of rk t] dptr_blocks [of t] by (auto simp: rm_set_def)
  have t: "sym_rm_f f' rk rd (dptr t) m = Ok (del ?A m)"
    using SCons.IH(1) [OF m(5) d(7)] SCons.prems(3) f by simp
  have out: "ka \<notin> ?A" "n \<notin> ?A" "n \<notin> ?D \<union> (?K \<union> ?A)" using A d(1,3,5) by auto
  have n1: "nod (del ?A m) n = Ok (first es, ka, dptr t)" using m(1,2) out(2) by (simp add: nod_def)
  have k1: "(if rk then sfree ka (del ?A m) else Ok (del ?A m)) = Ok (del (?K \<union> ?A) m)"
    using m(3,4) out(1) by (cases rk) (simp_all add: sfree_del)
  have d1: "(if rd then sfree (dptr t) (del (?K \<union> ?A) m) else Ok (del (?K \<union> ?A) m)) = Ok (del (?D \<union> (?K \<union> ?A)) m)"
  proof (cases rd)
    case True
    have "dptr t \<noteq> ka" using d(3) dptr_blocks [of t] m(4) by auto
    then have "dptr t \<notin> ?K \<union> ?A" using True by (simp add: rm_set_def)
    from sfree_data [OF m(5) this] True show ?thesis by simp
  qed simp
  have n2: "sfree n (del (?D \<union> (?K \<union> ?A)) m) = Ok (del ({n} \<union> (?D \<union> (?K \<union> ?A))) m)"
    using m(1,2) out(3) by (subst sfree_del) simp_all
  have "({n} \<union> (?D \<union> (?K \<union> ?A))) \<inter> set (blockss es) = {}" using d(2,4,6) A by auto
  from presents_del [OF m(6) this]
  have "rm_nodes f' rk rd (first es) (del ({n} \<union> (?D \<union> (?K \<union> ?A))) m) = Ok (del (owneds rk es \<union> ({n} \<union> (?D \<union> (?K \<union> ?A)))) m)"
    using SCons.IH(2) [of "del ({n} \<union> (?D \<union> (?K \<union> ?A))) m" f'] d(8) SCons.prems(3) f by simp
  moreover have "?A \<union> ?D = owned rk t"
    using owned_dptr [OF m(5), of rk] owned_0 [OF m(5), of rk] by (cases "dptr t = 0") (auto simp: rm_set_def)
  then have "owneds rk es \<union> ({n} \<union> (?D \<union> (?K \<union> ?A))) = owneds rk (SCons n ka k t es)" by auto
  moreover have "nod m n = Ok (first es, ka, dptr t)" using m(1,2) by (simp add: nod_def)
  ultimately show ?case
    using f m(2) t n1 k1 d1 n2 by (simp only: first.simps rm_nodes_Suc if_False bind_outcome.simps split_conv)
qed

lemma sym_rm_tree:
  assumes "rep m (Tab a c es)" "distinct (blocks (Tab a c es))"
  shows "sym_rm rk rd a m = Ok (del (rm_set rk rd (Tab a c es)) m)"
proof -
  have p: "present m (layout (Tab a c es)) (leaves (Tab a c es))"
    using assms(1) by (auto simp: rep_def holds_def present_def)
  have "length (layout (Tab a c es)) \<le> brk m"
    using assms(1) distinct_below [of "addrs (Tab a c es)" "brk m"] by (auto simp: rep_def holds_def)
  then have "rm_depth (Tab a c es) \<le> 2 * brk m + 2"
    using rm_depth_le [of "Tab a c es"] by simp
  from rm_tree(1) [OF p assms(2) this] show ?thesis by (simp add: sym_rm_def)
qed

section \<open>Properties\<close>

text \<open>A store with an empty table at 1 and two strings.\<close>

definition demo_store :: symmem where
  "demo_store = \<lparr>cells = [1 \<mapsto> Hdr 0 0, 2 \<mapsto> Txt ''PASS'', 3 \<mapsto> Txt ''FAIL''], brk = 4, room = 50\<rparr>"

lemma demo_rep: "rep demo_store (Tab 1 0 SNil)" "leaf_ok demo_store 2" "leaf_ok demo_store 3"
  by (auto simp: demo_store_def rep_Tab mem_ok_def leaf_ok_def magic_bytes_def)

lemma demo_words: "words ''fork01,1'' = [''fork01'', ''1'']" "words ''fork01'' = [''fork01'']" "words ''fork02,1'' = [''fork02'', ''1'']"
  by code_simp+

text \<open>
  C13: the table is a tree of entries. For a key that does not start with a comma, \<^verbatim>\<open>sym_get\<close>
  returns the data pointer at the path of the key's words, NULL if there is none; and \<^verbatim>\<open>sym_put\<close>
  returns the code of the put on the tree (0, EEXIST for an entry that is there and not to be
  replaced, ENOTDIR where the path runs through data that is not a table) and leaves a store that
  represents the new tree, whatever else the store contains.
\<close>

theorem sym_table_refines:
  assumes "mem_fine me" "good_key key" "rep m (Tab a c es)" "leaf_ok m d" "key_room m key"
  shows "sym_get me m a key = Ok (case tget (Tab a c es) (words key) of None \<Rightarrow> 0 | Some u \<Rightarrow> dptr u) \<and>
    (\<exists>rc m' es'. sym_put me m a key d fl = Ok (rc, m') \<and> rep m' (Tab a c es') \<and>
      tput (brk m) (fl = PUT_REPLACE) d (Tab a c es) (words key) = (rc, Tab a c es'))"
  using sym_get_tree [OF assms(1-3)] sym_put_step [OF assms, of fl] by blast

theorem sym_table_refines_witness:
  "sym_get mem_plenty demo_store 1 ''fork01,1'' = Ok 0 \<and>
   (\<exists>m'. sym_put mem_plenty demo_store 1 ''fork01,1'' 2 0 = Ok (0, m') \<and>
      rep m' (Tab 1 0 (SCons 5 6 ''fork01'' (Tab 4 0 (SCons 7 8 ''1'' (Leaf 2) SNil)) SNil)))"
proof -
  have k: "good_key ''fork01,1''" "key_room demo_store ''fork01,1''"
    by (simp_all add: good_key_def key_room_def demo_words demo_store_def)
  from sym_table_refines [OF mem_plenty_fine k(1) demo_rep(1,2) k(2), of 0] show ?thesis
    by (auto simp: demo_words demo_store_def PUT_REPLACE_def)
qed

text \<open>
  What is put can be got. On every table, \<^verbatim>\<open>sym_put\<close> under a key that does not start with a
  comma returns and leaves a table: after code 0 \<^verbatim>\<open>sym_get\<close> returns the data under that key, after
  another code the store is unchanged, an entry with data can always be replaced, and a key of
  which neither is a beginning of the other gives what it gave before.
\<close>

lemma sym_put_get:
  assumes "tab_at a m" "good_key k" "good_key k'" "leaf_ok m d" "key_room m k"
  shows "\<exists>rc m'. sym_put mem_plenty m a k d fl = Ok (rc, m') \<and> tab_at a m' \<and>
    (rc = 0 \<longrightarrow> sym_get mem_plenty m' a k = Ok d) \<and> (rc \<noteq> 0 \<longrightarrow> m' = m) \<and>
    (fl = PUT_REPLACE \<and> sym_get mem_plenty m a k \<noteq> Ok 0 \<longrightarrow> rc = 0) \<and>
    (keys_apart k k' \<longrightarrow> sym_get mem_plenty m' a k' = sym_get mem_plenty m a k')"
proof -
  note A = assms(1,2,4,5)
  from st.put_returns [OF A, of fl] obtain rc m' where m': "plenty_put a m k d fl = Ok (rc, m')" "tab_at a m'" by auto
  from st.get_returns [OF assms(1,2)] obtain p where p: "plenty_get a m k = Ok p" by auto
  have "rc = 0" if "fl = PUT_REPLACE" "p \<noteq> 0" using st.replace_present [OF A p that(2)] m'(1) that(1) by auto
  then show ?thesis
    using m' p st.put_seen [OF A, of fl] st.put_failed [OF A m'(1)] st.put_apart [OF assms(1-3,4,5) _ m'(1)]
    by (auto simp: plenty_put_def plenty_get_def)
qed

text \<open>
  C31: removing a table frees each of its blocks once and nothing else: nodes, headers of the
  tables below it and the data of all entries, the data also without \<^verbatim>\<open>RM_DATA\<close>; the keys only with
  \<^verbatim>\<open>RM_KEY\<close>; and the header of the table itself only without \<^verbatim>\<open>RM_DATA\<close>.
\<close>

theorem sym_rm_frees:
  assumes "rep m (Tab a c es)" "distinct (blocks (Tab a c es))"
  shows "sym_rm rk rd a m = Ok (del (owneds rk es \<union> (if rd then {} else {a})) m)"
proof -
  have "a \<notin> owneds rk es" using assms(2) owneds_blocks [of rk es] by auto
  then show ?thesis using sym_rm_tree [OF assms, of rk rd] by (auto simp: rm_set_def)
qed

theorem sym_rm_frees_witness:
  "\<exists>m'. sym_rm True True 1 (demo_store\<lparr>cells := [1 \<mapsto> Hdr 4 0, 2 \<mapsto> Txt ''PASS'', 4 \<mapsto> Nod 0 5 2, 5 \<mapsto> Txt ''k''], brk := 6\<rparr>) = Ok m' \<and>
     cells m' = [1 \<mapsto> Hdr 4 0]"
proof -
  let ?m = "demo_store\<lparr>cells := [1 \<mapsto> Hdr 4 0, 2 \<mapsto> Txt ''PASS'', 4 \<mapsto> Nod 0 5 2, 5 \<mapsto> Txt ''k''], brk := 6\<rparr>"
  have r: "rep ?m (Tab 1 0 (SCons 4 5 ''k'' (Leaf 2) SNil))"
    by (auto simp: rep_def holds_def mem_ok_def leaf_ok_def magic_bytes_def demo_store_def)
  from sym_rm_frees [OF r, of True True] show ?thesis
    by (auto simp: demo_store_def del_def restrict_map_def fun_eq_iff)
qed

text \<open>
  A key without a word before its first comma. For the empty key, and for every key that
  starts with a comma, \<^verbatim>\<open>sym_get\<close> on a table is a fault: there is no node to take the data of, or
  the pointer given to \<^verbatim>\<open>free\<close> is not the start of the copied key.
\<close>

lemma sym_get_bad_key:
  assumes "mem_fine me" "\<not> good_key key" "tab_at a m"
  shows "sym_get me m a key = Fault"
proof -
  from assms(3) obtain c es where t: "rep m (Tab a c es)" by (auto simp: tab_at_def)
  have a: "a \<noteq> 0" "strdup_ok me" using t assms(1) by (auto simp: rep_Tab mem_fine_def)
  from splitstr_cycle [OF assms(1), of key "Some '',''"] obtain arr n where
    s: "splitstr me (Some key) (Some '','') = Ok (Some arr, n)" "argv_of arr = words key"
      "splitstr_free (Some arr) = (if words key = [] then Ok False else if hd key = CHR '','' then Fault else Ok True)" by auto
  have n0: "nod m 0 = Fault" by (auto simp: nod_def split: option.splits scell.splits)
  show ?thesis
  proof (cases "words key = []")
    case True
    with s a n0 show ?thesis by (simp add: sym_get_def)
  next
    case False
    then have "hd key = CHR '',''" using assms(2) by (cases key) (auto simp: good_key_def tokens_None strtok_def)
    with False s a walk_get [OF t False, of 0] show ?thesis by (auto simp: sym_get_def)
  qed
qed

section \<open>Tables that own their data\<close>

text \<open>
  A table none of whose blocks, the data of its entries included, is used twice. Then what a
  put replaces can be freed.
\<close>

definition owns :: "symmem \<Rightarrow> stree \<Rightarrow> bool" where
  "owns m t \<longleftrightarrow> rep m t \<and> distinct (blocks t)"

lemma sput_blocks:
  "sfind es k = Some (n, nx, ka, u) \<Longrightarrow>
     mset (blockss (sput es k u')) + mset (blocks u) = mset (blockss es) + mset (blocks u')"
  by (induction es rule: sents_induct) (auto split: if_splits simp: ac_simps)

lemma sapp_blocks: "mset (blockss (sapp es e)) = mset (blockss es) + mset (blockss e)"
  by (induction es rule: sents_induct) auto

lemma chain_blocks:
  "ks \<noteq> [] \<Longrightarrow> d \<noteq> 0 \<Longrightarrow> 0 < n \<Longrightarrow> mset (blockss (chain n ks d)) = mset (addrss (chain n ks d)) + {#d#}"
  by (induction n ks d rule: chain.induct) auto

lemma tput_blocks:
  assumes "d \<noteq> 0" "0 < f"
  shows "mset (blocks (snd (tput f r d t ks))) \<subseteq># mset (blocks t) + (mset [f..<f + need t ks] + {#d#})"
  using assms
proof (induction f r d t ks rule: tput.induct)
  case (1 f repl d t)
  then show ?case by simp
next
  case (2 f repl d p k ks)
  then show ?case by simp
next
  case (3 f repl d a c es k ks)
  show ?case
  proof (cases "sfind es k")
    case None
    have "mset (addrss (chain f (k # ks) d)) \<subseteq># mset [f..<f + (3 * length (k # ks) - 1)]"
      using layouts_chain [of "k # ks" f d] by (intro distinct_subset_mset) auto
    with None "3.prems" show ?thesis
      by (simp add: sapp_blocks chain_blocks add_mset_commute del: mset_map mset_upt length_Cons chain.simps)
  next
    case (Some q)
    then obtain n nx ka u where q: "sfind es k = Some (n, nx, ka, u)" by (cases q) auto
    obtain rc u' where u': "tput f repl d u ks = (rc, u')" by fastforce
    let ?R = "mset [f..<f + need u ks] + {#d#}"
    have "mset (blockss (sput es k u')) + mset (blocks u) \<subseteq># mset (blockss es) + (mset (blocks u) + ?R)"
      using "3.IH" [OF q refl refl refl "3.prems"] u' sput_blocks [OF q, of u'] by (simp del: mset_upt)
    then have "mset (blockss (sput es k u')) \<subseteq># mset (blockss es) + ?R" by (rule mset_cancel_middle)
    then show ?thesis using q u' by (simp del: mset_upt)
  qed
qed

lemma tput_replaced:
  assumes "tget t ks = Some (Leaf old)" "old \<noteq> 0" "d \<noteq> 0"
  shows "mset (blocks (snd (tput f True d t ks))) + {#old#} = mset (blocks t) + {#d#}"
  using assms
proof (induction t ks rule: tget.induct)
  case (3 a c es k ks)
  then obtain n nx ka u where q: "sfind es k = Some (n, nx, ka, u)" "tget u ks = Some (Leaf old)"
    by (auto split: option.splits)
  obtain rc u' where u': "tput f True d u ks = (rc, u')" by fastforce
  have "mset (blocks u') + {#old#} = mset (blocks u) + {#d#}"
    using "3.IH" [OF q(1) refl refl refl q(2) "3.prems"(2,3)] u' by simp
  then have "mset (blockss (sput es k u')) + {#old#} + mset (blocks u) = mset (blockss es) + {#d#} + mset (blocks u)"
    using sput_blocks [OF q(1), of u'] by (metis add.assoc add.commute)
  then show ?case using q(1) u' by simp
qed auto

lemma blocks_below:
  assumes "rep m t" "x \<in> set (blocks t)"
  shows "0 < x \<and> x < brk m"
proof -
  have "set (blocks t) \<subseteq> set (addrs t) \<union> (set (leaves t) - {0})" "set (blockss es) \<subseteq> set (addrss es) \<union> (set (leavess es) - {0})" for t es
    by (induction t and es) auto
  then have "x \<in> set (addrs t) \<or> x \<in> set (leaves t) - {0}" using assms(2) by blast
  then show ?thesis using assms(1) by (auto simp: rep_def holds_def leaf_ok_def mem_ok_def)
qed

lemma rep_del: "rep m t \<Longrightarrow> A \<inter> set (blocks t) = {} \<Longrightarrow> rep (del A m) t"
proof -
  assume t: "rep m t" and A: "A \<inter> set (blocks t) = {}"
  have "x \<notin> A" if "(x, c) \<in> set (layout t)" for x c using that A addrs_blocks(1) [of t] by force
  moreover have "p = 0 \<or> p \<notin> A" if "p \<in> set (leaves t)" for p using that A leaves_blocks(1) [of t] by blast
  ultimately show ?thesis
    using t by (auto simp: rep_def holds_def mem_ok_def leaf_ok_def)
qed

end
