(* ===== verification/Tag_Report.thy ===== *)
theory Tag_Report
  imports Symbol_Tree
begin

text \<open>
  \<^verbatim>\<open>pan/tag_report.c\<close> and \<^verbatim>\<open>pan/reporter.c\<close>: the reports of the result scanner. The records of a
  test are tables of \<^verbatim>\<open>pan/symbol.c\<close>; strings are blocks of the store or literals of the program,
  and since \<^verbatim>\<open>test_result\<close> writes into the string it reports, the difference matters: writing
  into a literal is a fault. An operation returns the new store and the text printed. The
  command line flag \<^verbatim>\<open>extended\<close> is an argument.
\<close>

section \<open>Definitions\<close>

datatype cptr = Lit cstr | Ptr nat

definition cstr_at :: "symmem \<Rightarrow> cptr \<Rightarrow> cstr outcome" where
  "cstr_at m p = (case p of Lit s \<Rightarrow> Ok s | Ptr a \<Rightarrow> txt_at m a)"

definition KEYSIZE :: nat where "KEYSIZE = 255"

text \<open>The line of a result, \<^verbatim>\<open>FORMAT\<close>.\<close>

definition report_line :: "cstr \<Rightarrow> cstr \<Rightarrow> cstr \<Rightarrow> cstr \<Rightarrow> cstr \<Rightarrow> cstr" where
  "report_line tag tcid tc res contact =
     fmt_left 20 20 tag @ '' '' @ fmt_left 15 15 tcid @ '' '' @ fmt_right 10 10 tc @ '' ''
     @ fmt_left 20 20 res @ '' '' @ contact @ [newline]"

text \<open>The loop that replaces blanks in the result, in place.\<close>

definition blanks_out :: "cstr \<Rightarrow> cstr" where
  "blanks_out s = map (\<lambda>c. if c = CHR '' '' then CHR ''_'' else c) s"

definition tr_blanks :: "symmem \<Rightarrow> cptr \<Rightarrow> symmem outcome" where
  "tr_blanks m p = (case p of
       Lit s \<Rightarrow> if CHR '' '' \<in> set s then Fault else Ok m
     | Ptr a \<Rightarrow> bind_outcome (txt_at m a) (\<lambda>s. Ok (sstore a (Txt (blanks_out s)) m)))"

definition test_result ::
    "mem_env \<Rightarrow> symmem \<Rightarrow> cptr option \<Rightarrow> cptr option \<Rightarrow> cptr option \<Rightarrow> cptr option \<Rightarrow> nat \<Rightarrow> (symmem \<times> cstr) outcome"
where
  "test_result me m tag tcid tc res tags =
     (let tcid1 = (case tcid of None \<Rightarrow> Lit ''-'' | Some p \<Rightarrow> p);
          tc1 = (case tc of None \<Rightarrow> Lit ''-'' | Some p \<Rightarrow> p);
          tag1 = (case tag of None \<Rightarrow> Lit ''test_result: no tag'' | Some p \<Rightarrow> p);
          res1 = (case res of None \<Rightarrow> Lit ''(RESULT IS NULL)'' | Some p \<Rightarrow> p)
      in bind_outcome (sym_get me m tags ''contacts'') (\<lambda>e.
         bind_outcome (tr_blanks m res1) (\<lambda>m1.
         bind_outcome (cstr_at m1 (if e = 0 then Lit ''UNKNOWN'' else Ptr e)) (\<lambda>expert.
         bind_outcome (splitstr me (Some expert) (Some '','')) (\<lambda>(cont, n).
         case cont of
           None \<Rightarrow> Fault
         | Some arr \<Rightarrow>
             bind_outcome (cstr_at m1 tag1) (\<lambda>tag2.
             bind_outcome (cstr_at m1 tcid1) (\<lambda>tcid2.
             bind_outcome (cstr_at m1 tc1) (\<lambda>tc2.
             bind_outcome (cstr_at m1 res1) (\<lambda>res2.
             bind_outcome (splitstr_free cont) (\<lambda>b.
               Ok (m1, concat (map (report_line tag2 tcid2 tc2 (if res2 = [] then ''?'' else res2)) (argv_of arr)))))))))))))"

text \<open>\<^verbatim>\<open>worst_case\<close>: the index in the table is 6, that of its end, for any other status.\<close>

definition worst_table :: "cstr list" where
  "worst_table = [''FAIL'', ''BROK'', ''PASS'', ''CONF'', ''WARN'', ''INFO'']"

definition severity :: "cstr \<Rightarrow> nat" where
  "severity t = length (takeWhile (\<lambda>w. w \<noteq> t) worst_table)"

definition worst_case :: "cstr \<Rightarrow> cstr \<Rightarrow> cstr" where
  "worst_case t1 t2 = (if severity t1 < severity t2 then t1 else t2)"

text \<open>
  \<^verbatim>\<open>cuts_testcase\<close>: one record of a test case, \<^verbatim>\<open>yytext\<close>. The key goes to a buffer of 255 bytes.
  A failing \<^verbatim>\<open>strdup\<close> puts NULL into the table.
\<close>

definition cuts_key :: "cstr list \<Rightarrow> cstr outcome" where
  "cuts_key info = (case info of
       tcid # tc # _ \<Rightarrow> if length (tcid @ '','' @ tc) < KEYSIZE then Ok (tcid @ '','' @ tc) else Fault
     | _ \<Rightarrow> Fault)"

definition cuts_testcase :: "mem_env \<Rightarrow> symmem \<Rightarrow> nat \<Rightarrow> cstr \<Rightarrow> symmem outcome" where
  "cuts_testcase me m tag yytext =
     (let info = take 6 (tokens [tab, CHR '' ''] yytext)
      in bind_outcome (cuts_key info) (\<lambda>key.
         bind_outcome (sym_get me m tag key) (\<lambda>old.
         if length info < 3 then Fault
         else if old \<noteq> 0 then
           bind_outcome (txt_at m old) (\<lambda>t.
             (let (p, m1) = salloc (Txt (worst_case t (info ! 2))) m
              in bind_outcome (sym_put me m1 tag key p PUT_REPLACE) (\<lambda>(rc, m2). sfree old m2)))
         else
           (let (p, m1) = salloc (Txt (info ! 2)) m
            in bind_outcome (sym_put me m1 tag key p 0) (\<lambda>(rc, m2). Ok m2)))))"

text \<open>
  \<^verbatim>\<open>cuts_report\<close>. The first loop collects the test case identifiers, key by key, the nested one
  reports the records of each. \<^verbatim>\<open>sym_seq\<close> leaves \<^verbatim>\<open>Key\<close> and \<^verbatim>\<open>Data\<close> alone when it fails, and the
  loops look at its result only at their ends. The first argument bounds the rounds, as in
  \<^verbatim>\<open>sym_seq\<close>'s own walk.
\<close>

fun tcid_loop :: "nat \<Rightarrow> mem_env \<Rightarrow> symmem \<Rightarrow> nat \<Rightarrow> nat \<Rightarrow> nat \<Rightarrow> (nat list \<times> symmem \<times> nat) outcome" where
  "tcid_loop 0 me m tags k d = Fault"
| "tcid_loop (Suc f) me m tags k d =
     bind_outcome (txt_at m k) (\<lambda>kt.
     bind_outcome (sym_seq me m tags [] R_NEXT) (\<lambda>(rc, m1, k1, d1).
       (let here = (if kt = ''_keys'' then [] else [k])
        in if rc \<noteq> 0 then Ok (here, m1, d)
           else bind_outcome (tcid_loop f me m1 tags k1 d1) (\<lambda>(ks, m2, d2). Ok (here @ ks, m2, d2)))))"

record cuts_state =
  cs_mem :: symmem
  cs_out :: cstr
  cs_result :: cptr
  cs_tcnum :: int
  cs_data :: nat

fun tc_loop :: "nat \<Rightarrow> mem_env \<Rightarrow> nat \<Rightarrow> nat \<Rightarrow> cptr \<Rightarrow> nat \<Rightarrow> cptr \<Rightarrow> cuts_state \<Rightarrow> cuts_state outcome" where
  "tc_loop 0 me tags keys tag tcid k s = Fault"
| "tc_loop (Suc f) me tags keys tag tcid k s =
     bind_outcome (cstr_at (cs_mem s) (cs_result s)) (\<lambda>r1.
     bind_outcome (txt_at (cs_mem s) (cs_data s)) (\<lambda>r2.
       (let result = (if severity r1 < severity r2 then cs_result s else Ptr (cs_data s))
        in bind_outcome (test_result me (cs_mem s) (Some tag) (Some (Ptr tcid)) (Some k) (Some (Ptr (cs_data s))) keys) (\<lambda>(m1, o1).
           bind_outcome (cstr_at m1 k) (\<lambda>kt.
           bind_outcome (sym_seq me m1 tags [] R_NEXT) (\<lambda>(rc, m2, k2, d2).
             (let s1 = s\<lparr>cs_mem := m2, cs_out := cs_out s @ o1, cs_result := result,
                         cs_tcnum := cs_tcnum s + (if atoi kt \<noteq> 0 then 1 else 0)\<rparr>
              in if rc \<noteq> 0 then Ok s1
                 else tc_loop f me tags keys tag tcid (Ptr k2) (s1\<lparr>cs_data := d2\<rparr>))))))))"

fun all_tcids :: "nat \<Rightarrow> mem_env \<Rightarrow> nat \<Rightarrow> nat \<Rightarrow> cptr \<Rightarrow> nat list \<Rightarrow> cuts_state \<Rightarrow> cuts_state outcome" where
  "all_tcids f me tags keys tag [] s = Ok s"
| "all_tcids f me tags keys tag (tp # tps) s =
     bind_outcome (txt_at (cs_mem s) tp) (\<lambda>key_get.
       if KEYSIZE \<le> length key_get then Fault
       else bind_outcome (sym_seq me (cs_mem s) tags key_get R_CURSOR) (\<lambda>(rc, m1, k, d).
         bind_outcome (tc_loop f me tags keys tag tp (if rc = 0 then Ptr k else Lit key_get)
             (if rc = 0 then s\<lparr>cs_mem := m1, cs_data := d\<rparr> else s\<lparr>cs_mem := m1\<rparr>))
           (all_tcids f me tags keys tag tps)))"

definition cuts_report :: "mem_env \<Rightarrow> symmem \<Rightarrow> nat \<Rightarrow> nat \<Rightarrow> cstr \<Rightarrow> cptr \<Rightarrow> (symmem \<times> cstr) outcome" where
  "cuts_report me m tags keys at tag =
     bind_outcome (splitstr me (Some at) (Some '':'')) (\<lambda>(ant, n).
     case ant of
       None \<Rightarrow> Fault
     | Some arr \<Rightarrow>
         (let tccount = (if 1 < length (argv_of arr) then atoi (argv_of arr ! 1) else 0)
          in bind_outcome (splitstr_free ant) (\<lambda>b.
             bind_outcome (sym_seq me m tags [] R_FIRST) (\<lambda>(rc, m1, k, d).
             if rc \<noteq> 0 then Fault
             else bind_outcome (tcid_loop (brk m + 1) me m1 tags k d) (\<lambda>(tls, m2, d2).
                  bind_outcome (all_tcids (brk m + 1) me tags keys tag tls
                      \<lparr>cs_mem = m2, cs_out = [], cs_result = Lit [], cs_tcnum = 0, cs_data = d2\<rparr>) (\<lambda>s.
                  bind_outcome (test_result me (cs_mem s) (Some tag) (Some (Lit ''*'')) (Some (Lit ''*'')) (Some (cs_result s)) keys)
                    (\<lambda>(m3, o3).
                  bind_outcome
                    (if tccount \<noteq> 0 \<and> tccount \<noteq> cs_tcnum s
                     then test_result me m3 (Some tag) (Some (Lit ''-'')) (Some (Lit ''-'')) (Some (Lit ''TC count wrong'')) keys
                     else Ok (m3, [])) (\<lambda>(m4, o4). Ok (m4, cs_out s @ o3 @ o4)))))))))"

text \<open>
  \<^verbatim>\<open>tag_report\<close>: the status of the driver first, then the report that the test asked for. The
  part up to the extended line returns a code if it ends the call.
\<close>

definition is_word :: "cstr \<Rightarrow> cstr \<Rightarrow> bool" where
  "is_word w s \<longleftrightarrow> take (length w) s = w"

definition analysis_report ::
    "mem_env \<Rightarrow> symmem \<Rightarrow> nat \<Rightarrow> nat \<Rightarrow> cptr \<Rightarrow> nat \<Rightarrow> cstr \<Rightarrow> (symmem \<times> cstr) outcome"
where
  "analysis_report me m ctag keys tag tt info =
     (if is_word ''none'' info then test_result me m (Some tag) None None (Some (Lit ''pass'')) keys
      else if \<not> is_word ''cuts'' info then
        bind_outcome (txt_at m tt) (\<lambda>t.
          if t = ''timeout'' then Ok (m, [])
          else bind_outcome (sym_get me m keys ''termination_id'') (\<lambda>i.
            if i = 0 then test_result me m (Some tag) None None (Some (Lit ''no_Term_Id'')) keys
            else bind_outcome (txt_at m i) (\<lambda>id.
              test_result me m (Some tag) None None (Some (Lit (if id \<noteq> ''0'' then ''fail'' else ''pass''))) keys)))
      else cuts_report me m ctag keys info tag)"

definition driver_report ::
    "mem_env \<Rightarrow> symmem \<Rightarrow> nat \<Rightarrow> nat \<Rightarrow> cptr \<Rightarrow> (int option \<times> symmem \<times> cstr) outcome"
where
  "driver_report me m ctag keys tag =
     bind_outcome (sym_get me m keys ''corefile'') (\<lambda>c.
     bind_outcome (if c = 0 then Ok (m, [])
       else bind_outcome (txt_at m c) (\<lambda>t.
         if t \<noteq> ''no'' then test_result me m (Some tag) None None (Some (Lit ''coredump'')) keys else Ok (m, []))) (\<lambda>(m1, o1).
     bind_outcome (sym_get me m1 keys ''termination_type'') (\<lambda>tt.
     if tt = 0 then
       bind_outcome (test_result me m1 (Some tag) None None (Some (Lit ''no Term Type'')) keys) (\<lambda>(m2, o2).
         Ok (Some (-1), m2, o1 @ o2))
     else
       bind_outcome (txt_at m1 tt) (\<lambda>t.
       bind_outcome (if t \<noteq> ''exited'' then test_result me m1 (Some tag) None None (Some (Ptr tt)) keys else Ok (m1, [])) (\<lambda>(m2, o2).
       bind_outcome (sym_get me m2 keys ''analysis'') (\<lambda>an.
       if an = 0 then
         bind_outcome (test_result me m2 (Some tag) None None (Some (Lit ''no Analysis Type'')) keys) (\<lambda>(m3, o3).
           Ok (Some (-1), m3, o1 @ o2 @ o3))
       else
         bind_outcome (txt_at m2 an) (\<lambda>info.
         bind_outcome (analysis_report me m2 ctag keys tag tt info) (\<lambda>(m3, o3). Ok (None, m3, o1 @ o2 @ o3)))))))))"

definition ext_field :: "mem_env \<Rightarrow> symmem \<Rightarrow> nat \<Rightarrow> cstr \<Rightarrow> cstr \<Rightarrow> cstr outcome" where
  "ext_field me m keys key dflt = bind_outcome (sym_get me m keys key) (\<lambda>p. if p = 0 then Ok dflt else txt_at m p)"

definition extended_line :: "mem_env \<Rightarrow> symmem \<Rightarrow> nat \<Rightarrow> nat \<Rightarrow> nat \<Rightarrow> cstr outcome" where
  "extended_line me m keys tag is =
     bind_outcome (ext_field me m keys ''termination_id'' ''No_Termination_ID'') (\<lambda>ti.
     bind_outcome (ext_field me m keys ''termination_type'' ''No_Termination_Type'') (\<lambda>tt.
     bind_outcome (ext_field me m keys ''duration'' ''No_Duration'') (\<lambda>duration.
     bind_outcome (ext_field me m keys ''_Start_line'' ''No_Start_line'') (\<lambda>sl.
     bind_outcome (ext_field me m keys ''_End_line'' ''No_End_line'') (\<lambda>el.
     bind_outcome (ext_field me m keys ''contacts'' ''No_Contacts'') (\<lambda>contact.
     bind_outcome (ext_field me m keys ''stime'' ''No_stime'') (\<lambda>mystime.
     bind_outcome (txt_at m tag) (\<lambda>tag1.
     bind_outcome (txt_at m is) (\<lambda>is1.
       Ok (concat (map (\<lambda>f. f @ [tab]) [tag1, ''!'', ''!'', is1, contact, mystime, duration, ti, tt, sl, el]) @ [newline]))))))))))"

definition tag_report :: "mem_env \<Rightarrow> bool \<Rightarrow> symmem \<Rightarrow> nat \<Rightarrow> nat \<Rightarrow> (int \<times> symmem \<times> cstr) outcome" where
  "tag_report me extended m ctag keys =
     bind_outcome (sym_get me m keys ''tag'') (\<lambda>tag.
     if tag = 0 then Ok (-1, m, [])
     else bind_outcome (sym_get me m keys ''initiation_status'') (\<lambda>is.
       if is = 0 then
         bind_outcome (test_result me m (Some (Ptr tag)) None None (Some (Lit ''no init status'')) keys) (\<lambda>(m1, o1). Ok (-1, m1, o1))
       else bind_outcome (txt_at m is) (\<lambda>ist.
         bind_outcome
           (if ist \<noteq> ''ok''
            then bind_outcome (test_result me m (Some (Ptr tag)) None None (Some (Ptr is)) keys) (\<lambda>(m1, o1). Ok (None, m1, o1))
            else driver_report me m ctag keys (Ptr tag)) (\<lambda>(rc, m1, o1).
         case rc of
           Some r \<Rightarrow> Ok (r, m1, o1)
         | None \<Rightarrow>
             if extended then bind_outcome (extended_line me m1 keys tag is) (\<lambda>l. Ok (0, m1, o1 @ l))
             else Ok (0, m1, o1)))))"

text \<open>\<^verbatim>\<open>print_header\<close>: one line for every keyword of the table \<^verbatim>\<open>_RTS\<close> except \<^verbatim>\<open>PATH\<close>.\<close>

fun rts_loop :: "nat \<Rightarrow> mem_env \<Rightarrow> symmem \<Rightarrow> nat \<Rightarrow> nat \<Rightarrow> nat \<Rightarrow> (symmem \<times> cstr) outcome" where
  "rts_loop 0 me m tags k d = Fault"
| "rts_loop (Suc f) me m tags k d =
     bind_outcome (txt_at m k) (\<lambda>kt.
     bind_outcome (if kt = ''PATH'' then Ok []
       else bind_outcome (txt_at m d) (\<lambda>dt. Ok (fmt_left 20 20 kt @ '' '' @ dt @ [newline]))) (\<lambda>l.
     bind_outcome (sym_seq me m tags [] R_NEXT) (\<lambda>(rc, m1, k1, d1).
       if rc \<noteq> 0 then Ok (m1, l)
       else bind_outcome (rts_loop f me m1 tags k1 d1) (\<lambda>(m2, ls). Ok (m2, l @ ls)))))"

definition print_header :: "mem_env \<Rightarrow> symmem \<Rightarrow> nat \<Rightarrow> (symmem \<times> cstr) outcome" where
  "print_header me m tags =
     bind_outcome (sym_seq me m tags ''_RTS'' R_CURSOR) (\<lambda>(rc, m1, k, d).
     bind_outcome (if rc = 0 then rts_loop (brk m + 1) me m1 tags k d else Ok (m1, [])) (\<lambda>(m2, ls).
       Ok (m2, ''System Configuration:'' @ [newline] @ ls @ [newline]
         @ report_line ''tag'' ''tcid'' ''testcase'' ''status'' ''contact''
         @ replicate 79 (CHR ''-'') @ [newline])))"

subsection \<open>The reporter\<close>

text \<open>
  \<^verbatim>\<open>scanner_test_end\<close>: a finished test enters the table of all tests. The counter of records
  without a tag is a static variable; the message about them on standard error is not modelled.
\<close>

definition scanner_test_end ::
    "mem_env \<Rightarrow> symmem \<Rightarrow> int \<Rightarrow> nat \<Rightarrow> nat \<Rightarrow> nat \<Rightarrow> (int \<times> symmem \<times> int) outcome"
where
  "scanner_test_end me m notag alltags ctag keys =
     (if alltags = 0 \<or> keys = 0 \<or> ctag = 0 then Ok (-1, m, notag)
      else
        bind_outcome (sym_put me m ctag ''_keys'' keys 0) (\<lambda>(rc1, m1).
        bind_outcome (sym_get me m1 keys ''tag'') (\<lambda>t.
        bind_outcome
          (if t \<noteq> 0 then Ok (t, m1, notag)
           else
             (let tagname = ''no_tag_'' @ dec_int notag;
                  (p, m2) = salloc (Txt tagname) m1
              in bind_outcome (sym_put me m2 keys ''tag'' p 0) (\<lambda>(rc2, m3).
                   (let (tag, m4) = salloc (Txt tagname) m3 in Ok (tag, m4, notag + 1))))) (\<lambda>(tag, m5, notag1).
        bind_outcome (txt_at m5 tag) (\<lambda>tagt.
        bind_outcome (sym_get me m5 alltags tagt) (\<lambda>rm.
        bind_outcome
          (if rm = 0 then Ok (False, m5)
           else bind_outcome (sym_get me m5 keys ''initiation_status'') (\<lambda>status.
             if status = 0 then bind_outcome (sym_rm True True ctag m5) (\<lambda>m6. Ok (True, m6))
             else bind_outcome (txt_at m5 status) (\<lambda>st.
               if st \<noteq> ''ok'' then bind_outcome (sym_rm True True ctag m5) (\<lambda>m6. Ok (True, m6))
               else bind_outcome (sym_rm True True rm m5) (\<lambda>m6. Ok (False, m6))))) (\<lambda>(dropped, m7).
        if dropped then Ok (1, m7, notag1)
        else bind_outcome (sym_put me m7 alltags tagt ctag PUT_REPLACE) (\<lambda>(rc3, m8). Ok (0, m8, notag1)))))))))"

definition iscanner_test_end ::
    "mem_env \<Rightarrow> bool \<Rightarrow> symmem \<Rightarrow> nat \<Rightarrow> nat \<Rightarrow> nat \<Rightarrow> (int \<times> symmem \<times> cstr) outcome"
where
  "iscanner_test_end me extended m alltags ctag keys =
     (if alltags = 0 \<or> keys = 0 \<or> ctag = 0 then Ok (-1, m, [])
      else bind_outcome (sym_put me m ctag ''_keys'' keys 0) (\<lambda>(rc, m1). tag_report me extended m1 ctag keys))"

text \<open>
  \<^verbatim>\<open>scanner_reporter\<close>. The text of a time, \<^verbatim>\<open>strftime\<close> with \<^verbatim>\<open>%x\<close> on \<^verbatim>\<open>gmtime\<close>, depends on the locale
  and is an argument. Keys are built in a buffer of 255 bytes.
\<close>

fun tag_loop :: "nat \<Rightarrow> mem_env \<Rightarrow> symmem \<Rightarrow> nat \<Rightarrow> nat \<Rightarrow> (nat list \<times> symmem) outcome" where
  "tag_loop 0 me m tags k = Fault"
| "tag_loop (Suc f) me m tags k =
     bind_outcome (sym_seq me m tags [] R_NEXT) (\<lambda>(rc, m1, k1, d1).
       if rc \<noteq> 0 then Ok ([k], m1)
       else bind_outcome (tag_loop f me m1 tags k1) (\<lambda>(ks, m2). Ok (k # ks, m2)))"

definition key_buf :: "cstr \<Rightarrow> cstr outcome" where
  "key_buf s = (if length s < KEYSIZE then Ok s else Fault)"

fun find_date :: "mem_env \<Rightarrow> (int \<Rightarrow> cstr) \<Rightarrow> symmem \<Rightarrow> nat \<Rightarrow> nat list \<Rightarrow> symmem outcome" where
  "find_date me date m tags [] = Ok m"
| "find_date me date m tags (tp # tps) =
     bind_outcome (txt_at m tp) (\<lambda>t.
     bind_outcome (key_buf (t @ '',_keys,stime'')) (\<lambda>key.
     bind_outcome (sym_get me m tags key) (\<lambda>info.
       if info = 0 then find_date me date m tags tps
       else bind_outcome (txt_at m info) (\<lambda>s.
         (let (p, m1) = salloc (Txt (date (atoi s))) m
          in bind_outcome (sym_put me m1 tags ''_RTS,date'' p 0) (\<lambda>(rc, m2). Ok m2))))))"

fun report_tags :: "mem_env \<Rightarrow> bool \<Rightarrow> symmem \<Rightarrow> nat \<Rightarrow> nat list \<Rightarrow> (symmem \<times> cstr) outcome" where
  "report_tags me extended m tags [] = Ok (m, [])"
| "report_tags me extended m tags (tp # tps) =
     bind_outcome (txt_at m tp) (\<lambda>t.
       if t = ''_RTS'' then report_tags me extended m tags tps
       else bind_outcome (key_buf (t @ '',_keys'')) (\<lambda>key.
         bind_outcome (sym_get me m tags key) (\<lambda>keys.
           if keys = 0 then Ok (m, [])
           else bind_outcome (sym_get me m tags t) (\<lambda>tag.
             bind_outcome (if tag = 0 then Ok (0, m, []) else tag_report me extended m tag keys) (\<lambda>(rc, m1, o1).
             bind_outcome (report_tags me extended m1 tags tps) (\<lambda>(m2, o2). Ok (m2, o1 @ o2)))))))"

definition scanner_reporter :: "mem_env \<Rightarrow> (int \<Rightarrow> cstr) \<Rightarrow> bool \<Rightarrow> symmem \<Rightarrow> nat \<Rightarrow> (symmem \<times> cstr) outcome" where
  "scanner_reporter me date extended m tags =
     bind_outcome (sym_seq me m tags [] R_FIRST) (\<lambda>(rc, m1, k, d).
       if rc \<noteq> 0 then Fault
       else bind_outcome (tag_loop (brk m + 1) me m1 tags k) (\<lambda>(tps, m2).
         bind_outcome (find_date me date m2 tags tps) (\<lambda>m3.
         bind_outcome (print_header me m3 tags) (\<lambda>(m4, h).
         bind_outcome (report_tags me extended m4 tags tps) (\<lambda>(m5, o5). Ok (m5, h @ o5))))))"

text \<open>
  The two function pointers are set together, by \<^verbatim>\<open>set_scanner\<close> or by \<^verbatim>\<open>set_iscanner\<close>, and are
  those of \<^verbatim>\<open>set_scanner\<close> in the beginning: their value is one of two.
\<close>

datatype scan_mode = Scanner | Iscanner

definition reporter ::
    "scan_mode \<Rightarrow> mem_env \<Rightarrow> (int \<Rightarrow> cstr) \<Rightarrow> bool \<Rightarrow> symmem \<Rightarrow> nat \<Rightarrow> (int \<times> symmem \<times> cstr) outcome" where
  "reporter mode me date extended m tags =
     (case mode of
        Scanner \<Rightarrow> bind_outcome (scanner_reporter me date extended m tags) (\<lambda>(m1, o1). Ok (0, m1, o1))
      | Iscanner \<Rightarrow> Ok (0, m, []))"

definition test_end ::
    "scan_mode \<Rightarrow> mem_env \<Rightarrow> bool \<Rightarrow> symmem \<Rightarrow> int \<Rightarrow> nat \<Rightarrow> nat \<Rightarrow> nat \<Rightarrow> (int \<times> symmem \<times> int \<times> cstr) outcome" where
  "test_end mode me extended m notag alltags ctag keys =
     (case mode of
        Scanner \<Rightarrow> bind_outcome (scanner_test_end me m notag alltags ctag keys) (\<lambda>(rc, m1, n). Ok (rc, m1, n, []))
      | Iscanner \<Rightarrow> bind_outcome (iscanner_test_end me extended m alltags ctag keys) (\<lambda>(rc, m1, o1). Ok (rc, m1, notag, o1)))"

section \<open>Keeping the worst result\<close>

text \<open>What a table has under a key: the string its data points to.\<close>

definition result_at :: "nat \<Rightarrow> symmem \<Rightarrow> cstr \<Rightarrow> cstr option" where
  "result_at a m key = (case sym_get mem_plenty m a key of
       Ok p \<Rightarrow> (if p = 0 then None else case cells m p of Some (Txt s) \<Rightarrow> Some s | _ \<Rightarrow> None)
     | _ \<Rightarrow> None)"

text \<open>The path of a key does not run through data that is not a table.\<close>

definition open_path :: "stree \<Rightarrow> cstr list \<Rightarrow> bool" where
  "open_path t ks \<longleftrightarrow> (\<forall>ks' ks''. ks = ks' @ ks'' \<and> ks'' \<noteq> [] \<longrightarrow> (\<forall>p. tget t ks' \<noteq> Some (Leaf p)))"

lemma open_path_put:
  assumes "open_path t ks" "tget t ks = None \<or> repl"
  shows "fst (tput f repl d t ks) = 0"
  using assms
proof (induction f repl d t ks rule: tput.induct)
  case (2 f repl d p k ks)
  then have "tget (Leaf p) [] \<noteq> Some (Leaf p)" unfolding open_path_def by blast
  then show ?case by simp
next
  case (3 f repl d a c es k ks)
  show ?case
  proof (cases "sfind es k")
    case (Some q)
    then obtain n nx ka u where q: "sfind es k = Some (n, nx, ka, u)" by (cases q) auto
    have "open_path u ks" unfolding open_path_def
    proof (intro allI impI)
      fix ks' ks'' p assume "ks = ks' @ ks'' \<and> ks'' \<noteq> []"
      then have "k # ks = (k # ks') @ ks'' \<and> ks'' \<noteq> []" by simp
      with "3.prems"(1) have "tget (Tab a c es) (k # ks') \<noteq> Some (Leaf p)" unfolding open_path_def by blast
      with q show "tget u ks' \<noteq> Some (Leaf p)" by simp
    qed
    with "3.IH" [OF q refl refl refl] "3.prems"(2) q show ?thesis by (auto split: prod.splits)
  qed simp
qed simp

text \<open>A new string, and the table with it under a key.\<close>

lemma put_new_string:
  assumes "owns m (Tab a c es)" "good_key key" "3 * length (words key) + 1 \<le> room m"
    "take 4 s \<noteq> magic_bytes" "open_path (Tab a c es) (words key)" "tget (Tab a c es) (words key) = None \<or> fl = PUT_REPLACE"
  shows "\<exists>m1 m2 es'. salloc (Txt s) m = (brk m, m1) \<and> sym_put mem_plenty m1 a key (brk m) fl = Ok (0, m2) \<and>
    owns m2 (Tab a c es') \<and> tput (brk m1) (fl = PUT_REPLACE) (brk m) (Tab a c es) (words key) = (0, Tab a c es') \<and>
    cells m2 (brk m) = Some (Txt s) \<and> (\<forall>p x. cells m p = Some (Txt x) \<longrightarrow> cells m2 p = Some (Txt x)) \<and>
    room m \<le> room m2 + (3 * length (words key) + 1)"
proof -
  let ?t = "Tab a c es" and ?d = "brk m"
  define m1 where "m1 = wr [(?d, Txt s)] 1 m"
  let ?q = "tput (brk m1) (fl = PUT_REPLACE) ?d ?t (words key)"
  define m2 where "m2 = wr (layout (snd ?q)) (need ?t (words key)) m1"
  from assms(1) have r: "rep m ?t" and dist: "distinct (blocks ?t)" and ok: "mem_ok m" by (auto simp: owns_def rep_def)
  have al: "salloc (Txt s) m = (?d, m1)"
    using assms(3) by (auto simp: salloc_def m1_def intro!: symmem_eqI)
  have ok1: "mem_ok m1" unfolding m1_def using ok by (intro mem_ok_wr) (auto simp: mem_ok_def)
  have sub: "cells m p = Some x \<Longrightarrow> cells m1 p = Some x" for p x
    using mem_ok_fresh [OF ok, of ?d] by (auto simp: m1_def)
  have "cells m \<subseteq>\<^sub>m cells m1" using sub by (auto simp: map_le_def)
  moreover have "brk m \<le> brk m1" by (simp add: m1_def)
  ultimately have r1: "rep m1 ?t" using r ok1 by (blast intro: rep_mono)
  have d: "leaf_ok m1 ?d" "?d \<noteq> 0" using assms(4) ok by (auto simp: leaf_ok_def m1_def mem_ok_def)
  have room: "need ?t (words key) \<le> room m1"
    using need_le [of ?t "words key"] assms(3) by (simp add: m1_def)
  have rc: "fst ?q = 0" using open_path_put [OF assms(5)] assms(6) by auto
  obtain es' where es': "?q = (0, Tab a c es')"
    using tput_Tab [OF good_key_words [OF assms(2)], of "brk m1" "fl = PUT_REPLACE" ?d a c es] rc by (cases ?q) auto
  have put: "sym_put mem_plenty m1 a key ?d fl = Ok (0, m2)"
    using sym_put_tree [OF mem_plenty_fine assms(2) r1 room, of ?d fl] rc by (simp add: m2_def)
  have strs: "cells m1 p = Some (Txt x) \<Longrightarrow> cells m2 p = Some (Txt x)" for p x
    unfolding m2_def by (rule put_keeps_txt [OF r1])
  have "distinct (blocks (Tab a c es'))"
  proof (rule distinct_submset)
    show "mset (blocks (Tab a c es')) \<subseteq># mset (blocks ?t @ [brk m1..<brk m1 + need ?t (words key)] @ [?d])"
      using tput_blocks [OF d(2), of "brk m1" "fl = PUT_REPLACE" ?t "words key"] es' by (simp add: m1_def del: mset_upt)
    show "distinct (blocks ?t @ [brk m1..<brk m1 + need ?t (words key)] @ [?d])"
      using dist by (auto simp: m1_def simp del: blocks.simps dest!: blocks_below [OF r])
  qed
  moreover have "rep m2 (Tab a c es')" using rep_put [OF r1 d(1), of "fl = PUT_REPLACE" "words key"] es' by (simp add: m2_def)
  moreover have "cells m2 ?d = Some (Txt s)" by (rule strs) (simp add: m1_def)
  moreover have "room m \<le> room m2 + (3 * length (words key) + 1)"
    using need_le [of ?t "words key"] assms(3) by (simp add: m2_def m1_def)
  ultimately show ?thesis using al put es' sub strs by (auto simp: owns_def)
qed

lemma worst_case_cases: "worst_case s t = s \<or> worst_case s t = t"
  by (simp add: worst_case_def)

lemma result_at_tree:
  assumes "good_key key" "rep m (Tab a c es)"
  shows "result_at a m key = (case tget (Tab a c es) (words key) of
      Some u \<Rightarrow> if dptr u = 0 then None else (case cells m (dptr u) of Some (Txt s) \<Rightarrow> Some s | _ \<Rightarrow> None)
    | None \<Rightarrow> None)"
  by (simp add: result_at_def sym_get_tree [OF mem_plenty_fine assms] split: option.splits)

lemma tget_leaf: "tget t ks = Some (Leaf p) \<Longrightarrow> p \<in> set (leaves t)"
proof (induction t ks rule: tget.induct)
  case (3 a c es k ks)
  then show ?case using sfind_leaves by (fastforce split: option.splits)
qed auto

lemma rep_leaf: "rep m t \<Longrightarrow> p \<in> set (leaves t) \<Longrightarrow> leaf_ok m p"
  by (simp add: rep_def)

text \<open>What a table has under a key apart from the one of a put, as long as its strings are kept.\<close>

lemma result_at_other:
  assumes "good_key key'" "keys_apart key key'"
    "tget (Tab a c es) (words key') = None \<or> (\<exists>p. tget (Tab a c es) (words key') = Some (Leaf p))"
    "rep m (Tab a c es)" "rep m' (Tab a c es')" "tput f b d (Tab a c es) (words key) = (rc, Tab a c es')"
    "\<And>q x. cells m q = Some (Txt x) \<Longrightarrow> q \<in> set (leaves (Tab a c es')) \<Longrightarrow> cells m' q = Some (Txt x)"
  shows "result_at a m' key' = result_at a m key'"
proof -
  have same: "tget (Tab a c es') (words key') = tget (Tab a c es) (words key')"
    using tget_tput_other [of "words key'" "words key" f b d "Tab a c es"] assms(2,6) by (simp add: keys_apart_def)
  note at = result_at_tree [OF assms(1,4)] result_at_tree [OF assms(1,5)]
  show ?thesis
  proof (cases "tget (Tab a c es) (words key')")
    case None
    then show ?thesis using same by (simp add: at)
  next
    case (Some u)
    with assms(3) obtain p where u: "u = Leaf p" by auto
    have "p \<in> set (leaves (Tab a c es))" using Some u by (blast intro: tget_leaf)
    from rep_leaf [OF assms(4) this] have "p \<noteq> 0 \<Longrightarrow> \<exists>x. cells m p = Some (Txt x)" by (auto simp: leaf_ok_def)
    moreover have "p \<in> set (leaves (Tab a c es'))" using Some u same by (metis tget_leaf)
    ultimately show ?thesis using Some u same assms(7) by (auto simp: at)
  qed
qed

text \<open>The string that a put replaces is no longer part of the table and can be freed.\<close>

lemma replaced_free:
  assumes "owns m (Tab a c es)" "tget (Tab a c es) ks = Some (Leaf old)" "old \<noteq> 0" "old < d"
    "tput f True d (Tab a c es) ks = (rc, t')"
  shows "old \<notin> set (blocks t')"
proof -
  have "mset (blocks t') + {#old#} = mset (blocks (Tab a c es)) + {#d#}"
    using tput_replaced [OF assms(2,3), of d f] assms(4,5) by simp
  from arg_cong [OF this, of "\<lambda>M. count M old"]
  have "count (mset (blocks t')) old + 1 = count (mset (blocks (Tab a c es))) old"
    using assms(4) by (simp del: blocks.simps)
  moreover have "count (mset (blocks (Tab a c es))) old \<le> 1"
    using assms(1) unfolding owns_def by (metis distinct_count_atmost_1 le_refl zero_le_one)
  ultimately have "count (mset (blocks t')) old = 0" by linarith
  then show ?thesis by (simp add: count_eq_zero_iff)
qed

text \<open>
  One record: under its key there is now its result, or the worse one of the old and the new
  result, and what the table has under other keys is as before.
\<close>

lemma cuts_testcase_step:
  assumes "owns m (Tab a c es)" "tokens [tab, CHR '' ''] line = tcid # tc # res # rest"
    "key = tcid @ '','' @ tc" "length key < KEYSIZE" "good_key key" "take 4 res \<noteq> magic_bytes"
    "3 * length (words key) + 1 \<le> room m" "open_path (Tab a c es) (words key)"
    "tget (Tab a c es) (words key) = None \<or> (\<exists>p. tget (Tab a c es) (words key) = Some (Leaf p) \<and> p \<noteq> 0)"
  shows "\<exists>m' es' f b d. cuts_testcase mem_plenty m a line = Ok m' \<and> owns m' (Tab a c es') \<and>
    tput f b d (Tab a c es) (words key) = (0, Tab a c es') \<and> d \<noteq> 0 \<and>
    room m \<le> room m' + (3 * length (words key) + 1) \<and>
    result_at a m' key = Some (case result_at a m key of None \<Rightarrow> res | Some t \<Rightarrow> worst_case t res) \<and>
    (\<forall>q x. cells m q = Some (Txt x) \<and> q \<in> set (leaves (Tab a c es')) \<longrightarrow> cells m' q = Some (Txt x))"
proof -
  let ?t = "Tab a c es"
  from assms(1) have r: "rep m ?t" by (auto simp: owns_def)
  have info: "cuts_key (take 6 (tokens [tab, CHR '' ''] line)) = Ok key" "\<not> length (take 6 (tokens [tab, CHR '' ''] line)) < 3"
    "take 6 (tokens [tab, CHR '' ''] line) ! 2 = res"
    using assms(2-4) by (auto simp: cuts_key_def numeral_eq_Suc)
  note get = sym_get_tree [OF mem_plenty_fine assms(5) r]
  have nz: "brk m \<noteq> 0" using r by (auto simp: rep_def mem_ok_def)
  show ?thesis
  proof (cases "tget ?t (words key)")
    case None
    from put_new_string [OF assms(1,5,7,6,8), of 0] None obtain m1 m2 es' where
      p: "salloc (Txt res) m = (brk m, m1)" "sym_put mem_plenty m1 a key (brk m) 0 = Ok (0, m2)" "owns m2 (Tab a c es')"
      "tput (brk m1) (0 = PUT_REPLACE) (brk m) ?t (words key) = (0, Tab a c es')" "cells m2 (brk m) = Some (Txt res)"
      "\<And>q x. cells m q = Some (Txt x) \<Longrightarrow> cells m2 q = Some (Txt x)" "room m \<le> room m2 + (3 * length (words key) + 1)" by auto
    have "cuts_testcase mem_plenty m a line = Ok m2"
      using info get None p by (simp add: cuts_testcase_def)
    moreover have "tget (Tab a c es') (words key) = Some (Leaf (brk m))"
      using tget_tput_same [of "brk m1" "0 = PUT_REPLACE" "brk m" ?t "words key"] p(4) by simp
    moreover have r2: "rep m2 (Tab a c es')" using p(3) by (simp add: owns_def)
    ultimately show ?thesis
      using p(3-7) None nz by (auto simp: result_at_tree [OF assms(5) r] result_at_tree [OF assms(5) r2])
  next
    case (Some u)
    with assms(9) obtain old where old: "tget ?t (words key) = Some (Leaf old)" "old \<noteq> 0" by auto
    then have "old \<in> set (leaves ?t)" by (blast intro: tget_leaf)
    from rep_leaf [OF r this] old(2) obtain t where t: "cells m old = Some (Txt t)" "take 4 t \<noteq> magic_bytes"
      by (auto simp: leaf_ok_def)
    let ?w = "worst_case t res"
    have w: "take 4 ?w \<noteq> magic_bytes" using worst_case_cases [of t res] t(2) assms(6) by auto
    from put_new_string [OF assms(1,5,7) w assms(8), of PUT_REPLACE] obtain m1 m2 es' where
      p: "salloc (Txt ?w) m = (brk m, m1)" "sym_put mem_plenty m1 a key (brk m) PUT_REPLACE = Ok (0, m2)" "owns m2 (Tab a c es')"
      "tput (brk m1) True (brk m) ?t (words key) = (0, Tab a c es')" "cells m2 (brk m) = Some (Txt ?w)"
      "\<And>q x. cells m q = Some (Txt x) \<Longrightarrow> cells m2 q = Some (Txt x)" "room m \<le> room m2 + (3 * length (words key) + 1)" by auto
    have lt: "old < brk m" using r t(1) by (auto simp: rep_def mem_ok_def)
    note free = replaced_free [OF assms(1) old lt p(4)]
    then have r2: "rep (del {old} m2) (Tab a c es')" using p(3) by (intro rep_del) (auto simp: owns_def)
    have "cuts_testcase mem_plenty m a line = Ok (del {old} m2)"
      using info get old p t by (simp add: cuts_testcase_def txt_at_def sfree_del)
    moreover have "tget (Tab a c es') (words key) = Some (Leaf (brk m))"
      using tget_tput_same [of "brk m1" True "brk m" ?t "words key"] p(4) by simp
    moreover have "owns (del {old} m2) (Tab a c es')" using p(3) r2 by (simp add: owns_def)
    moreover have "cells (del {old} m2) q = Some (Txt x)"
      if "cells m q = Some (Txt x)" "q \<in> set (leaves (Tab a c es'))" for q x
    proof -
      have "q \<noteq> old" using that(2) free leaves_blocks(1) [of "Tab a c es'"] old(2) by blast
      with p(6) [OF that(1)] show ?thesis by simp
    qed
    moreover have "room m \<le> room (del {old} m2) + (3 * length (words key) + 1)" using p(7) by (simp add: del_def)
    moreover have "result_at a (del {old} m2) key = Some (case result_at a m key of None \<Rightarrow> res | Some t \<Rightarrow> worst_case t res)"
      using calculation(2) p(5) old t(1) nz lt by (simp add: result_at_tree [OF assms(5) r] result_at_tree [OF assms(5) r2])
    ultimately show ?thesis using p(4) nz by blast
  qed
qed

subsection \<open>A sequence of records\<close>

text \<open>Tables of two levels, as the records of test cases make them: identifiers, and under them results.\<close>

definition two_level :: "stree \<Rightarrow> bool" where
  "two_level t \<longleftrightarrow> (\<exists>a c es. t = Tab a c es) \<and> (\<forall>k u. tget t [k] = Some u \<longrightarrow> (\<exists>a c es. u = Tab a c es)) \<and>
     (\<forall>k k' u. tget t [k, k'] = Some u \<longrightarrow> (\<exists>p. u = Leaf p \<and> p \<noteq> 0))"

lemma two_level_put:
  assumes "two_level (Tab a c es)" "d \<noteq> 0" "tput f b d (Tab a c es) [k, k'] = (0, t')"
  shows "two_level t'"
proof -
  have other: "tget t' [x, y] = tget (Tab a c es) [x, y]" if "[x, y] \<noteq> [k, k']" for x y
    using tget_tput_other [of "[x, y]" "[k, k']" f b d "Tab a c es"] that assms(3) by auto
  have same: "tget t' [k, k'] = Some (Leaf d)"
    using tget_tput_same [of f b d "Tab a c es" "[k, k']"] assms(3) by simp
  have top: "\<exists>a c es. u = Tab a c es" if "tget t' [x] = Some u" for x u
  proof (cases "x = k")
    case True
    with that same have "tget u [k'] \<noteq> None" using assms(3)
      by (auto split: option.splits prod.splits)
    then show ?thesis by (cases u) auto
  next
    case False
    then have "tget t' [x] = tget (Tab a c es) [x]"
      using tget_tput_other [of "[x]" "[k, k']" f b d "Tab a c es"] assms(3) by simp
    with that assms(1) show ?thesis by (auto simp: two_level_def simp del: tget.simps)
  qed
  have "\<exists>p. u = Leaf p \<and> p \<noteq> 0" if "tget t' [x, y] = Some u" for x y u
    using that other [of x y] same assms(1,2) by (cases "[x, y] = [k, k']") (auto simp: two_level_def simp del: tget.simps)
  moreover have "\<exists>a c es. t' = Tab a c es"
    using tput_Tab [of "[k, k']" f b d a c es] assms(3) by auto
  ultimately show ?thesis using top by (auto simp: two_level_def simp del: tget.simps)
qed

lemma two_level_open: "two_level t \<Longrightarrow> open_path t [k, k']"
  unfolding open_path_def two_level_def
  by (auto simp: append_eq_Cons_conv Cons_eq_append_conv simp del: tget.simps(3))

text \<open>A record is an identifier, a number and a result, each a word.\<close>

type_synonym crecord = "cstr \<times> cstr \<times> cstr"

definition plain_word :: "cstr \<Rightarrow> bool" where
  "plain_word w \<longleftrightarrow> w \<noteq> [] \<and> set w \<inter> {CHR '','', CHR '' '', tab} = {}"

fun record_line :: "crecord \<Rightarrow> cstr" where
  "record_line (tcid, tc, res) = join (CHR '' '') [tcid, tc, res]"

fun record_ok :: "crecord \<Rightarrow> bool" where
  "record_ok (tcid, tc, res) \<longleftrightarrow> plain_word tcid \<and> plain_word tc \<and> plain_word res \<and>
     length tcid + length tc + 1 < KEYSIZE \<and> take 4 res \<noteq> magic_bytes"

fun cuts_all :: "symmem \<Rightarrow> nat \<Rightarrow> crecord list \<Rightarrow> symmem outcome" where
  "cuts_all m a [] = Ok m"
| "cuts_all m a (r # rs) = bind_outcome (cuts_testcase mem_plenty m a (record_line r)) (\<lambda>m'. cuts_all m' a rs)"

definition results_of :: "cstr \<Rightarrow> cstr \<Rightarrow> crecord list \<Rightarrow> cstr list" where
  "results_of tcid tc rs = map (\<lambda>(i, c, r). r) (filter (\<lambda>(i, c, r). i = tcid \<and> c = tc) rs)"

lemma record_words:
  assumes "plain_word i" "plain_word c"
  shows "words (i @ '','' @ c) = [i, c]" "good_key (i @ '','' @ c)"
proof -
  show "words (i @ '','' @ c) = [i, c]"
    using tokens_join [of "CHR '',''" "'',''" "[i, c]"] assms by (auto simp: plain_word_def)
  show "good_key (i @ '','' @ c)" using assms by (cases i) (auto simp: good_key_def plain_word_def)
qed

text \<open>The result kept for one test case is a fold over its results so far.\<close>

fun keep :: "cstr option \<Rightarrow> cstr list \<Rightarrow> cstr option" where
  "keep v [] = v"
| "keep v (r # rs) = keep (Some (case v of None \<Rightarrow> r | Some t \<Rightarrow> worst_case t r)) rs"

lemma cuts_all_keep:
  assumes "owns m (Tab a c es)" "two_level (Tab a c es)" "\<forall>r \<in> set rs. record_ok r" "7 * length rs \<le> room m"
  shows "\<exists>m'. cuts_all m a rs = Ok m' \<and>
    (\<forall>i n. plain_word i \<and> plain_word n \<longrightarrow>
       result_at a m' (i @ '','' @ n) = keep (result_at a m (i @ '','' @ n)) (results_of i n rs))"
  using assms
proof (induction rs arbitrary: m es)
  case Nil
  then show ?case by (simp add: results_of_def)
next
  case (Cons r rs)
  obtain i n res where r: "r = (i, n, res)" by (cases r) auto
  with Cons.prems have ok: "plain_word i" "plain_word n" "plain_word res" "length i + length n + 1 < KEYSIZE" "take 4 res \<noteq> magic_bytes"
    by auto
  let ?key = "i @ '','' @ n"
  note w = record_words [OF ok(1,2)]
  have line: "tokens [tab, CHR '' ''] (record_line r) = [i, n, res]"
    using tokens_join [of "CHR '' ''" "[tab, CHR '' '']" "[i, n, res]"] ok r by (auto simp: plain_word_def)
  have shape: "tget (Tab a c es) [i, n] = None \<or> (\<exists>p. tget (Tab a c es) [i, n] = Some (Leaf p) \<and> p \<noteq> 0)" for i n
    using Cons.prems(2) by (cases "tget (Tab a c es) [i, n]") (auto simp: two_level_def simp del: tget.simps)
  have rep: "rep m (Tab a c es)" using Cons.prems(1) by (simp add: owns_def)
  obtain m1 es1 f b d where s: "cuts_testcase mem_plenty m a (record_line r) = Ok m1" "owns m1 (Tab a c es1)"
      "tput f b d (Tab a c es) (words ?key) = (0, Tab a c es1)" "d \<noteq> 0" "room m \<le> room m1 + (3 * length (words ?key) + 1)"
      "result_at a m1 ?key = Some (case result_at a m ?key of None \<Rightarrow> res | Some t \<Rightarrow> worst_case t res)"
      "\<And>q x. cells m q = Some (Txt x) \<Longrightarrow> q \<in> set (leaves (Tab a c es1)) \<Longrightarrow> cells m1 q = Some (Txt x)"
    using cuts_testcase_step [OF Cons.prems(1) line refl _ w(2) ok(5)] ok(4) w(1) Cons.prems(4)
      two_level_open [OF Cons.prems(2)] shape [of i n] by auto
  have "two_level (Tab a c es1)" using two_level_put [OF Cons.prems(2) s(4)] s(3) w(1) by simp
  moreover have "7 * length rs \<le> room m1" using s(5) w(1) Cons.prems(4) by simp
  ultimately obtain m' where m': "cuts_all m1 a rs = Ok m'"
      "\<And>i n. plain_word i \<Longrightarrow> plain_word n \<Longrightarrow>
        result_at a m' (i @ '','' @ n) = keep (result_at a m1 (i @ '','' @ n)) (results_of i n rs)"
    using Cons.IH [OF s(2)] Cons.prems(3) by auto
  have r1: "rep m1 (Tab a c es1)" using s(2) by (simp add: owns_def)
  have "result_at a m' (i' @ '','' @ n') = keep (result_at a m (i' @ '','' @ n')) (results_of i' n' (r # rs))"
    if "plain_word i'" "plain_word n'" for i' n'
  proof (cases "i' = i \<and> n' = n")
    case True
    then show ?thesis using m'(2) [OF that] s(6) r by (simp add: results_of_def)
  next
    case False
    note w' = record_words [OF that]
    have "keys_apart ?key (i' @ '','' @ n')" using False w(1) w'(1) by (auto simp: keys_apart_def)
    then have "result_at a m1 (i' @ '','' @ n') = result_at a m (i' @ '','' @ n')"
      using shape [of i' n'] w'(1) by (intro result_at_other [OF w'(2) _ _ rep r1 s(3) s(7)]) auto
    then show ?thesis using m'(2) [OF that] False r by (auto simp: results_of_def)
  qed
  then show ?case using s(1) m'(1) by auto
qed

lemma keep_worst:
  "keep (Some t) rs = Some w \<Longrightarrow> w \<in> insert t (set rs) \<and> severity w \<le> severity t \<and> (\<forall>r \<in> set rs. severity w \<le> severity r)"
proof (induction rs arbitrary: t)
  case (Cons r rs)
  then have "keep (Some (worst_case t r)) rs = Some w" by simp
  with Cons.IH [of "worst_case t r"]
  have "w \<in> insert (worst_case t r) (set rs)" "severity w \<le> severity (worst_case t r)" "\<forall>r \<in> set rs. severity w \<le> severity r"
    by auto
  then show ?case using worst_case_cases [of t r] by (auto simp: worst_case_def split: if_splits)
qed simp

lemma keep_Some: "\<exists>w. keep (Some t) rs = Some w"
  by (induction rs arbitrary: t) auto

section \<open>Reports\<close>

lemma result_at_Some: "result_at a m key = Some s \<Longrightarrow>
  \<exists>p. sym_get mem_plenty m a key = Ok p \<and> p \<noteq> 0 \<and> cells m p = Some (Txt s) \<and> txt_at m p = Ok s"
  by (auto simp: result_at_def txt_at_def split: outcome.splits if_splits option.splits scell.splits)

lemma test_result_blank:
  assumes "tab_at keys m" "CHR '' '' \<in> set s"
  shows "test_result mem_plenty m tag tcid tc (Some (Lit s)) keys = Fault"
proof -
  have "good_key ''contacts''" by (simp add: good_key_def)
  from st.get_returns [OF assms(1) this] obtain e where "sym_get mem_plenty m keys ''contacts'' = Ok e"
    by (auto simp: plenty_get_def)
  with assms(2) show ?thesis by (simp add: test_result_def tr_blanks_def)
qed

text \<open>The contacts that a result is printed for.\<close>

definition contacts_of :: "symmem \<Rightarrow> nat \<Rightarrow> cstr" where
  "contacts_of m keys = (case result_at keys m ''contacts'' of None \<Rightarrow> ''UNKNOWN'' | Some s \<Rightarrow> s)"

lemma test_result_literal:
  assumes "sym_get mem_plenty m keys ''contacts'' = Ok 0 \<or> result_at keys m ''contacts'' \<noteq> None"
    "good_key (contacts_of m keys)" "CHR '' '' \<notin> set s" "s \<noteq> []" "cstr_at m tag = Ok t"
  shows "test_result mem_plenty m (Some tag) None None (Some (Lit s)) keys =
    Ok (m, concat (map (report_line t ''-'' ''-'' s) (words (contacts_of m keys))))"
proof -
  from good_key_split [OF mem_plenty_fine assms(2)] obtain arr n where
    sp: "splitstr mem_plenty (Some (contacts_of m keys)) (Some '','') = Ok (Some arr, n)" "argv_of arr = words (contacts_of m keys)"
      "splitstr_free (Some arr) = Ok True" by auto
  have "\<exists>e. sym_get mem_plenty m keys ''contacts'' = Ok e \<and> cstr_at m (if e = 0 then Lit ''UNKNOWN'' else Ptr e) = Ok (contacts_of m keys)"
  proof (cases "result_at keys m ''contacts''")
    case None
    with assms(1) show ?thesis by (simp add: contacts_of_def cstr_at_def)
  next
    case (Some x)
    from result_at_Some [OF this] obtain p where "sym_get mem_plenty m keys ''contacts'' = Ok p" "p \<noteq> 0" "txt_at m p = Ok x"
      by blast
    with Some show ?thesis by (simp add: contacts_of_def cstr_at_def)
  qed
  then obtain e where "sym_get mem_plenty m keys ''contacts'' = Ok e"
    "cstr_at m (if e = 0 then Lit ''UNKNOWN'' else Ptr e) = Ok (contacts_of m keys)" by blast
  with sp assms(3-5) show ?thesis
    by (simp add: test_result_def tr_blanks_def cstr_at_def del: bind_outcome_Ok_conv)
qed

section \<open>Properties\<close>



text \<open>
  Reporting a missing status is a fault. For a test whose keys have a tag but no
  \<^verbatim>\<open>initiation_status\<close>, \<^verbatim>\<open>tag_report\<close> hands the text \<^verbatim>\<open>no init status\<close> to \<^verbatim>\<open>test_result\<close>, which writes
  underscores into that string literal.
\<close>

lemma tag_report_no_status:
  assumes "tab_at keys m" "result_at keys m ''tag'' \<noteq> None" "sym_get mem_plenty m keys ''initiation_status'' = Ok 0"
  shows "tag_report mem_plenty extended m ctag keys = Fault"
proof -
  from assms(2) obtain t where "result_at keys m ''tag'' = Some t" by auto
  from result_at_Some [OF this] obtain p where "sym_get mem_plenty m keys ''tag'' = Ok p" "p \<noteq> 0" by auto
  with assms(1,3) show ?thesis by (simp add: tag_report_def test_result_blank)
qed

text \<open>A store with the keys of a test at 1: a tag, and a second string for its status.\<close>

definition demo_keys :: symmem where
  "demo_keys = \<lparr>cells = [1 \<mapsto> Hdr 4 0, 2 \<mapsto> Txt ''fork01'', 4 \<mapsto> Nod 0 5 2, 5 \<mapsto> Txt ''tag''], brk = 6, room = 0\<rparr>"

lemma demo_keys_rep: "rep demo_keys (Tab 1 0 (SCons 4 5 ''tag'' (Leaf 2) SNil))"
  by (auto simp: rep_def holds_def mem_ok_def leaf_ok_def magic_bytes_def demo_keys_def)

text \<open>
  The report of a plain test. When a test was started, left no core file and exited, and its
  analysis is neither \<^verbatim>\<open>none\<close> nor \<^verbatim>\<open>cuts\<close>, \<^verbatim>\<open>tag_report\<close> prints one line for each contact, with
  \<^verbatim>\<open>pass\<close> if the exit value is 0 and \<^verbatim>\<open>fail\<close> otherwise, and changes nothing.
\<close>

lemma tag_report_exit:
  assumes "result_at keys m ''tag'' = Some t" "result_at keys m ''initiation_status'' = Some ''ok''"
    "result_at keys m ''corefile'' = Some ''no''" "result_at keys m ''termination_type'' = Some ''exited''"
    "result_at keys m ''analysis'' = Some an" "\<not> is_word ''none'' an" "\<not> is_word ''cuts'' an"
    "result_at keys m ''termination_id'' = Some i"
    "sym_get mem_plenty m keys ''contacts'' = Ok 0 \<or> result_at keys m ''contacts'' \<noteq> None" "good_key (contacts_of m keys)"
  shows "tag_report mem_plenty False m ctag keys =
    Ok (0, m, concat (map (report_line t ''-'' ''-'' (if i = ''0'' then ''pass'' else ''fail'')) (words (contacts_of m keys))))"
proof -
  obtain pt where pt: "sym_get mem_plenty m keys ''tag'' = Ok pt" "pt \<noteq> 0" "txt_at m pt = Ok t"
    using result_at_Some [OF assms(1)] by auto
  obtain pis where ini: "sym_get mem_plenty m keys ''initiation_status'' = Ok pis" "pis \<noteq> 0" "txt_at m pis = Ok ''ok''"
    using result_at_Some [OF assms(2)] by auto
  obtain pc where co: "sym_get mem_plenty m keys ''corefile'' = Ok pc" "pc \<noteq> 0" "txt_at m pc = Ok ''no''"
    using result_at_Some [OF assms(3)] by auto
  obtain ptt where tt: "sym_get mem_plenty m keys ''termination_type'' = Ok ptt" "ptt \<noteq> 0" "txt_at m ptt = Ok ''exited''"
    using result_at_Some [OF assms(4)] by auto
  obtain pa where pa: "sym_get mem_plenty m keys ''analysis'' = Ok pa" "pa \<noteq> 0" "txt_at m pa = Ok an"
    using result_at_Some [OF assms(5)] by auto
  obtain pid where pid: "sym_get mem_plenty m keys ''termination_id'' = Ok pid" "pid \<noteq> 0" "txt_at m pid = Ok i"
    using result_at_Some [OF assms(8)] by auto
  have line: "test_result mem_plenty m (Some (Ptr pt)) None None (Some (Lit s)) keys =
      Ok (m, concat (map (report_line t ''-'' ''-'' s) (words (contacts_of m keys))))" if "s \<in> {''pass'', ''fail''}" for s
    using that pt(3) by (intro test_result_literal [OF assms(9,10)]) (auto simp: cstr_at_def)
  show ?thesis
    using pt ini co tt pa pid assms(6,7) line [of "''pass''"] line [of "''fail''"]
    by (simp add: tag_report_def driver_report_def analysis_report_def)
qed

text \<open>A store with the keys of a finished test.\<close>

definition demo_done :: symmem where
  "demo_done = \<lparr>cells = [2 \<mapsto> Hdr 10 0,
      10 \<mapsto> Nod 11 20 30, 11 \<mapsto> Nod 12 21 31, 12 \<mapsto> Nod 13 22 32, 13 \<mapsto> Nod 14 23 33, 14 \<mapsto> Nod 15 24 34, 15 \<mapsto> Nod 0 25 35,
      20 \<mapsto> Txt ''tag'', 30 \<mapsto> Txt ''fork01'', 21 \<mapsto> Txt ''initiation_status'', 31 \<mapsto> Txt ''ok'',
      22 \<mapsto> Txt ''corefile'', 32 \<mapsto> Txt ''no'', 23 \<mapsto> Txt ''termination_type'', 33 \<mapsto> Txt ''exited'',
      24 \<mapsto> Txt ''analysis'', 34 \<mapsto> Txt ''exit'', 25 \<mapsto> Txt ''termination_id'', 35 \<mapsto> Txt ''1''], brk = 40, room = 0\<rparr>"

definition demo_entries :: sents where
  "demo_entries = SCons 10 20 ''tag'' (Leaf 30) (SCons 11 21 ''initiation_status'' (Leaf 31)
     (SCons 12 22 ''corefile'' (Leaf 32) (SCons 13 23 ''termination_type'' (Leaf 33)
     (SCons 14 24 ''analysis'' (Leaf 34) (SCons 15 25 ''termination_id'' (Leaf 35) SNil)))))"

lemma demo_done_rep: "rep demo_done (Tab 2 0 demo_entries)"
  by (auto simp: rep_def holds_def mem_ok_def leaf_ok_def magic_bytes_def demo_done_def demo_entries_def)

lemma demo_done_cells:
  "cells demo_done 30 = Some (Txt ''fork01'')" "cells demo_done 31 = Some (Txt ''ok'')" "cells demo_done 32 = Some (Txt ''no'')"
  "cells demo_done 33 = Some (Txt ''exited'')" "cells demo_done 34 = Some (Txt ''exit'')" "cells demo_done 35 = Some (Txt ''1'')"
  by (simp_all add: demo_done_def)

lemma demo_done_at:
  assumes "good_key key" "words key = [k]"
  shows "result_at 2 demo_done key = (case sfind demo_entries k of
      Some (n, nx, ka, u) \<Rightarrow> if dptr u = 0 then None else (case cells demo_done (dptr u) of Some (Txt s) \<Rightarrow> Some s | _ \<Rightarrow> None)
    | None \<Rightarrow> None)"
  using result_at_tree [OF assms(1) demo_done_rep] assms(2) by (auto split: option.splits)

end
