(* ===== verification/Data_Gen.thy ===== *)
theory Data_Gen
  imports LTP_Prelude
begin

unbundle bit_operations_syntax

text \<open>
  The generators and checkers of test data: \<^verbatim>\<open>lib/pattern.c\<close>, \<^verbatim>\<open>lib/dataascii.c\<close> and
  \<^verbatim>\<open>lib/databin.c\<close>. A buffer is the list of its bytes; an access outside of it is a fault. The
  \<^verbatim>\<open>datapid\<close> pair of \<^verbatim>\<open>lib/datapid.c\<close> does something on Cray machines only.
\<close>

section \<open>Definitions\<close>

subsection \<open>Repeated patterns\<close>

definition memcpy :: "bytes \<Rightarrow> int \<Rightarrow> bytes \<Rightarrow> int \<Rightarrow> int \<Rightarrow> bytes outcome" where
  "memcpy buf dst src off n = bind_outcome (mem_read src off n) (mem_write buf dst)"

definition memcmp :: "bytes \<Rightarrow> int \<Rightarrow> bytes \<Rightarrow> int \<Rightarrow> int \<Rightarrow> bool outcome" where
  "memcmp buf off src soff n =
     bind_outcome (mem_read buf off n) (\<lambda>xs. bind_outcome (mem_read src soff n) (\<lambda>ys. Ok (xs \<noteq> ys)))"

text \<open>
  The loop that doubles the filled part; \<^verbatim>\<open>cp\<close> is \<^verbatim>\<open>buf + ncopied\<close> throughout. It is not bounded in
  the source, and not to return is the value \<open>None\<close>.
\<close>

partial_function (option) fill_loop :: "bytes \<Rightarrow> int \<Rightarrow> int \<Rightarrow> int \<Rightarrow> bytes outcome option" where
  "fill_loop buf buflen ncopied nleft =
     (if ncopied < buflen then
        (let trans = (if ncopied < nleft then ncopied else nleft)
         in case memcpy buf ncopied buf 0 trans of
              Ok buf' \<Rightarrow> fill_loop buf' buflen (ncopied + trans) (nleft - trans)
            | Exit n \<Rightarrow> Some (Exit n)
            | Fault \<Rightarrow> Some Fault)
      else Some (Ok buf))"

definition pattern_shift :: "int \<Rightarrow> int \<Rightarrow> int" where
  "pattern_shift patlen patshift = (if patlen \<noteq> 0 then crem patshift patlen else patshift)"

definition pattern_fill :: "bytes \<Rightarrow> int \<Rightarrow> bytes \<Rightarrow> int \<Rightarrow> int \<Rightarrow> bytes outcome option" where
  "pattern_fill buf buflen pat patlen patshift =
     (let sh = pattern_shift patlen patshift; trans = patlen - sh
      in if buflen < trans then Some (memcpy buf 0 pat sh buflen)
         else case memcpy buf 0 pat sh trans of
           Ok buf1 \<Rightarrow>
             (if sh > 0 then
                (if buflen - trans < sh then Some (memcpy buf1 trans pat 0 (buflen - trans))
                 else case memcpy buf1 trans pat 0 sh of
                   Ok buf2 \<Rightarrow> fill_loop buf2 buflen (trans + sh) (buflen - trans - sh)
                 | e \<Rightarrow> Some e)
              else fill_loop buf1 buflen trans (buflen - trans))
         | e \<Rightarrow> Some e)"

partial_function (option) check_loop :: "bytes \<Rightarrow> int \<Rightarrow> int \<Rightarrow> int \<Rightarrow> int outcome option" where
  "check_loop buf buflen ncmp nleft =
     (if ncmp < buflen then
        (let nb = (if ncmp < nleft then ncmp else nleft)
         in case memcmp buf 0 buf ncmp nb of
              Ok differ \<Rightarrow> if differ then Some (Ok (-1)) else check_loop buf buflen (ncmp + nb) (nleft - nb)
            | Exit n \<Rightarrow> Some (Exit n)
            | Fault \<Rightarrow> Some Fault)
      else Some (Ok 0))"

definition cmp_result :: "bool outcome \<Rightarrow> int outcome" where
  "cmp_result r = bind_outcome r (\<lambda>differ. Ok (if differ then -1 else 0))"

definition pattern_check :: "bytes \<Rightarrow> int \<Rightarrow> bytes \<Rightarrow> int \<Rightarrow> int \<Rightarrow> int outcome option" where
  "pattern_check buf buflen pat patlen patshift =
     (let sh = pattern_shift patlen patshift; nb = patlen - sh
      in if buflen < nb then Some (cmp_result (memcmp buf 0 pat sh buflen))
         else case memcmp buf 0 pat sh nb of
           Ok differ \<Rightarrow>
             (if differ then Some (Ok (-1))
              else if sh > 0 then
                (if buflen - nb < sh then Some (cmp_result (memcmp buf nb pat 0 (buflen - nb)))
                 else case memcmp buf nb pat 0 sh of
                   Ok differ' \<Rightarrow> if differ' then Some (Ok (-1)) else check_loop buf buflen (nb + sh) (buflen - nb - sh)
                 | Exit n \<Rightarrow> Some (Exit n)
                 | Fault \<Rightarrow> Some Fault)
              else check_loop buf buflen nb (buflen - nb))
         | Exit n \<Rightarrow> Some (Exit n)
         | Fault \<Rightarrow> Some Fault)"

subsection \<open>Printable data\<close>

text \<open>The default characters; their size is that of the array, so that the NUL at its end is one of them.\<close>

definition CHARS :: cstr where
  "CHARS = ''ABCDEFGHIJKLMNOPQRSTUVWXYZabcdefghjiklmnopqrstuvwxyz'' @ [newline]"

definition char_list :: "cstr option \<Rightarrow> cstr" where
  "char_list listofchars = (case listofchars of None \<Rightarrow> CHARS @ [nul] | Some s \<Rightarrow> s)"

definition char_at :: "cstr \<Rightarrow> int \<Rightarrow> char outcome" where
  "char_at cl cnt =
     (if cl = [] then Fault
      else (let ind = crem cnt (int (length cl)) in if ind < 0 then Fault else Ok (cl ! nat ind)))"

fun ascii_loop :: "cstr \<Rightarrow> int \<Rightarrow> nat \<Rightarrow> cstr outcome" where
  "ascii_loop cl cnt 0 = Ok []"
| "ascii_loop cl cnt (Suc n) =
     bind_outcome (char_at cl cnt) (\<lambda>c. bind_outcome (ascii_loop cl (cnt + 1) n) (\<lambda>cs. Ok (c # cs)))"

definition dataasciigen :: "cstr option \<Rightarrow> cstr \<Rightarrow> int \<Rightarrow> int \<Rightarrow> (int \<times> cstr) outcome" where
  "dataasciigen listofchars buffer bsize off =
     bind_outcome (checked 32 (off + bsize)) (\<lambda>total.
       if length buffer < nat bsize then Fault
       else bind_outcome (ascii_loop (char_list listofchars) off (nat bsize)) (\<lambda>cs.
         Ok (bsize, cs @ drop (nat bsize) buffer)))"

text \<open>\<^verbatim>\<open>%#o\<close>: octal digits with a leading zero; a negative \<^verbatim>\<open>int\<close> is read as unsigned.\<close>

fun oct_nat :: "nat \<Rightarrow> cstr" where
  "oct_nat n = (if n < 8 then [digit_char n] else oct_nat (n div 8) @ [digit_char (n mod 8)])"

declare oct_nat.simps [simp del]

definition fmt_oct :: "int \<Rightarrow> cstr" where
  "fmt_oct x = (if x = 0 then ''0'' else CHR ''0'' # oct_nat (nat (x mod 2 ^ 32)))"

definition mismatch_mesg :: "int \<Rightarrow> int \<Rightarrow> int \<Rightarrow> cstr" where
  "mismatch_mesg off expected actual =
     ''data mismatch at offset '' @ dec_int off @ '', exp:'' @ fmt_oct expected @ '', act:'' @ fmt_oct actual"

definition match_mesg :: "int \<Rightarrow> cstr" where
  "match_mesg bsize = ''all '' @ dec_int bsize @ '' bytes match desired pattern''"

definition char_int :: "char \<Rightarrow> int" where
  "char_int c = sint (word_of_nat (of_char c) :: 8 word)"

fun ascii_chk_loop :: "cstr \<Rightarrow> int \<Rightarrow> nat \<Rightarrow> cstr \<Rightarrow> (int \<times> char \<times> char) option outcome" where
  "ascii_chk_loop cl cnt 0 buf = Ok None"
| "ascii_chk_loop cl cnt (Suc n) [] = Fault"
| "ascii_chk_loop cl cnt (Suc n) (b # bs) =
     bind_outcome (char_at cl cnt) (\<lambda>c. if b \<noteq> c then Ok (Some (cnt, c, b)) else ascii_chk_loop cl (cnt + 1) n bs)"

definition dataasciichk :: "cstr option \<Rightarrow> cstr \<Rightarrow> int \<Rightarrow> int \<Rightarrow> (int \<times> cstr) outcome" where
  "dataasciichk listofchars buffer bsize off =
     bind_outcome (checked 32 (off + bsize)) (\<lambda>total.
     bind_outcome (ascii_chk_loop (char_list listofchars) off (nat bsize) buffer) (\<lambda>r. case r of
       None \<Rightarrow> Ok (-1, match_mesg bsize)
     | Some (cnt, c, b) \<Rightarrow> Ok (cnt, mismatch_mesg cnt (char_int c) (char_int b))))"

subsection \<open>Binary data\<close>

definition bin_const :: "char \<Rightarrow> 8 word" where
  "bin_const mode =
     (if mode = CHR ''c'' then 0xF0 else if mode = CHR ''o'' then 0xFF
      else if mode = CHR ''z'' then 0 else 0x55)"

definition count_bits7 :: "int \<Rightarrow> int" where
  "count_bits7 x = crem x 8 AND 127"

fun count_loop :: "int \<Rightarrow> nat \<Rightarrow> bytes outcome" where
  "count_loop x 0 = Ok []"
| "count_loop x (Suc n) =
     bind_outcome (checked 32 x) (\<lambda>y. bind_outcome (count_loop (x + 1) n) (\<lambda>bs. Ok (word_of_int (count_bits7 y) # bs)))"

text \<open>\<^verbatim>\<open>databingen\<close>; the values of \<^verbatim>\<open>rand\<close> for mode \<^verbatim>\<open>r\<close> are an argument.\<close>

definition databingen :: "(nat \<Rightarrow> int) \<Rightarrow> char \<Rightarrow> bytes \<Rightarrow> int \<Rightarrow> int \<Rightarrow> bytes outcome" where
  "databingen rnd mode buffer bsize off =
     (if mode = CHR ''C'' then
        (if length buffer < nat bsize then Fault
         else bind_outcome (count_loop off (nat bsize)) (\<lambda>bs. Ok (bs @ drop (nat bsize) buffer)))
      else if mode = CHR ''r'' then
        (if length buffer < nat bsize then Fault
         else Ok (map (\<lambda>i. word_of_int ((rnd i AND 127) OR 64)) [0..<nat bsize] @ drop (nat bsize) buffer))
      else if bsize < 0 \<or> length buffer < nat bsize then Fault
      else Ok (replicate (nat bsize) (bin_const mode) @ drop (nat bsize) buffer))"

fun count_chk_loop :: "int \<Rightarrow> nat \<Rightarrow> bytes \<Rightarrow> (int \<times> int \<times> int) option outcome" where
  "count_chk_loop x 0 buf = Ok None"
| "count_chk_loop x (Suc n) [] = Fault"
| "count_chk_loop x (Suc n) (b # bs) =
     bind_outcome (checked 32 x) (\<lambda>y.
       if sint b \<noteq> count_bits7 y then Ok (Some (y, count_bits7 y, sint b)) else count_chk_loop (x + 1) n bs)"

fun const_chk_loop :: "int \<Rightarrow> 8 word \<Rightarrow> nat \<Rightarrow> bytes \<Rightarrow> (int \<times> int \<times> int) option outcome" where
  "const_chk_loop x e 0 buf = Ok None"
| "const_chk_loop x e (Suc n) [] = Fault"
| "const_chk_loop x e (Suc n) (b # bs) =
     (if uint b \<noteq> uint e then bind_outcome (checked 32 x) (\<lambda>y. Ok (Some (y, uint e, uint b)))
      else const_chk_loop (x + 1) e n bs)"

definition databinchk :: "char \<Rightarrow> bytes \<Rightarrow> int \<Rightarrow> int \<Rightarrow> (int \<times> cstr option) outcome" where
  "databinchk mode buffer bsize off =
     (if mode = CHR ''r'' then Ok (-1, None)
      else bind_outcome
        (if mode = CHR ''C'' then count_chk_loop off (nat bsize) buffer
         else const_chk_loop off (bin_const mode) (nat bsize) buffer) (\<lambda>r. case r of
          None \<Rightarrow> Ok (-1, Some (match_mesg bsize))
        | Some (x, e, b) \<Rightarrow> Ok (x, Some (mismatch_mesg x e b))))"

section \<open>Lemmas\<close>

subsection \<open>Checked memory\<close>

lemma memcpy_Ok:
  assumes "dst + n \<le> length buf" "off + n \<le> length src"
  shows "memcpy buf (int dst) src (int off) (int n)
    = Ok (take dst buf @ take n (drop off src) @ drop (dst + n) buf)"
  using assms by (simp add: memcpy_def mem_read_Ok mem_write_Ok)

lemma memcmp_Ok:
  assumes "off + n \<le> length buf" "soff + n \<le> length src"
  shows "memcmp buf (int off) src (int soff) (int n)
    = Ok (take n (drop off buf) \<noteq> take n (drop soff src))"
  using assms by (simp add: memcmp_def mem_read_Ok)

subsection \<open>The periodic contents\<close>

definition cyclic :: "bytes \<Rightarrow> nat \<Rightarrow> nat \<Rightarrow> bytes" where
  "cyclic pat sh n = map (\<lambda>i. pat ! ((i + sh) mod length pat)) [0..<n]"

lemma length_cyclic [simp]: "length (cyclic pat sh n) = n"
  by (simp add: cyclic_def)

lemma cyclic_0 [simp]: "cyclic pat sh 0 = []"
  by (simp add: cyclic_def)

lemma take_cyclic: "take k (cyclic pat sh n) = cyclic pat sh (min k n)"
  by (rule nth_equalityI) (auto simp: cyclic_def)

lemma cyclic_add: "cyclic pat sh (n + k) = cyclic pat sh n @ cyclic pat (sh + n) k"
  by (rule nth_equalityI) (auto simp: cyclic_def nth_append ac_simps)

lemma cyclic_mod: "cyclic pat (sh mod length pat) n = cyclic pat sh n"
  by (simp add: cyclic_def mod_add_right_eq)

lemma cyclic_period:
  assumes "length pat dvd n"
  shows "cyclic pat (sh + n) k = cyclic pat sh k"
proof -
  have "(i + (sh + n)) mod length pat = (i + sh) mod length pat" for i
    using assms by (elim dvdE) (simp flip: add.assoc)
  then show ?thesis by (simp add: cyclic_def)
qed

lemma cyclic_linear:
  assumes "sh + n \<le> length pat"
  shows "cyclic pat sh n = take n (drop sh pat)"
  using assms by (intro nth_equalityI) (auto simp: cyclic_def ac_simps)

lemma cyclic_head:
  assumes "sh < length pat" "k \<le> sh"
  shows "cyclic pat (sh + (length pat - sh)) k = take k pat"
  using assms cyclic_period [of pat "length pat" 0 k] cyclic_linear [of 0 k pat] by simp

subsection \<open>Filling\<close>

lemma fill_loop_cyclic:
  assumes "L \<le> length buf" "n \<le> L" "0 < n" "length pat dvd n \<or> n = L"
    and "take n buf = cyclic pat sh n"
  shows "fill_loop buf (int L) (int n) (int (L - n)) = Some (Ok (cyclic pat sh L @ drop L buf))"
  using assms
proof (induction "L - n" arbitrary: buf n rule: less_induct)
  case less
  show ?case
  proof (cases "n = L")
    case True
    then show ?thesis
      using less.prems by (subst fill_loop.simps) (metis append_take_drop_id less_irrefl)
  next
    case False
    define t where "t = min n (L - n)"
    have t: "0 < t" "n + t \<le> L" "t \<le> n" using False less.prems by (auto simp: t_def)
    let ?b = "take n buf @ take t buf @ drop (n + t) buf"
    have cp: "memcpy buf (int n) buf 0 (int t) = Ok ?b"
      using memcpy_Ok [of n t buf 0 buf] t less.prems by simp
    have tk: "take (n + t) ?b = cyclic pat sh (n + t)"
    proof -
      have "take t buf = cyclic pat sh t"
        using less.prems t by (metis min.absorb1 take_cyclic take_take)
      then show ?thesis
        using less.prems t False cyclic_period [of pat n sh t] by (simp add: cyclic_add)
    qed
    have end_or: "length pat dvd n + t \<or> n + t = L"
      using less.prems False by (auto simp: t_def min_def)
    have "fill_loop ?b (int L) (int (n + t)) (int (L - (n + t))) = Some (Ok (cyclic pat sh L @ drop L ?b))"
      using t less.prems False end_or tk by (intro less.hyps) auto
    moreover have "drop L ?b = drop L buf"
      using t less.prems by (simp add: drop_append)
    moreover have "(if int n < int (L - n) then int n else int (L - n)) = int t"
      by (simp add: t_def min_def)
    moreover have "int n + int t = int (n + t)" "int (L - n) - int t = int (L - (n + t))" "int n < int L"
      using t False less.prems by auto
    ultimately show ?thesis
      using cp by (subst fill_loop.simps) (simp only: Let_def if_True outcome.case)
  qed
qed

lemma pattern_shift_nat:
  assumes "pat \<noteq> []"
  shows "pattern_shift (int (length pat)) (int sh) = int (sh mod length pat)"
  using assms by (simp add: pattern_shift_def crem_nonneg zmod_int)

lemma memcpy_extend:
  assumes "take k (drop off src) = cyclic pat (sh + n) k" "n + k \<le> length buf" "off + k \<le> length src"
  shows "memcpy (cyclic pat sh n @ drop n buf) (int n) src (int off) (int k)
    = Ok (cyclic pat sh (n + k) @ drop (n + k) buf)"
  using assms memcpy_Ok [of n k "cyclic pat sh n @ drop n buf" off src]
  by (simp add: cyclic_add [of pat sh n k] add.commute [of k n])

lemma pattern_fill_shifted:
  assumes "pat \<noteq> []" "L \<le> length buf" "sh = nat patshift mod length pat" "0 \<le> patshift"
  shows "pattern_fill buf (int L) pat (int (length pat)) patshift
    = Some (Ok (cyclic pat sh L @ drop L buf))"
proof -
  obtain d where d: "length pat = sh + d" "0 < d"
    using assms(1,3) by (metis less_imp_add_positive length_greater_0_conv mod_less_divisor)
  have sh: "pattern_shift (int (length pat)) patshift = int sh" and sd: "int (length pat) - int sh = int d"
    using assms(1,4) d(1) pattern_shift_nat [of pat "nat patshift"] assms(3) [symmetric] by auto
  have first: "memcpy buf 0 pat (int sh) (int k) = Ok (cyclic pat sh k @ drop k buf)" if "k \<le> d" "k \<le> L" for k
    using memcpy_extend [of k sh pat pat sh 0 buf] cyclic_linear [of sh k pat] that assms(2) d by simp
  have second: "memcpy (cyclic pat sh d @ drop d buf) (int d) pat 0 (int k)
      = Ok (cyclic pat sh (d + k) @ drop (d + k) buf)" if "k \<le> sh" "d + k \<le> L" for k
    using memcpy_extend [of k 0 pat pat sh d buf] cyclic_head [of sh pat k] that d assms(2) by simp
  have loop: "fill_loop (cyclic pat sh n @ drop n buf) (int L) (int n) (int m)
      = Some (Ok (cyclic pat sh L @ drop L buf))" if "L = n + m" "n = sh + d" for n m
    using that assms(1,2) d fill_loop_cyclic [of L "cyclic pat sh n @ drop n buf" n pat sh]
    by (simp add: add.commute)
  note defs = pattern_fill_def sh sd Let_def
  show ?thesis
  proof (cases "L < d")
    case True
    then show ?thesis using first [of L] by (simp add: defs)
  next
    case False
    then obtain k where k: "L = d + k" by (metis le_Suc_ex not_less)
    show ?thesis
    proof (cases "k < sh")
      case True
      with k show ?thesis using first [of d] second [of k] by (simp add: defs)
    next
      case False
      then obtain m where m: "k = sh + m" by (metis le_Suc_ex not_less)
      show ?thesis
      proof (cases "sh = 0")
        case True
        with k m show ?thesis using first [of d] loop [of d m] unfolding defs by simp
      next
        case False
        with k m show ?thesis using first [of d] second [of sh] loop [of "d + sh" m] by (simp add: defs)
      qed
    qed
  qed
qed

subsection \<open>Checking\<close>

lemma take_add_eq_iff:
  assumes "n + k \<le> length buf"
  shows "take (n + k) buf = cyclic pat sh (n + k)
    \<longleftrightarrow> take n buf = cyclic pat sh n \<and> take k (drop n buf) = cyclic pat (sh + n) k"
  using assms by (simp add: cyclic_add take_add)

lemma take_cyclic_le:
  assumes "take L buf = cyclic pat sh L" "n \<le> L"
  shows "take n buf = cyclic pat sh n"
  using assms by (metis min.absorb1 take_cyclic take_take)

lemma check_loop_cyclic:
  assumes "L \<le> length buf" "n \<le> L" "0 < n" "length pat dvd n \<or> n = L"
    and "take n buf = cyclic pat sh n"
  shows "check_loop buf (int L) (int n) (int (L - n))
    = Some (Ok (if take L buf = cyclic pat sh L then 0 else -1))"
  using assms
proof (induction "L - n" arbitrary: n rule: less_induct)
  case less
  show ?case
  proof (cases "n = L")
    case True
    then show ?thesis using less.prems by (subst check_loop.simps) simp
  next
    case False
    define t where "t = min n (L - n)"
    have t: "0 < t" "n + t \<le> L" "t \<le> n" using False less.prems by (auto simp: t_def)
    have "take t buf = cyclic pat (sh + n) t"
      using take_cyclic_le [OF less.prems(5) t(3)] less.prems(4) False by (simp add: cyclic_period)
    then have ext: "take (n + t) buf = cyclic pat sh (n + t) \<longleftrightarrow> take t (drop n buf) = take t buf"
      using take_add_eq_iff [of n t buf pat sh] less.prems t by simp
    have cp: "memcmp buf 0 buf (int n) (int t) = Ok (take (n + t) buf \<noteq> cyclic pat sh (n + t))"
      using memcmp_Ok [of 0 t buf n buf] t less.prems ext by auto
    have end_or: "length pat dvd n + t \<or> n + t = L"
      using less.prems False by (auto simp: t_def min_def)
    have rest: "check_loop buf (int L) (int (n + t)) (int (L - (n + t)))
        = Some (Ok (if take L buf = cyclic pat sh L then 0 else -1))"
      if "take (n + t) buf = cyclic pat sh (n + t)"
      using t less.prems False end_or that by (intro less.hyps) auto
    have no: "take L buf \<noteq> cyclic pat sh L" if "take (n + t) buf \<noteq> cyclic pat sh (n + t)"
      using that t(2) take_cyclic_le by blast
    have eqs: "(if int n < int (L - n) then int n else int (L - n)) = int t" "int n < int L"
      "int n + int t = int (n + t)" "int (L - n) - int t = int (L - (n + t))"
      using t False less.prems by (auto simp: t_def min_def)
    show ?thesis
      using rest no by (subst check_loop.simps) (simp only: Let_def eqs cp if_True outcome.case, simp)
  qed
qed

lemma memcmp_cyclic:
  assumes "take k (drop off src) = cyclic pat (sh + n) k" "n + k \<le> length buf" "off + k \<le> length src"
    and "take n buf = cyclic pat sh n"
  shows "memcmp buf (int n) src (int off) (int k) = Ok (take (n + k) buf \<noteq> cyclic pat sh (n + k))"
  using assms memcmp_Ok [of n k buf off src] by (simp add: take_add_eq_iff)

lemma pattern_check_shifted:
  assumes "pat \<noteq> []" "L \<le> length buf" "sh = nat patshift mod length pat" "0 \<le> patshift"
  shows "pattern_check buf (int L) pat (int (length pat)) patshift
    = Some (Ok (if take L buf = cyclic pat sh L then 0 else -1))"
proof -
  obtain d where d: "length pat = sh + d" "0 < d"
    using assms(1,3) by (metis less_imp_add_positive length_greater_0_conv mod_less_divisor)
  have sh: "pattern_shift (int (length pat)) patshift = int sh" and sd: "int (length pat) - int sh = int d"
    using assms(1,4) d(1) pattern_shift_nat [of pat "nat patshift"] assms(3) [symmetric] by auto
  have first: "memcmp buf 0 pat (int sh) (int k) = Ok (take k buf \<noteq> cyclic pat sh k)" if "k \<le> d" "k \<le> L" for k
    using memcmp_cyclic [of k sh pat pat sh 0 buf] cyclic_linear [of sh k pat] that assms(2) d by simp
  have second: "memcmp buf (int d) pat 0 (int k) = Ok (take (d + k) buf \<noteq> cyclic pat sh (d + k))"
    if "take d buf = cyclic pat sh d" "k \<le> sh" "d + k \<le> L" for k
    using memcmp_cyclic [of k 0 pat pat sh d buf] cyclic_head [of sh pat k] that d assms(2) by simp
  have loop: "check_loop buf (int L) (int n) (int m)
      = Some (Ok (if take L buf = cyclic pat sh L then 0 else -1))"
    if "L = n + m" "n = sh + d" "take n buf = cyclic pat sh n" for n m
    using that assms(1,2) d check_loop_cyclic [of L buf n pat sh] by (simp add: add.commute)
  have no: "take L buf \<noteq> cyclic pat sh L" if "take n buf \<noteq> cyclic pat sh n" "n \<le> L" for n
    using that take_cyclic_le by blast
  note defs = pattern_check_def cmp_result_def sh sd Let_def
  show ?thesis
  proof (cases "L < d")
    case True
    then show ?thesis using first [of L] by (simp add: defs)
  next
    case False
    then obtain k where k: "L = d + k" by (metis le_Suc_ex not_less)
    show ?thesis
    proof (cases "take d buf = cyclic pat sh d")
      case False
      with k show ?thesis using first [of d] no [of d] by (simp add: defs)
    next
      case True
      note same = this
      show ?thesis
      proof (cases "k < sh")
        case True
        with k same show ?thesis using first [of d] second [of k] by (simp add: defs)
      next
        case False
        then obtain m where m: "k = sh + m" by (metis le_Suc_ex not_less)
        show ?thesis
        proof (cases "sh = 0")
          case True
          with k m same show ?thesis using first [of d] loop [of d m] unfolding defs by simp
        next
          case False
          with k m same show ?thesis
            using first [of d] second [of sh] loop [of "d + sh" m] no [of "d + sh"] by (auto simp: defs)
        qed
      qed
    qed
  qed
qed

subsection \<open>A pattern of no bytes\<close>

lemma memcpy_none: "memcpy buf 0 buf 0 0 = Ok buf"
  by (simp add: memcpy_def mem_read_def mem_write_def)

lemma memcmp_none: "memcmp buf 0 buf 0 0 = Ok False"
  by (simp add: memcmp_def mem_read_def)

lemma fill_loop_stuck:
  assumes "fill_loop buf buflen ncopied nleft = Some r"
  shows "\<not> (ncopied = 0 \<and> 0 < buflen \<and> 0 < nleft)"
  by (rule fill_loop.raw_induct
      [where P = "\<lambda>buf buflen ncopied nleft r. \<not> (ncopied = 0 \<and> 0 < buflen \<and> 0 < nleft)", OF _ assms])
    (auto simp: memcpy_none)

lemma check_loop_stuck:
  assumes "check_loop buf buflen ncmp nleft = Some r"
  shows "\<not> (ncmp = 0 \<and> 0 < buflen \<and> 0 < nleft)"
  by (rule check_loop.raw_induct
      [where P = "\<lambda>buf buflen ncmp nleft r. \<not> (ncmp = 0 \<and> 0 < buflen \<and> 0 < nleft)", OF _ assms])
    (auto simp: memcmp_none)

section \<open>The contract of a generator and its checker\<close>

text \<open>
  What \<^verbatim>\<open>growfiles\<close>, \<^verbatim>\<open>doio\<close> and the other users of the pairs rely on: the byte at a position
  of the file depends on the position only, and the checker reports the first position that differs.
\<close>

locale data_pair =
  fixes byte_at :: "int \<Rightarrow> 'b"
    and gen :: "int \<Rightarrow> nat \<Rightarrow> 'b list outcome"
    and chk :: "int \<Rightarrow> 'b list \<Rightarrow> int outcome"
    and fits :: "int \<Rightarrow> nat \<Rightarrow> bool"
  assumes fits_nonneg: "fits off n \<Longrightarrow> 0 \<le> off"
    and fits_split: "fits off (n + k) \<Longrightarrow> fits off n \<and> fits (off + int n) k"
    and gen_Ok: "fits off n \<Longrightarrow> gen off n = Ok (map (\<lambda>i. byte_at (off + int i)) [0..<n])"
    and chk_same: "fits off n \<Longrightarrow> chk off (map (\<lambda>i. byte_at (off + int i)) [0..<n]) = Ok (-1)"
    and chk_first: "fits off (length bs) \<Longrightarrow> i < length bs \<Longrightarrow> bs ! i \<noteq> byte_at (off + int i) \<Longrightarrow>
      \<forall>j < i. bs ! j = byte_at (off + int j) \<Longrightarrow> chk off bs = Ok (off + int i)"
begin

definition expected :: "int \<Rightarrow> nat \<Rightarrow> 'b list" where
  "expected off n = map (\<lambda>i. byte_at (off + int i)) [0..<n]"

lemma expected_append: "expected off (n + k) = expected off n @ expected (off + int n) k"
  by (rule nth_equalityI) (auto simp: expected_def nth_append of_nat_diff)

lemma gen_segments:
  assumes "fits off (n + k)" "gen off n = Ok xs" "gen (off + int n) k = Ok ys"
  shows "gen off (n + k) = Ok (xs @ ys)"
  using assms fits_split [OF assms(1)] expected_append [of off n k] by (auto simp: gen_Ok expected_def)

lemma first_difference:
  assumes "length bs = n" "bs \<noteq> expected off n"
  obtains i where "i < n" "bs ! i \<noteq> byte_at (off + int i)" "\<forall>j < i. bs ! j = byte_at (off + int j)"
proof -
  have "\<exists>i. i < n \<and> bs ! i \<noteq> byte_at (off + int i)"
    using assms by (auto simp: expected_def list_eq_iff_nth_eq)
  then obtain i where "i < n \<and> bs ! i \<noteq> byte_at (off + int i)"
    and "\<forall>j < i. \<not> (j < n \<and> bs ! j \<noteq> byte_at (off + int j))"
    using exists_least_iff [of "\<lambda>i. i < n \<and> bs ! i \<noteq> byte_at (off + int i)"] by blast
  then show thesis by (intro that [of i]) auto
qed

lemma chk_iff:
  assumes "fits off (length bs)"
  shows "chk off bs = Ok (-1) \<longleftrightarrow> gen off (length bs) = Ok bs"
proof (cases "bs = expected off (length bs)")
  case True
  then show ?thesis using chk_same [OF assms] gen_Ok [OF assms] by (simp add: expected_def)
next
  case False
  then obtain i where "i < length bs" "bs ! i \<noteq> byte_at (off + int i)" "\<forall>j < i. bs ! j = byte_at (off + int j)"
    using first_difference by blast
  then have "chk off bs = Ok (off + int i)" using chk_first assms by blast
  then show ?thesis using False fits_nonneg [OF assms] gen_Ok [OF assms] by (auto simp: expected_def)
qed

lemma chk_corrupted:
  assumes "fits off n" "gen off n = Ok bs" "i < n" "b \<noteq> bs ! i"
  shows "chk off (bs[i := b]) = Ok (off + int i)"
  using assms gen_Ok [OF assms(1)] by (intro chk_first) auto

end

lemma char_at_nonneg:
  assumes "cl \<noteq> []" "0 \<le> x"
  shows "char_at cl x = Ok (cl ! nat (x mod int (length cl)))"
  using assms pos_mod_sign [of "int (length cl)" x] by (simp add: char_at_def crem_nonneg Let_def not_less [symmetric])

lemma ascii_loop_Ok:
  assumes "cl \<noteq> []" "0 \<le> x"
  shows "ascii_loop cl x n = Ok (map (\<lambda>i. cl ! nat ((x + int i) mod int (length cl))) [0..<n])"
  using assms(2)
proof (induction n arbitrary: x)
  case (Suc n)
  then show ?case
    by (simp add: char_at_nonneg [OF assms(1)] upt_conv_Cons map_Suc_upt [symmetric] ac_simps del: upt_Suc)
qed simp

text \<open>The position of the first byte of a buffer that differs from what is expected.\<close>

fun first_diff :: "(int \<Rightarrow> 'b) \<Rightarrow> int \<Rightarrow> 'b list \<Rightarrow> int option" where
  "first_diff f x [] = None"
| "first_diff f x (b # bs) = (if b \<noteq> f x then Some x else first_diff f (x + 1) bs)"

lemma first_diff_None: "first_diff f x (map (\<lambda>i. f (x + int i)) [0..<n]) = None"
proof (induction n arbitrary: x)
  case (Suc n)
  show ?case using Suc [of "x + 1"]
    by (simp add: upt_conv_Cons map_Suc_upt [symmetric] comp_def ac_simps del: upt_Suc)
qed simp

lemma first_diff_Some:
  assumes "i < length bs" "bs ! i \<noteq> f (x + int i)" "\<forall>j < i. bs ! j = f (x + int j)"
  shows "first_diff f x bs = Some (x + int i)"
  using assms
proof (induction bs arbitrary: x i)
  case (Cons b bs)
  show ?case
  proof (cases i)
    case (Suc k)
    then have "b = f x" using Cons.prems(3) by fastforce
    moreover have "bs ! j = f (x + 1 + int j)" if "j < k" for j
      using Cons.prems(3) [rule_format, of "Suc j"] that Suc by (simp add: ac_simps)
    then have "first_diff f (x + 1) bs = Some (x + 1 + int k)"
      using Cons.prems Suc by (intro Cons.IH) (auto simp: ac_simps)
    ultimately show ?thesis using Suc by simp
  qed (use Cons.prems in simp)
qed simp

lemma ascii_chk_loop_diff:
  assumes "cl \<noteq> []" "0 \<le> x"
  shows "\<exists>c b. ascii_chk_loop cl x (length bs) bs
    = Ok (map_option (\<lambda>i. (i, c, b)) (first_diff (\<lambda>i. cl ! nat (i mod int (length cl))) x bs))"
  using assms(2) by (induction bs arbitrary: x) (auto simp: char_at_nonneg [OF assms(1)])

definition ascii_byte :: "cstr option \<Rightarrow> int \<Rightarrow> char" where
  "ascii_byte lst x = char_list lst ! nat (x mod int (length (char_list lst)))"

text \<open>The calls on a buffer of the size asked for, and what of their results the contract is about.\<close>

definition ascii_gen :: "cstr option \<Rightarrow> int \<Rightarrow> nat \<Rightarrow> cstr outcome" where
  "ascii_gen lst off n = map_outcome snd (dataasciigen lst (replicate n nul) (int n) off)"

definition ascii_chk :: "cstr option \<Rightarrow> int \<Rightarrow> cstr \<Rightarrow> int outcome" where
  "ascii_chk lst off bs = map_outcome fst (dataasciichk lst bs (int (length bs)) off)"

definition ascii_fits :: "cstr option \<Rightarrow> int \<Rightarrow> nat \<Rightarrow> bool" where
  "ascii_fits lst off n \<longleftrightarrow> char_list lst \<noteq> [] \<and> 0 \<le> off \<and> off + int n < 2 ^ 31"

definition bin_fits :: "char \<Rightarrow> int \<Rightarrow> nat \<Rightarrow> bool" where
  "bin_fits mode off n \<longleftrightarrow> mode \<noteq> CHR ''r'' \<and> 0 \<le> off \<and> off + int n < 2 ^ 31"

lemma ascii_chk_diff:
  assumes "ascii_fits lst off (length bs)"
  shows "ascii_chk lst off bs
    = Ok (case first_diff (ascii_byte lst) off bs of None \<Rightarrow> -1 | Some i \<Rightarrow> i)"
proof -
  obtain c b where "ascii_chk_loop (char_list lst) off (length bs) bs
    = Ok (map_option (\<lambda>i. (i, c, b)) (first_diff (ascii_byte lst) off bs))"
    using assms ascii_chk_loop_diff unfolding ascii_byte_def ascii_fits_def by blast
  then show ?thesis using assms
    by (auto simp: ascii_chk_def dataasciichk_def checked_Ok in_width_def ascii_fits_def split: option.splits)
qed

interpretation ascii: data_pair "ascii_byte lst" "ascii_gen lst" "ascii_chk lst" "ascii_fits lst" for lst
proof unfold_locales
  show "ascii_gen lst off n = Ok (map (\<lambda>i. ascii_byte lst (off + int i)) [0..<n])" if "ascii_fits lst off n" for off n
    using that by (simp add: ascii_gen_def dataasciigen_def checked_Ok in_width_def ascii_fits_def
      ascii_loop_Ok ascii_byte_def)
qed (auto simp: ascii_fits_def ascii_chk_diff first_diff_None first_diff_Some)

subsection \<open>The binary pair\<close>

definition bin_byte :: "char \<Rightarrow> int \<Rightarrow> 8 word" where
  "bin_byte mode x = (if mode = CHR ''C'' then word_of_int (count_bits7 x) else bin_const mode)"

definition bin_gen :: "(nat \<Rightarrow> int) \<Rightarrow> char \<Rightarrow> int \<Rightarrow> nat \<Rightarrow> bytes outcome" where
  "bin_gen rnd mode off n = databingen rnd mode (replicate n 0) (int n) off"

definition bin_chk :: "char \<Rightarrow> int \<Rightarrow> bytes \<Rightarrow> int outcome" where
  "bin_chk mode off bs = map_outcome fst (databinchk mode bs (int (length bs)) off)"

lemma count_bits7_range: "0 \<le> count_bits7 x \<and> count_bits7 x < 128"
proof -
  have "count_bits7 x = take_bit 7 (crem x 8)"
    by (simp add: count_bits7_def take_bit_eq_mask mask_eq_exp_minus_1)
  then show ?thesis by (simp add: take_bit_int_less_exp [of 7, simplified])
qed

lemma sint_count: "sint (b :: 8 word) = count_bits7 x \<longleftrightarrow> b = word_of_int (count_bits7 x)"
proof
  assume "b = word_of_int (count_bits7 x)"
  then show "sint b = count_bits7 x"
    using count_bits7_range [of x] by (simp add: sint_sbintrunc' signed_take_bit_int_eq_self)
qed (drule sym, simp)

lemma count_loop_Ok:
  assumes "0 \<le> x" "x + int n < 2 ^ 31"
  shows "count_loop x n = Ok (map (\<lambda>i. word_of_int (count_bits7 (x + int i))) [0..<n])"
  using assms
proof (induction n arbitrary: x)
  case (Suc n)
  then show ?case
    by (simp add: in_width_def upt_conv_Cons map_Suc_upt [symmetric] comp_def ac_simps del: upt_Suc)
qed simp

lemma count_chk_loop_diff:
  assumes "0 \<le> x" "x + int (length bs) < 2 ^ 31"
  shows "\<exists>e b. count_chk_loop x (length bs) bs
    = Ok (map_option (\<lambda>i. (i, e, b)) (first_diff (\<lambda>i. word_of_int (count_bits7 i)) x bs))"
  using assms by (induction bs arbitrary: x) (auto simp: in_width_def sint_count)

lemma const_chk_loop_diff:
  assumes "0 \<le> x" "x + int (length bs) < 2 ^ 31"
  shows "\<exists>e b. const_chk_loop x c (length bs) bs = Ok (map_option (\<lambda>i. (i, e, b)) (first_diff (\<lambda>_. c) x bs))"
  using assms by (induction bs arbitrary: x) (auto simp: in_width_def word_uint_eq_iff)

lemma bin_chk_diff:
  assumes "bin_fits mode off (length bs)"
  shows "bin_chk mode off bs
    = Ok (case first_diff (bin_byte mode) off bs of None \<Rightarrow> -1 | Some i \<Rightarrow> i)"
proof (cases "mode = CHR ''C''")
  case True
  then obtain e b where "count_chk_loop off (length bs) bs
    = Ok (map_option (\<lambda>i. (i, e, b)) (first_diff (bin_byte mode) off bs))"
    using assms count_chk_loop_diff [of off bs] by (auto simp: bin_byte_def [abs_def] bin_fits_def)
  with True show ?thesis by (auto simp: bin_chk_def databinchk_def split: option.splits)
next
  case False
  then obtain e b where "const_chk_loop off (bin_const mode) (length bs) bs
    = Ok (map_option (\<lambda>i. (i, e, b)) (first_diff (bin_byte mode) off bs))"
    using assms const_chk_loop_diff [of off bs "bin_const mode"] by (auto simp: bin_byte_def [abs_def] bin_fits_def)
  with False assms show ?thesis by (auto simp: bin_chk_def databinchk_def bin_fits_def split: option.splits)
qed

interpretation bin: data_pair "bin_byte mode" "bin_gen rnd mode" "bin_chk mode" "bin_fits mode" for rnd mode
proof unfold_locales
  show "bin_gen rnd mode off n = Ok (map (\<lambda>i. bin_byte mode (off + int i)) [0..<n])" if "bin_fits mode off n" for off n
    using that by (auto simp: bin_gen_def databingen_def bin_fits_def bin_byte_def count_loop_Ok map_replicate_const)
qed (auto simp: bin_fits_def bin_chk_diff first_diff_None first_diff_Some)

section \<open>Properties\<close>

text \<open>
  C22: for a pattern of at least one byte, \<^verbatim>\<open>pattern_fill\<close> returns and leaves at every position
  \<open>i\<close> of the buffer the byte \<open>(i + patshift) mod patlen\<close> of the pattern, although it copies the filled part
  onto itself, and touches nothing behind the length it was given; \<^verbatim>\<open>pattern_check\<close> returns 0 exactly
  for such a buffer and \<open>-1\<close> for every other.
\<close>

theorem pattern_fill_check:
  assumes "pat \<noteq> []" "L \<le> length buf" "0 \<le> patshift"
  shows "pattern_fill buf (int L) pat (int (length pat)) patshift
      = Some (Ok (map (\<lambda>i. pat ! ((i + nat patshift) mod length pat)) [0..<L] @ drop L buf))
    \<and> pattern_check buf (int L) pat (int (length pat)) patshift
      = Some (Ok (if take L buf = map (\<lambda>i. pat ! ((i + nat patshift) mod length pat)) [0..<L] then 0 else -1))"
  using pattern_fill_shifted [OF assms(1,2) refl assms(3)] pattern_check_shifted [OF assms(1,2) refl assms(3)]
  by (simp add: cyclic_mod cyclic_def [symmetric])

theorem pattern_fill_check_witness:
  "pattern_fill [7, 7, 7, 7, 7, 7] 5 [1, 2, 3] 3 4 = Some (Ok [2, 3, 1, 2, 3, 7])
    \<and> pattern_check [2, 3, 1, 2, 9] 5 [1, 2, 3] 3 4 = Some (Ok (-1))"
proof -
  have "[0..<5] = [0, 1, 2, 3, 4::nat]" by (simp add: upt_conv_Cons)
  then show ?thesis
    using pattern_fill_check [of "[1, 2, 3]" 5 "[7, 7, 7, 7, 7, 7]" 4]
      pattern_fill_check [of "[1, 2, 3]" 5 "[2, 3, 1, 2, 9]" 4]
    by simp
qed

text \<open>
  With a pattern of no bytes, which \<^verbatim>\<open>patshift % patlen\<close> is guarded against, neither
  \<^verbatim>\<open>pattern_fill\<close> nor \<^verbatim>\<open>pattern_check\<close> returns on a buffer that has any byte: their loops advance
  by zero bytes for ever.
\<close>

lemma pattern_empty_diverges:
  assumes "0 < buflen"
  shows "pattern_fill buf buflen [] 0 0 = None \<and> pattern_check buf buflen [] 0 0 = None"
proof -
  have "fill_loop buf buflen 0 buflen = None" "check_loop buf buflen 0 buflen = None"
    using assms fill_loop_stuck [of buf buflen 0 buflen] check_loop_stuck [of buf buflen 0 buflen] by fastforce+
  then show ?thesis
    using assms by (simp add: pattern_fill_def pattern_check_def pattern_shift_def memcpy_def memcmp_def
      mem_read_def mem_write_def)
qed

text \<open>
  The printable data of a file is a function of the position: as long as positions stay below
  \<open>2 ^ 31\<close>, \<^verbatim>\<open>dataasciigen\<close> writes for a block what it writes for the block's two parts,
  \<^verbatim>\<open>dataasciichk\<close> accepts a block exactly if it is what \<^verbatim>\<open>dataasciigen\<close> writes there, and with one
  byte changed it reports that byte's position in the file.
\<close>

lemma dataascii_contract:
  assumes "char_list lst \<noteq> []" "0 \<le> off" "off + int (n + k) < 2 ^ 31"
  shows "\<exists>xs ys. ascii_gen lst off n = Ok xs \<and> ascii_gen lst (off + int n) k = Ok ys
    \<and> ascii_gen lst off (n + k) = Ok (xs @ ys)
    \<and> (\<forall>bs. length bs = n \<longrightarrow> (ascii_chk lst off bs = Ok (-1) \<longleftrightarrow> bs = xs))
    \<and> (\<forall>i b. i < n \<and> b \<noteq> xs ! i \<longrightarrow> ascii_chk lst off (xs[i := b]) = Ok (off + int i))"
proof -
  have f: "ascii_fits lst off (n + k)" using assms by (simp add: ascii_fits_def)
  note fs = ascii.fits_split [OF f]
  obtain xs ys where g: "ascii_gen lst off n = Ok xs" "ascii_gen lst (off + int n) k = Ok ys"
    using fs ascii.gen_Ok by blast
  with ascii.gen_segments [OF f] ascii.chk_iff [of lst off] ascii.chk_corrupted [of lst off n xs] fs
  show ?thesis by (metis outcome.inject(1))
qed

text \<open>
  The same of \<^verbatim>\<open>databingen\<close> and \<^verbatim>\<open>databinchk\<close> in every mode but the random one, an unknown
  mode being the alternating pattern.
\<close>

lemma databin_contract:
  assumes "mode \<noteq> CHR ''r''" "0 \<le> off" "off + int (n + k) < 2 ^ 31"
  shows "\<exists>xs ys. bin_gen rnd mode off n = Ok xs \<and> bin_gen rnd mode (off + int n) k = Ok ys
    \<and> bin_gen rnd mode off (n + k) = Ok (xs @ ys)
    \<and> (\<forall>bs. length bs = n \<longrightarrow> (bin_chk mode off bs = Ok (-1) \<longleftrightarrow> bs = xs))
    \<and> (\<forall>i b. i < n \<and> b \<noteq> xs ! i \<longrightarrow> bin_chk mode off (xs[i := b]) = Ok (off + int i))"
proof -
  have f: "bin_fits mode off (n + k)" using assms by (simp add: bin_fits_def)
  note fs = bin.fits_split [OF f]
  obtain xs ys where g: "bin_gen rnd mode off n = Ok xs" "bin_gen rnd mode (off + int n) k = Ok ys"
    using fs bin.gen_Ok by blast
  with bin.gen_segments [OF f] bin.chk_iff [of mode off _ rnd] bin.chk_corrupted [of mode off n rnd xs] fs
  show ?thesis by (metis outcome.inject(1))
qed

end
