(* ===== verification/Write_Log.thy ===== *)
theory Write_Log
  imports Data_Gen
begin

unbundle bit_operations_syntax

text \<open>
  The history of writes kept by the file system exercisers: \<^verbatim>\<open>lib/write_log.c\<close> with the on-disk
  record of \<^verbatim>\<open>include/old/write_log.h\<close>. The log file is the list of its bytes, the answers of the
  system calls are arguments, and the bytes of uninitialised buffers are arguments too. Characters
  are signed and bit fields are allocated from the low-order bit of 32-bit units, a field that does not
  fit into its unit starting the next one, as on Linux for x86.
\<close>

section \<open>Definitions\<close>

subsection \<open>Records\<close>

definition WLOG_MAX_PATH :: nat where "WLOG_MAX_PATH = 128"
definition WLOG_MAX_PATTERN :: nat where "WLOG_MAX_PATTERN = 64"
definition WLOG_MAX_HOST :: nat where "WLOG_MAX_HOST = 8"

text \<open>\<^verbatim>\<open>sizeof(struct wlog_rec)\<close> is 248 with the padding behind the three character arrays.\<close>

definition WLOG_REC_MAX_SIZE :: nat where
  "WLOG_REC_MAX_SIZE = 248 + WLOG_MAX_PATH + WLOG_MAX_PATTERN + WLOG_MAX_HOST + 2"

record wlog_rec =
  w_pid :: int
  w_offset :: int
  w_nbytes :: int
  w_oflags :: int
  w_done :: int
  w_async :: int
  w_host :: bytes
  w_hostlen :: int
  w_path :: bytes
  w_pathlen :: int
  w_pattern :: bytes
  w_patternlen :: int

text \<open>The fields of \<^verbatim>\<open>struct wlog_rec_disk\<close>: first bit and width.\<close>

type_synonym field = "nat \<times> nat"

definition d_offset :: field where "d_offset = (0, 32)"
definition d_nbytes :: field where "d_nbytes = (64, 32)"
definition d_oflags :: field where "d_oflags = (96, 32)"
definition d_pid :: field where "d_pid = (128, 17)"
definition d_pathlen :: field where "d_pathlen = (145, 7)"
definition d_patternlen :: field where "d_patternlen = (152, 6)"
definition d_hostlen :: field where "d_hostlen = (160, 4)"
definition d_done :: field where "d_done = (164, 1)"
definition d_async :: field where "d_async = (165, 1)"

definition disk_size :: nat where "disk_size = 28"

definition bits_of :: "bytes \<Rightarrow> bool list" where
  "bits_of bs = concat (map (\<lambda>b. map (bit b) [0..<8]) bs)"

fun bytes_of :: "bool list \<Rightarrow> bytes" where
  "bytes_of bs = (if length bs < 8 then [] else horner_sum of_bool 2 (take 8 bs) # bytes_of (drop 8 bs))"

declare bytes_of.simps [simp del]

text \<open>Assigning to a field keeps the other bits of the unit; reading one gives an unsigned value.\<close>

definition bf_put :: "field \<Rightarrow> int \<Rightarrow> bytes \<Rightarrow> bytes" where
  "bf_put f v buf =
     bytes_of (take (fst f) (bits_of buf) @ map (bit v) [0..<snd f] @ drop (fst f + snd f) (bits_of buf))"

definition bf_get :: "field \<Rightarrow> bytes \<Rightarrow> int" where
  "bf_get f buf = horner_sum of_bool 2 (take (snd f) (drop (fst f) (bits_of buf)))"

definition pack_header :: "wlog_rec \<Rightarrow> bytes \<Rightarrow> bytes" where
  "pack_header r buf =
     (bf_put d_patternlen (if w_patternlen r > 0 then w_patternlen r else 0)
       (bf_put d_hostlen (if w_hostlen r > 0 then w_hostlen r else 0)
         (bf_put d_pathlen (if w_pathlen r > 0 then w_pathlen r else 0)
           (bf_put d_async (w_async r)
             (bf_put d_done (w_done r)
               (bf_put d_oflags (w_oflags r)
                 (bf_put d_nbytes (w_nbytes r)
                   (bf_put d_offset (w_offset r)
                     (bf_put d_pid (w_pid r) buf)))))))))"

definition copy_some :: "bytes \<Rightarrow> int \<Rightarrow> bytes \<Rightarrow> int \<Rightarrow> int \<Rightarrow> bytes outcome" where
  "copy_some dst doff src soff n = (if n > 0 then memcpy dst doff src soff n else Ok dst)"

definition wlog_rec_pack :: "wlog_rec \<Rightarrow> bytes \<Rightarrow> bool \<Rightarrow> (int \<times> bytes) outcome" where
  "wlog_rec_pack r buf flag =
     (if length buf < disk_size then Fault
      else let wrecd = pack_header r buf; file = int disk_size; host = file + bf_get d_pathlen wrecd;
               pattern = host + bf_get d_hostlen wrecd
           in if flag then
                bind_outcome (copy_some wrecd file (w_path r) 0 (bf_get d_pathlen wrecd)) (\<lambda>b1.
                bind_outcome (copy_some b1 host (w_host r) 0 (bf_get d_hostlen wrecd)) (\<lambda>b2.
                bind_outcome (copy_some b2 pattern (w_pattern r) 0 (bf_get d_patternlen wrecd)) (\<lambda>b3.
                  Ok (pattern + bf_get d_patternlen wrecd, b3))))
              else Ok (int disk_size, wrecd))"

definition wlog_rec_unpack :: "bytes \<Rightarrow> wlog_rec outcome" where
  "wlog_rec_unpack buf =
     (if length buf < disk_size then Fault
      else let pl = bf_get d_pathlen buf; hl = bf_get d_hostlen buf; ql = bf_get d_patternlen buf;
               file = int disk_size
           in bind_outcome (copy_some (replicate (WLOG_MAX_PATH + 1) 0) 0 buf file pl) (\<lambda>path.
              bind_outcome (copy_some (replicate (WLOG_MAX_HOST + 1) 0) 0 buf (file + pl) hl) (\<lambda>host.
              bind_outcome (copy_some (replicate (WLOG_MAX_PATTERN + 1) 0) 0 buf (file + pl + hl) ql) (\<lambda>pattern.
                Ok \<lparr> w_pid = bf_get d_pid buf, w_offset = to_int32 (bf_get d_offset buf),
                     w_nbytes = to_int32 (bf_get d_nbytes buf), w_oflags = to_int32 (bf_get d_oflags buf),
                     w_done = bf_get d_done buf, w_async = bf_get d_async buf,
                     w_host = host, w_hostlen = hl, w_path = path, w_pathlen = pl,
                     w_pattern = pattern, w_patternlen = ql \<rparr>))))"

subsection \<open>The log file\<close>

text \<open>\<open>w_data\<close> is the contents of the file named \<open>w_file\<close>, \<open>w_fds\<close> the descriptors in use.\<close>

record wlog_file =
  w_afd :: int
  w_rfd :: int
  w_file :: cstr
  w_data :: bytes
  w_fds :: "int list"

text \<open>\<^verbatim>\<open>sprintf\<close> into \<^verbatim>\<open>Wlog_Error_String\<close> with room for 256 characters.\<close>

definition wlog_error :: "cstr \<Rightarrow> cstr outcome" where
  "wlog_error s = (if length s < 256 then Ok s else Fault)"

definition fail_with :: "cstr \<Rightarrow> wlog_file \<Rightarrow> (int \<times> wlog_file \<times> cstr option) outcome" where
  "fail_with s wfile = bind_outcome (wlog_error s) (\<lambda>e. Ok (-1, wfile, Some e))"

definition wlog_open ::
    "int \<Rightarrow> int \<Rightarrow> cstr \<Rightarrow> int \<Rightarrow> int \<Rightarrow> wlog_file \<Rightarrow> (int \<times> wlog_file \<times> cstr option) outcome" where
  "wlog_open fd1 fd2 err trunc mode wfile =
     (let oflags = 1 OR 1024 OR 64 OR (if trunc \<noteq> 0 then 512 else 0)
      in if fd1 = -1 then
           fail_with (''Could not open write_log - open('' @ w_file wfile @ '', '' @ fmt_oct oflags @ '', ''
             @ fmt_oct mode @ '') failed:  '' @ err @ [newline]) (wfile \<lparr>w_afd := -1\<rparr>)
         else let wfile1 = wfile \<lparr>w_afd := fd1, w_fds := fd1 # w_fds wfile, w_data := (if trunc \<noteq> 0 then [] else w_data wfile)\<rparr>
         in if fd2 = -1 then
              fail_with (''Could not open write log - open('' @ w_file wfile @ '', '' @ fmt_oct 2
                @ '') failed:  '' @ err @ [newline])
                (wfile1 \<lparr>w_rfd := -1, w_fds := remove1 fd1 (w_fds wfile1), w_afd := -1\<rparr>)
            else Ok (0, wfile1 \<lparr>w_rfd := fd2, w_fds := fd2 # w_fds wfile1\<rparr>, None))"

definition wlog_close :: "wlog_file \<Rightarrow> int \<times> wlog_file" where
  "wlog_close wfile = (0, wfile \<lparr>w_fds := remove1 (w_rfd wfile) (remove1 (w_afd wfile) (w_fds wfile))\<rparr>)"

text \<open>The answers of \<^verbatim>\<open>write\<close> for a count (bytes written or -1) and \<^verbatim>\<open>lseek\<close>, and \<^verbatim>\<open>strerror\<close>.\<close>

record write_env =
  e_write :: "int \<Rightarrow> int"
  e_seek :: bool
  e_err :: cstr

text \<open>A buffer printed by \<^verbatim>\<open>%s\<close>.\<close>

definition as_string :: "bytes \<Rightarrow> cstr outcome" where
  "as_string bs = (if 0 \<in> set bs then Ok (map (\<lambda>b. char_of (unat b)) (takeWhile (\<lambda>b. b \<noteq> 0) bs)) else Fault)"

definition write_failed :: "write_env \<Rightarrow> wlog_file \<Rightarrow> bytes \<Rightarrow> int \<Rightarrow> (int \<times> wlog_file \<times> cstr option) outcome" where
  "write_failed env wfile wbuf reclen =
     bind_outcome (as_string wbuf) (\<lambda>t.
       fail_with (''Could not write log - write('' @ w_file wfile @ '', '' @ t @ '', '' @ dec_int reclen
         @ '') failed:  '' @ e_err env @ [newline]) wfile)"

definition overlay :: "bytes \<Rightarrow> nat \<Rightarrow> bytes \<Rightarrow> bytes" where
  "overlay data off xs =
     take off data @ replicate (off - length data) 0 @ xs @ drop (off + length xs) data"

definition wlog_record_write ::
    "write_env \<Rightarrow> bytes \<Rightarrow> wlog_file \<Rightarrow> wlog_rec \<Rightarrow> int \<Rightarrow> (int \<times> wlog_file \<times> cstr option) outcome" where
  "wlog_record_write env wbuf0 wfile r off =
     bind_outcome (wlog_rec_pack r wbuf0 (off < 0)) (\<lambda>(reclen, wbuf1).
       if off < 0 then
         bind_outcome (mem_write wbuf1 reclen [word_of_int (cdiv reclen 256), word_of_int (crem reclen 256)]) (\<lambda>wbuf.
           if e_write env (reclen + 2) = -1 then write_failed env wfile wbuf (reclen + 2)
           else let data = w_data wfile @ take (nat (e_write env (reclen + 2))) wbuf;
                    off' = (if e_seek env then int (length data) else -1) - (reclen + 2)
                in if off' = -1 then
                     fail_with (''Could not reposition file pointer - lseek('' @ w_file wfile
                       @ '', 0, SEEK_CUR) failed:  '' @ e_err env @ [newline]) (wfile \<lparr>w_data := data\<rparr>)
                   else Ok (to_int32 off', wfile \<lparr>w_data := data\<rparr>, None))
       else if \<not> e_seek env then
         fail_with (''Could not reposition file pointer - lseek('' @ w_file wfile @ '', '' @ dec_int off
           @ '', SEEK_SET) failed:  '' @ e_err env @ [newline]) wfile
       else if e_write env reclen = -1 then write_failed env wfile wbuf1 reclen
       else Ok (to_int32 off, wfile \<lparr>w_data := overlay (w_data wfile) (nat off) (take (nat (e_write env reclen)) wbuf1)\<rparr>, None))"

subsection \<open>Scanning backwards\<close>

definition WLOG_STOP_SCAN :: int where "WLOG_STOP_SCAN = 0"

text \<open>\<^verbatim>\<open>sizeof(buf)\<close>: 32 blocks of \<^verbatim>\<open>DEV_BSIZE\<close> bytes.\<close>

definition scan_size :: nat where "scan_size = 512 * 32"

text \<open>
  The answers of \<^verbatim>\<open>lseek\<close> to the end, of asking for the position, of \<^verbatim>\<open>lseek\<close> to an offset and of
  \<^verbatim>\<open>read\<close> there, \<^verbatim>\<open>strerror\<close>, and the address of a cell of the buffer as \<^verbatim>\<open>%p\<close> prints it.
\<close>

record scan_env =
  s_end :: bool
  s_cur :: bool
  s_seek :: "int \<Rightarrow> bool"
  s_read :: "int \<Rightarrow> bool"
  s_err :: cstr
  s_addr :: "int \<Rightarrow> cstr"

text \<open>The length in front of \<^verbatim>\<open>cp\<close>: two characters, which are signed.\<close>

definition reclen_at :: "bytes \<Rightarrow> int \<Rightarrow> int outcome" where
  "reclen_at buf cp =
     (if 2 \<le> cp \<and> cp \<le> int (length buf)
      then Ok (sint (buf ! nat (cp - 2)) * 256 + sint (buf ! nat (cp - 1))) else Fault)"

text \<open>The remainder is moved to the end of the buffer by \<^verbatim>\<open>memcpy\<close>, which must not overlap.\<close>

definition stash :: "bytes \<Rightarrow> int \<Rightarrow> int \<Rightarrow> bytes outcome" where
  "stash buf bufstart leftover =
     (if leftover > 0 \<and> bufstart + leftover > int (length buf) - leftover then Fault
      else memcpy buf (int (length buf) - leftover) buf bufstart leftover)"

function scan_records ::
    "(wlog_rec \<Rightarrow> 's \<Rightarrow> int \<times> 's) \<Rightarrow> int \<Rightarrow> bytes \<Rightarrow> int \<Rightarrow> int \<Rightarrow> bytes \<Rightarrow> int \<Rightarrow> 's
      \<Rightarrow> (bytes \<times> bytes \<times> int \<times> int \<times> 's) outcome" where
  "scan_records func nrecs buf bufstart cp albuf recnum s =
     (if cp < bufstart then Ok (buf, albuf, 0, recnum, s)
      else if cp - bufstart < 2 then
        bind_outcome (stash buf bufstart (cp - bufstart)) (\<lambda>buf'. Ok (buf', albuf, cp - bufstart, recnum, s))
      else case reclen_at buf cp of
        Ok reclen \<Rightarrow>
          if cp - bufstart < reclen + 2 then
            bind_outcome (stash buf bufstart (cp - bufstart)) (\<lambda>buf'. Ok (buf', albuf, cp - bufstart, recnum, s))
          else (case memcpy albuf 0 buf (cp - (reclen + 2)) reclen of
            Ok albuf' \<Rightarrow>
              (case wlog_rec_unpack albuf' of
                 Ok wrec \<Rightarrow>
                   (let rval = fst (func wrec s); s' = snd (func wrec s)
                    in if rval = WLOG_STOP_SCAN then Ok (buf, albuf', 0, recnum, s')
                       else if nrecs \<noteq> 0 \<and> recnum + 1 \<ge> nrecs then Ok (buf, albuf', 0, recnum + 1, s')
                       else scan_records func nrecs buf bufstart (cp - (reclen + 2)) albuf' (recnum + 1) s')
               | Exit n \<Rightarrow> Exit n | Fault \<Rightarrow> Fault)
          | Exit n \<Rightarrow> Exit n | Fault \<Rightarrow> Fault)
      | Exit n \<Rightarrow> Exit n | Fault \<Rightarrow> Fault)"
  by pat_completeness auto

lemma memcpy_nonneg: "memcpy buf dst src off n = Ok x \<Longrightarrow> 0 \<le> n"
  by (auto simp: memcpy_def mem_read_def split: if_splits)

lemma reclen_at_pos: "reclen_at buf cp = Ok n \<Longrightarrow> 2 \<le> cp"
  by (simp add: reclen_at_def split: if_splits)

termination scan_records
  by (relation "measure (\<lambda>(func, nrecs, buf, bufstart, cp, albuf, recnum, s). nat cp)")
    (auto dest: memcpy_nonneg reclen_at_pos)

declare scan_records.simps [simp del]

definition seek_failed :: "scan_env \<Rightarrow> cstr \<Rightarrow> cstr \<Rightarrow> 's \<Rightarrow> (int \<times> 's \<times> cstr option) outcome" where
  "seek_failed env name arg s =
     bind_outcome (wlog_error (''Could not reposition file pointer - lseek('' @ name @ '', '' @ arg
       @ '') failed:  '' @ s_err env @ [newline])) (\<lambda>e. Ok (-1, s, Some e))"

partial_function (option) scan_loop ::
    "scan_env \<Rightarrow> wlog_file \<Rightarrow> (wlog_rec \<Rightarrow> 's \<Rightarrow> int \<times> 's) \<Rightarrow> int \<Rightarrow> bytes \<Rightarrow> int \<Rightarrow> int \<Rightarrow> int \<Rightarrow> bytes \<Rightarrow> int \<Rightarrow> 's
      \<Rightarrow> (int \<times> 's \<times> cstr option) outcome option" where
  "scan_loop env wfile func nrecs buf bufstart off leftover albuf recnum s =
     (if (nrecs = 0 \<or> recnum < nrecs) \<and> off > 0 then
        (let bufstart' = (if off + leftover < int scan_size then int scan_size - (off + leftover) else bufstart);
             off' = (if off + leftover < int scan_size then 0 else off - (int scan_size - leftover));
             count = int scan_size - bufstart' - leftover
         in if \<not> s_seek env off' then Some (seek_failed env (w_file wfile) (dec_int off' @ '', SEEK_SET'') s)
            else if \<not> s_read env off' then
              Some (bind_outcome (wlog_error (''Could not read history file at offset '' @ dec_int off' @ '' - read(''
                @ dec_int (w_rfd wfile) @ '', '' @ s_addr env bufstart' @ '', '' @ dec_int count @ '') failed:  ''
                @ s_err env @ [newline])) (\<lambda>e. Ok (-1, s, Some e)))
            else (case mem_write buf bufstart' (take (nat count) (drop (nat off') (w_data wfile))) of
              Ok buf1 \<Rightarrow>
                (case scan_records func nrecs buf1 bufstart' (int scan_size) albuf recnum s of
                   Ok r \<Rightarrow> scan_loop env wfile func nrecs (fst r) bufstart' off' (fst (snd (snd r)))
                     (fst (snd r)) (fst (snd (snd (snd r)))) (snd (snd (snd (snd r))))
                 | Exit n \<Rightarrow> Some (Exit n) | Fault \<Rightarrow> Some Fault)
            | Exit n \<Rightarrow> Some (Exit n) | Fault \<Rightarrow> Some Fault))
      else Some (Ok (0, s, None)))"

text \<open>\<open>buf0\<close> and \<open>albuf0\<close> are what the two uninitialised buffers hold.\<close>

definition wlog_scan_backward ::
    "scan_env \<Rightarrow> bytes \<Rightarrow> bytes \<Rightarrow> wlog_file \<Rightarrow> int \<Rightarrow> (wlog_rec \<Rightarrow> 's \<Rightarrow> int \<times> 's) \<Rightarrow> 's
      \<Rightarrow> (int \<times> 's \<times> cstr option) outcome option" where
  "wlog_scan_backward env buf0 albuf0 wfile nrecs func s =
     (if \<not> s_end env then Some (seek_failed env (w_file wfile) ''0, SEEK_END'' s)
      else if \<not> s_cur env then Some (seek_failed env (w_file wfile) ''0, SEEK_CUR'' s)
      else scan_loop env wfile func nrecs buf0 0 (to_int32 (int (length (w_data wfile)))) 0 albuf0 0 s)"

section \<open>Lemmas\<close>

subsection \<open>Bit fields\<close>

lemma bits_of_Nil [simp]: "bits_of [] = []"
  by (simp add: bits_of_def)

lemma bits_of_Cons: "bits_of (b # bs) = map (bit b) [0..<8] @ bits_of bs"
  by (simp add: bits_of_def)

lemma length_bits_of [simp]: "length (bits_of bs) = 8 * length bs"
  by (induction bs) (simp_all add: bits_of_Cons)

lemma take_bits_of: "take (8 * n) (bits_of bs) = bits_of (take n bs)"
proof (induction bs arbitrary: n)
  case (Cons b bs)
  then show ?case by (cases n) (simp_all add: bits_of_Cons)
qed simp

lemma map_bit_byte:
  assumes "length bs = 8"
  shows "map (bit (horner_sum of_bool 2 bs :: 8 word)) [0..<8] = bs"
  using assms by (intro nth_equalityI) (simp_all add: bit_horner_sum_bit_word_iff)

lemma bits_of_bytes_of: "length bs = 8 * n \<Longrightarrow> bits_of (bytes_of bs) = bs"
proof (induction n arbitrary: bs)
  case (Suc n)
  then have "bits_of (bytes_of (drop 8 bs)) = drop 8 bs" by simp
  with Suc.prems show ?case by (subst bytes_of.simps) (simp add: bits_of_Cons map_bit_byte)
qed (subst bytes_of.simps, simp)

lemma length_bytes_of: "length bs = 8 * n \<Longrightarrow> length (bytes_of bs) = n"
  using bits_of_bytes_of [of bs n] length_bits_of [of "bytes_of bs"] by simp

definition within :: "field \<Rightarrow> nat \<Rightarrow> bool" where
  "within f n \<longleftrightarrow> fst f + snd f \<le> 8 * n"

definition apart :: "field \<Rightarrow> field \<Rightarrow> bool" where
  "apart f g \<longleftrightarrow> fst f + snd f \<le> fst g \<or> fst g + snd g \<le> fst f"

lemma bits_of_bf_put:
  assumes "within f (length buf)"
  shows "bits_of (bf_put f v buf)
    = take (fst f) (bits_of buf) @ map (bit v) [0..<snd f] @ drop (fst f + snd f) (bits_of buf)"
  unfolding bf_put_def using assms by (intro bits_of_bytes_of [of _ "length buf"]) (simp add: within_def)

lemma length_bf_put:
  assumes "within f (length buf)"
  shows "length (bf_put f v buf) = length buf"
  unfolding bf_put_def using assms by (intro length_bytes_of) (simp add: within_def)

lemma bf_get_put_same:
  assumes "within f (length buf)"
  shows "bf_get f (bf_put f v buf) = take_bit (snd f) v"
  using assms by (simp add: bf_get_def bits_of_bf_put within_def horner_sum_bit_eq_take_bit)

lemma bf_get_put_apart:
  assumes "within f (length buf)" "within g (length buf)" "apart f g"
  shows "bf_get g (bf_put f v buf) = bf_get g buf"
proof -
  have "take (snd g) (drop (fst g) (bits_of (bf_put f v buf))) = take (snd g) (drop (fst g) (bits_of buf))"
  proof (cases "fst f + snd f \<le> fst g")
    case True
    with assms show ?thesis by (simp add: bits_of_bf_put within_def)
  next
    case False
    with assms(3) have "fst g + snd g \<le> fst f" by (simp add: apart_def)
    with assms show ?thesis by (simp add: bits_of_bf_put within_def drop_take)
  qed
  then show ?thesis by (simp add: bf_get_def)
qed

lemma bf_get_take:
  assumes "within f n" "take n xs = take n ys"
  shows "bf_get f xs = bf_get f ys"
proof -
  have "take (snd f) (drop (fst f) l) = take (snd f) (drop (fst f) (take (8 * n) l))" for l :: "bool list"
    using assms(1) by (simp add: drop_take within_def)
  then show ?thesis by (metis assms(2) bf_get_def take_bits_of)
qed

lemmas field_defs = d_offset_def d_nbytes_def d_oflags_def d_pid_def d_pathlen_def d_patternlen_def
  d_hostlen_def d_done_def d_async_def

lemma fields_within [simp]:
  assumes "disk_size \<le> n"
  shows "within d_offset n" "within d_nbytes n" "within d_oflags n" "within d_pid n" "within d_pathlen n"
    "within d_patternlen n" "within d_hostlen n" "within d_done n" "within d_async n"
  using assms by (simp_all add: within_def field_defs disk_size_def)

lemma length_pack_header [simp]:
  "disk_size \<le> length buf \<Longrightarrow> length (pack_header r buf) = length buf"
  by (simp add: pack_header_def length_bf_put)

lemma positive_part: "(if 0 < x then x else 0) = max 0 (x :: int)"
  by simp

lemmas put_get = bf_get_put_same bf_get_put_apart length_bf_put apart_def

lemma pack_header_get:
  assumes "disk_size \<le> length buf"
  shows "bf_get d_pid (pack_header r buf) = take_bit 17 (w_pid r)"
    and "bf_get d_offset (pack_header r buf) = take_bit 32 (w_offset r)"
    and "bf_get d_nbytes (pack_header r buf) = take_bit 32 (w_nbytes r)"
    and "bf_get d_oflags (pack_header r buf) = take_bit 32 (w_oflags r)"
    and "bf_get d_done (pack_header r buf) = take_bit 1 (w_done r)"
    and "bf_get d_async (pack_header r buf) = take_bit 1 (w_async r)"
    and "bf_get d_pathlen (pack_header r buf) = take_bit 7 (max 0 (w_pathlen r))"
    and "bf_get d_hostlen (pack_header r buf) = take_bit 4 (max 0 (w_hostlen r))"
    and "bf_get d_patternlen (pack_header r buf) = take_bit 6 (max 0 (w_patternlen r))"
  using assms by (simp_all add: pack_header_def positive_part put_get within_def field_defs disk_size_def)

subsection \<open>Packing and unpacking\<close>

text \<open>
  A record as the exercisers fill it: the character arrays have their declared sizes, the
  values fit into the fields of the disk structure and the lengths into the arrays.
\<close>

definition wrec_ok :: "wlog_rec \<Rightarrow> bool" where
  "wrec_ok r \<longleftrightarrow>
     0 \<le> w_pid r \<and> w_pid r < 2 ^ 17 \<and> in_width 32 (w_offset r) \<and> in_width 32 (w_nbytes r) \<and> in_width 32 (w_oflags r)
     \<and> w_done r \<in> {0, 1} \<and> w_async r \<in> {0, 1}
     \<and> length (w_path r) = WLOG_MAX_PATH + 1 \<and> 0 \<le> w_pathlen r \<and> w_pathlen r < 2 ^ 7
     \<and> length (w_host r) = WLOG_MAX_HOST + 1 \<and> 0 \<le> w_hostlen r \<and> w_hostlen r \<le> int WLOG_MAX_HOST
     \<and> length (w_pattern r) = WLOG_MAX_PATTERN + 1 \<and> 0 \<le> w_patternlen r \<and> w_patternlen r < 2 ^ 6"

definition pathlen :: "wlog_rec \<Rightarrow> nat" where "pathlen r = nat (w_pathlen r)"
definition hostlen :: "wlog_rec \<Rightarrow> nat" where "hostlen r = nat (w_hostlen r)"
definition patternlen :: "wlog_rec \<Rightarrow> nat" where "patternlen r = nat (w_patternlen r)"

definition rec_len :: "wlog_rec \<Rightarrow> nat" where
  "rec_len r = disk_size + pathlen r + hostlen r + patternlen r"

text \<open>What is kept of a record: the three texts, each followed by zeros.\<close>

definition zero_pad :: "nat \<Rightarrow> nat \<Rightarrow> bytes \<Rightarrow> bytes" where
  "zero_pad sz n xs = take n xs @ replicate (sz - n) 0"

definition kept :: "wlog_rec \<Rightarrow> wlog_rec" where
  "kept r = r \<lparr>w_path := zero_pad (WLOG_MAX_PATH + 1) (pathlen r) (w_path r),
    w_host := zero_pad (WLOG_MAX_HOST + 1) (hostlen r) (w_host r),
    w_pattern := zero_pad (WLOG_MAX_PATTERN + 1) (patternlen r) (w_pattern r)\<rparr>"

definition texts :: "wlog_rec \<Rightarrow> bytes" where
  "texts r = take (pathlen r) (w_path r) @ take (hostlen r) (w_host r) @ take (patternlen r) (w_pattern r)"

definition rec_bytes :: "wlog_rec \<Rightarrow> bytes \<Rightarrow> bytes" where
  "rec_bytes r buf = take disk_size (pack_header r buf) @ texts r"

lemma wrec_ok_lens:
  assumes "wrec_ok r"
  shows "w_pathlen r = int (pathlen r)" "w_hostlen r = int (hostlen r)" "w_patternlen r = int (patternlen r)"
    and "pathlen r \<le> 127" "hostlen r \<le> 8" "patternlen r \<le> 63"
    and "length (w_path r) = 129" "length (w_host r) = 9" "length (w_pattern r) = 65"
  using assms by (auto simp: wrec_ok_def pathlen_def hostlen_def patternlen_def WLOG_MAX_PATH_def
      WLOG_MAX_HOST_def WLOG_MAX_PATTERN_def)

lemma length_texts:
  assumes "wrec_ok r"
  shows "length (texts r) = pathlen r + hostlen r + patternlen r"
  using wrec_ok_lens [OF assms] by (simp add: texts_def)

lemma length_rec_bytes:
  assumes "wrec_ok r" "disk_size \<le> length buf"
  shows "length (rec_bytes r buf) = rec_len r"
  using assms by (simp add: rec_bytes_def rec_len_def length_texts)

lemma rec_len_bounds:
  assumes "wrec_ok r"
  shows "disk_size \<le> rec_len r" "rec_len r \<le> 226"
  using wrec_ok_lens [OF assms] by (simp_all add: rec_len_def disk_size_def)

lemma take_bit_fits: "0 \<le> x \<Longrightarrow> x < 2 ^ n \<Longrightarrow> take_bit n x = (x :: int)"
  by (simp add: take_bit_int_eq_self)

lemma to_int32_take_bit: "in_width 32 x \<Longrightarrow> to_int32 (take_bit 32 x) = x"
  by (simp add: in_width_def to_int32_def take_bit_eq_mod mod_add_left_eq)

lemma header_get:
  assumes "wrec_ok r" "disk_size \<le> length buf"
  shows "bf_get d_pathlen (pack_header r buf) = int (pathlen r)"
    and "bf_get d_hostlen (pack_header r buf) = int (hostlen r)"
    and "bf_get d_patternlen (pack_header r buf) = int (patternlen r)"
    and "bf_get d_pid (pack_header r buf) = w_pid r"
    and "bf_get d_done (pack_header r buf) = w_done r"
    and "bf_get d_async (pack_header r buf) = w_async r"
    and "to_int32 (bf_get d_offset (pack_header r buf)) = w_offset r"
    and "to_int32 (bf_get d_nbytes (pack_header r buf)) = w_nbytes r"
    and "to_int32 (bf_get d_oflags (pack_header r buf)) = w_oflags r"
  using assms wrec_ok_lens [OF assms(1)]
  by (auto simp: pack_header_get take_bit_fits to_int32_take_bit wrec_ok_def)

lemma copy_some_Ok:
  assumes "d + n \<le> length dst" "so + n \<le> length src"
  shows "copy_some dst (int d) src (int so) (int n) = Ok (take d dst @ take n (drop so src) @ drop (d + n) dst)"
  using assms by (simp add: copy_some_def memcpy_Ok)

lemma wlog_rec_pack_full:
  assumes "wrec_ok r" "226 \<le> length buf"
  shows "wlog_rec_pack r buf True = Ok (int (rec_len r), rec_bytes r buf @ drop (rec_len r) (pack_header r buf))"
proof -
  let ?h = "pack_header r buf"
  let ?p = "pathlen r" and ?o = "hostlen r" and ?q = "patternlen r"
  have n: "disk_size \<le> length buf" "\<not> length buf < disk_size" using assms(2) by (simp_all add: disk_size_def)
  note lens = wrec_ok_lens [OF assms(1)] and get = header_get [OF assms(1) n(1)]
  define b1 where "b1 = take disk_size ?h @ take ?p (w_path r) @ drop (disk_size + ?p) ?h"
  define b2 where "b2 = take (disk_size + ?p) b1 @ take ?o (w_host r) @ drop (disk_size + ?p + ?o) b1"
  define b3 where "b3 = take (disk_size + ?p + ?o) b2 @ take ?q (w_pattern r) @ drop (disk_size + ?p + ?o + ?q) b2"
  have room: "disk_size + ?p + ?o + ?q \<le> length buf" using lens assms(2) by (simp add: disk_size_def)
  have l: "length b1 = length buf" "length b2 = length buf"
    using room lens n by (simp_all add: b1_def b2_def)
  have 1: "copy_some ?h (int disk_size) (w_path r) 0 (int ?p) = Ok b1"
    using copy_some_Ok [of disk_size ?p ?h 0 "w_path r"] room lens n by (simp add: b1_def)
  have 2: "copy_some b1 (int (disk_size + ?p)) (w_host r) 0 (int ?o) = Ok b2"
    using copy_some_Ok [of "disk_size + ?p" ?o b1 0 "w_host r"] room lens l by (simp add: b2_def)
  have 3: "copy_some b2 (int (disk_size + ?p + ?o)) (w_pattern r) 0 (int ?q) = Ok b3"
    using copy_some_Ok [of "disk_size + ?p + ?o" ?q b2 0 "w_pattern r"] room lens l by (simp add: b3_def)
  have "b3 = rec_bytes r buf @ drop (rec_len r) ?h"
    using room lens n
    by (simp add: b3_def b2_def b1_def rec_bytes_def rec_len_def texts_def) (simp add: ac_simps)
  then show ?thesis
    using 1 2 3 n(2) by (simp add: wlog_rec_pack_def get Let_def rec_len_def add.assoc)
qed

lemma bf_get_rec_bytes:
  assumes "disk_size \<le> length buf" "within f disk_size"
  shows "bf_get f (rec_bytes r buf @ rest) = bf_get f (pack_header r buf)"
  using assms by (intro bf_get_take [of _ disk_size]) (simp_all add: rec_bytes_def)

lemma wlog_rec_unpack_full:
  assumes "wrec_ok r" "disk_size \<le> length buf"
  shows "wlog_rec_unpack (rec_bytes r buf @ rest) = Ok (kept r)"
proof -
  let ?b = "rec_bytes r buf @ rest"
  let ?p = "pathlen r" and ?o = "hostlen r" and ?q = "patternlen r"
  note lens = wrec_ok_lens [OF assms(1)] and get = header_get [OF assms] bf_get_rec_bytes [OF assms(2)]
  have len: "length ?b = disk_size + ?p + ?o + ?q + length rest"
    using length_rec_bytes [OF assms] by (simp add: rec_len_def)
  have 1: "copy_some (replicate (WLOG_MAX_PATH + 1) 0) 0 ?b (int disk_size) (int ?p)
      = Ok (zero_pad (WLOG_MAX_PATH + 1) ?p (w_path r))"
    using copy_some_Ok [of 0 ?p "replicate (WLOG_MAX_PATH + 1) 0" disk_size ?b] lens len assms(2)
    by (simp add: zero_pad_def WLOG_MAX_PATH_def rec_bytes_def texts_def)
  have 2: "copy_some (replicate (WLOG_MAX_HOST + 1) 0) 0 ?b (int disk_size + int ?p) (int ?o)
      = Ok (zero_pad (WLOG_MAX_HOST + 1) ?o (w_host r))"
    using copy_some_Ok [of 0 ?o "replicate (WLOG_MAX_HOST + 1) 0" "disk_size + ?p" ?b] lens len assms(2)
    by (simp add: zero_pad_def WLOG_MAX_HOST_def rec_bytes_def texts_def)
  have 3: "copy_some (replicate (WLOG_MAX_PATTERN + 1) 0) 0 ?b (int disk_size + int ?p + int ?o) (int ?q)
      = Ok (zero_pad (WLOG_MAX_PATTERN + 1) ?q (w_pattern r))"
    using copy_some_Ok [of 0 ?q "replicate (WLOG_MAX_PATTERN + 1) 0" "disk_size + ?p + ?o" ?b] lens len assms(2)
    by (simp add: zero_pad_def WLOG_MAX_PATTERN_def rec_bytes_def texts_def)
  from len have "\<not> length ?b < disk_size" by simp
  then show ?thesis
    using 1 2 3 lens by (simp add: wlog_rec_unpack_def Let_def get kept_def)
qed

subsection \<open>The scan\<close>

text \<open>What is appended for the packed record \<open>b\<close>, and the file of a list of them.\<close>

definition entry :: "bytes \<Rightarrow> bytes" where
  "entry b = b @ [0, word_of_nat (length b)]"

definition log_of :: "bytes list \<Rightarrow> bytes" where
  "log_of bs = concat (map entry bs)"

text \<open>A packed record whose length is one signed character and that unpacks to \<open>r\<close>.\<close>

definition loggable :: "bytes \<Rightarrow> wlog_rec \<Rightarrow> bool" where
  "loggable b r \<longleftrightarrow> length b < 128 \<and> (\<forall>rest. wlog_rec_unpack (b @ rest) = Ok r)"

lemma log_of_simps [simp]: "log_of [] = []" "log_of (bs @ [b]) = log_of bs @ entry b"
  by (simp_all add: log_of_def)

lemma length_entry [simp]: "length (entry b) = length b + 2"
  by (simp add: entry_def)

lemma sint_short: "n < 128 \<Longrightarrow> sint (word_of_nat n :: 8 word) = int n"
proof -
  assume "n < 128"
  then have "sint (word_of_int (int n) :: 8 word) = int n"
    by (subst sint_sbintrunc') (simp add: signed_take_bit_int_eq_self)
  then show ?thesis by simp
qed

lemma reclen_at_entry:
  assumes "buf = X @ [0, word_of_nat n] @ Z" "n < 128" "p = length X + 2"
  shows "reclen_at buf (int p) = Ok (int n)"
  using assms by (simp add: reclen_at_def nth_append sint_short nat_add_distrib)

lemma stash_Ok:
  assumes "lo = 0 \<or> a + lo \<le> length buf - lo" "a + lo \<le> length buf"
  shows "\<exists>buf'. stash buf (int a) (int lo) = Ok buf' \<and> length buf' = length buf
    \<and> drop (length buf - lo) buf' = take lo (drop a buf)"
  using assms memcpy_Ok [of "length buf - lo" lo buf a buf]
  by (auto simp: stash_def of_nat_diff)

text \<open>The calls of the user's function for the last \<open>k\<close> of the records \<open>rs\<close>.\<close>

definition visit :: "(wlog_rec \<Rightarrow> 's \<Rightarrow> int \<times> 's) \<Rightarrow> nat \<Rightarrow> wlog_rec list \<Rightarrow> 's \<Rightarrow> 's" where
  "visit func k rs s = fold (\<lambda>r s. snd (func r s)) (take k (rev rs)) s"

lemma visit_simps [simp]:
  "visit func 0 rs s = s" "visit func (Suc k) (rs @ [r]) s = visit func k rs (snd (func r s))"
  by (simp_all add: visit_def)

text \<open>The state between two fills: \<open>lo\<close> bytes of the entries \<open>bs\<close>, all but \<open>pre\<close>, are at the end of the buffer.\<close>

definition resumes :: "bytes \<Rightarrow> nat \<Rightarrow> bytes \<Rightarrow> bytes list \<Rightarrow> bytes \<Rightarrow> nat \<Rightarrow> bool" where
  "resumes buf a pre bs buf' lo \<longleftrightarrow>
     lo < 130 \<and> drop (length buf - lo) buf' = take lo (drop a buf)
     \<and> log_of bs = pre @ take lo (drop a buf) \<and> (pre = [] \<longrightarrow> lo = 0)"

lemma common_suffix:
  assumes "X @ Y = P @ W" "length Y \<le> length W"
  obtains V where "W = V @ Y" "X = P @ V"
proof -
  from assms(1) obtain us where "X = P @ us \<and> us @ Y = W \<or> X @ us = P \<and> Y = us @ W"
    by (auto simp: append_eq_append_conv2)
  with assms(2) that show thesis by force
qed

lemma scan_records_stash:
  assumes "buf = A @ W @ Z" "log_of (bs @ [b]) = pre @ W" "length W < length (entry b)" "length b < 128"
    and "260 \<le> length buf - length A \<or> pre = []"
  shows "\<exists>buf'. scan_records func nrecs buf (int (length A)) (int (length A + length W)) albuf recnum s
      = Ok (buf', albuf, int (length W), recnum, s)
    \<and> length buf' = length buf \<and> resumes buf (length A) pre (bs @ [b]) buf' (length W)"
proof -
  have pre: "pre \<noteq> []" using assms(2,3) by (auto dest: arg_cong [of _ _ length])
  have small: "length W < 130" using assms(3,4) by simp
  then obtain buf' where st: "stash buf (int (length A)) (int (length W)) = Ok buf'" "length buf' = length buf"
    "drop (length buf - length W) buf' = take (length W) (drop (length A) buf)"
    using stash_Ok [of "length W" "length A" buf] assms(1,5) pre by auto
  have "scan_records func nrecs buf (int (length A)) (int (length A + length W)) albuf recnum s
      = Ok (buf', albuf, int (length W), recnum, s)"
  proof (cases "length W < 2")
    case True
    then show ?thesis using st(1) by (subst scan_records.simps) simp
  next
    case False
    then obtain X where "W = X @ [0, word_of_nat (length b)]"
      using assms(2) common_suffix [of "log_of bs @ b" "[0, word_of_nat (length b)]" pre W]
      by (auto simp: entry_def)
    then have "reclen_at buf (int (length A + length W)) = Ok (int (length b))"
      using assms(1,4) reclen_at_entry [of buf "A @ X" "length b" Z] by simp
    with False assms(3) st(1) show ?thesis by (subst scan_records.simps) simp
  qed
  with st small assms(1,2) pre show ?thesis by (auto simp: resumes_def)
qed

lemma scan_records_one:
  assumes "buf = A @ (W @ entry b) @ Z" "loggable b r" "length albuf = WLOG_REC_MAX_SIZE"
    and "fst (func r s) \<noteq> WLOG_STOP_SCAN"
  shows "\<exists>albuf'. length albuf' = WLOG_REC_MAX_SIZE
    \<and> scan_records func nrecs buf (int (length A)) (int (length A + length (W @ entry b))) albuf recnum s
      = (if nrecs \<noteq> 0 \<and> recnum + 1 \<ge> nrecs then Ok (buf, albuf', 0, recnum + 1, snd (func r s))
         else scan_records func nrecs buf (int (length A)) (int (length A + length W)) albuf' (recnum + 1) (snd (func r s)))"
proof -
  let ?al = "b @ drop (length b) albuf"
  have b: "length b < 128" "wlog_rec_unpack ?al = Ok r" using assms(2) by (simp_all add: loggable_def)
  have len: "reclen_at buf (int (length A + length (W @ entry b))) = Ok (int (length b))"
    using assms(1) b(1) reclen_at_entry [of buf "A @ W @ b" "length b" Z] by (simp add: entry_def)
  have cp: "memcpy albuf 0 buf (int (length A + length W)) (int (length b)) = Ok ?al"
    using memcpy_Ok [of 0 "length b" albuf "length A + length W" buf] assms(1,3) b(1)
    by (simp add: entry_def WLOG_REC_MAX_SIZE_def)
  have eqs: "int (length A + length (W @ entry b)) - (int (length b) + 2) = int (length A + length W)" by simp
  show ?thesis
    using b len cp eqs assms(3,4)
    by (intro exI [of _ ?al], subst scan_records.simps) (simp add: Let_def WLOG_REC_MAX_SIZE_def)
qed

text \<open>
  What one pass over the buffer does: the last \<open>k\<close> records have been visited, and unless that is all that
  was asked for the scan can resume.
\<close>

definition passed where
  "passed func nrecs buf a pre bs rs recnum s res \<longleftrightarrow>
     (\<exists>buf' albuf' lo k. res = Ok (buf', albuf', int lo, recnum + int k, visit func k rs s)
      \<and> length albuf' = WLOG_REC_MAX_SIZE \<and> length buf' = length buf \<and> k \<le> length rs
      \<and> (if nrecs \<noteq> 0 \<and> nrecs \<le> recnum + int k then nrecs = recnum + int k
          else resumes buf a pre (take (length bs - k) bs) buf' lo))"

lemma passedI:
  assumes "res = Ok (buf', albuf', int lo, recnum + int k, visit func k rs s)"
    and "length albuf' = WLOG_REC_MAX_SIZE" "length buf' = length buf" "k \<le> length rs"
    and "if nrecs \<noteq> 0 \<and> nrecs \<le> recnum + int k then nrecs = recnum + int k
      else resumes buf a pre (take (length bs - k) bs) buf' lo"
  shows "passed func nrecs buf a pre bs rs recnum s res"
  unfolding passed_def using assms by blast

lemma passed_snoc:
  assumes "passed func nrecs buf a pre bs rs (recnum + 1) (snd (func r s)) res" "length bs = length rs"
  shows "passed func nrecs buf a pre (bs @ [b]) (rs @ [r]) recnum s res"
proof -
  from assms(1) obtain buf' albuf' lo k where *: "res = Ok (buf', albuf', int lo, recnum + 1 + int k, visit func k rs (snd (func r s)))"
    "length albuf' = WLOG_REC_MAX_SIZE" "length buf' = length buf" "k \<le> length rs"
    "if nrecs \<noteq> 0 \<and> nrecs \<le> recnum + 1 + int k then nrecs = recnum + 1 + int k
      else resumes buf a pre (take (length bs - k) bs) buf' lo"
    unfolding passed_def by blast
  show ?thesis
    by (rule passedI [of _ buf' albuf' lo _ "Suc k"]) (use * assms(2) in \<open>auto simp: ac_simps\<close>)
qed

lemma scan_records_passed:
  assumes "\<And>r s. fst (func r s) \<noteq> WLOG_STOP_SCAN" "list_all2 loggable bs rs"
    and "buf = A @ W @ Z" "log_of bs = pre @ W" "260 \<le> length buf - length A \<or> pre = []"
    and "length albuf = WLOG_REC_MAX_SIZE" "nrecs = 0 \<or> recnum < nrecs"
  shows "passed func nrecs buf (length A) pre bs rs recnum s
    (scan_records func nrecs buf (int (length A)) (int (length A + length W)) albuf recnum s)"
  using assms(2-7)
proof (induction bs arbitrary: rs W Z albuf recnum s rule: rev_induct)
  case Nil
  show ?case
    by (rule passedI [of _ buf albuf 0 _ 0], subst scan_records.simps)
      (use Nil in \<open>auto simp: stash_def memcpy_def mem_read_def mem_write_def resumes_def\<close>)
next
  case (snoc b bs)
  then obtain r rs' where rs: "rs = rs' @ [r]" "list_all2 loggable bs rs'" "loggable b r"
    by (auto simp: list_all2_append1 list_all2_Cons1)
  note b = rs(3) [unfolded loggable_def, THEN conjunct1]
  show ?case
  proof (cases "length W < length (entry b)")
    case True
    obtain buf' where "scan_records func nrecs buf (int (length A)) (int (length A + length W)) albuf recnum s
        = Ok (buf', albuf, int (length W), recnum, s)"
      "length buf' = length buf" "resumes buf (length A) pre (bs @ [b]) buf' (length W)"
      using scan_records_stash [OF snoc.prems(2,3) True b snoc.prems(4), of func nrecs albuf recnum s] by blast
    then show ?thesis
      by (intro passedI [of _ buf' albuf "length W" _ 0]) (use snoc.prems(5,6) in auto)
  next
    case False
    then obtain V where V: "W = V @ entry b" "log_of bs = pre @ V"
      using snoc.prems(3) common_suffix [of "log_of bs" "entry b" pre W] by auto
    obtain albuf' where al: "length albuf' = WLOG_REC_MAX_SIZE"
      and run: "scan_records func nrecs buf (int (length A)) (int (length A + length W)) albuf recnum s
        = (if nrecs \<noteq> 0 \<and> recnum + 1 \<ge> nrecs then Ok (buf, albuf', 0, recnum + 1, snd (func r s))
           else scan_records func nrecs buf (int (length A)) (int (length A + length V)) albuf' (recnum + 1) (snd (func r s)))"
      using scan_records_one [of buf A V b Z r albuf func s] snoc.prems(2,5) V(1) rs(3) assms(1) by blast
    show ?thesis
    proof (cases "nrecs \<noteq> 0 \<and> recnum + 1 \<ge> nrecs")
      case True
      then show ?thesis
        by (intro passedI [of _ buf albuf' 0 _ 1]) (use run al snoc.prems(6) rs(1) in \<open>auto simp: visit_def\<close>)
    next
      case False
      have "passed func nrecs buf (length A) pre bs rs' (recnum + 1) (snd (func r s))
          (scan_records func nrecs buf (int (length A)) (int (length A + length V)) albuf' (recnum + 1) (snd (func r s)))"
        using snoc.IH [of rs' V "entry b @ Z" albuf' "recnum + 1" "snd (func r s)"] rs(2) V snoc.prems(2,4) al False by auto
      with False run rs show ?thesis by (auto intro: passed_snoc dest: list_all2_lengthD)
    qed
  qed
qed

lemma scan_loop_done:
  assumes "\<not> ((nrecs = 0 \<or> recnum < nrecs) \<and> off > 0)"
  shows "scan_loop env wfile func nrecs buf bufstart off leftover albuf recnum s = Some (Ok (0, s, None))"
  using assms by (subst scan_loop.simps) auto

text \<open>One turn of the loop whose system calls succeed: the buffer is filled to hold \<open>W\<close> behind \<open>A\<close>.\<close>

lemma scan_loop_fill:
  assumes "nrecs = 0 \<or> recnum < nrecs" "0 < off" "\<And>x. s_seek env x \<and> s_read env x"
    and "length buf = scan_size" "drop (scan_size - lo) buf = take lo (drop off (w_data wfile))"
    and "off + lo \<le> length (w_data wfile)" "lo < scan_size"
    and "off' = off + lo - min (off + lo) scan_size" "W = take (off + lo - off') (drop off' (w_data wfile))"
    and "A = take (scan_size - length W) buf"
  shows "scan_loop env wfile func nrecs buf 0 (int off) (int lo) albuf recnum s
    = (case scan_records func nrecs (A @ W) (int (length A)) (int (length A + length W)) albuf recnum s of
         Ok r \<Rightarrow> scan_loop env wfile func nrecs (fst r) (int (length A)) (int off') (fst (snd (snd r)))
           (fst (snd r)) (fst (snd (snd (snd r)))) (snd (snd (snd (snd r))))
       | Exit n \<Rightarrow> Some (Exit n) | Fault \<Rightarrow> Some Fault)"
proof -
  have le: "off' \<le> off" "off + lo - off' \<le> scan_size"
    and lW: "length W = off + lo - off'" and lA: "length A = scan_size - (off + lo - off')"
    using assms(4,6-10) by (auto simp: min_def split: if_splits)
  then obtain c where c: "off = off' + c" by (metis le_Suc_ex)
  have parts: "W = take c (drop off' (w_data wfile)) @ take lo (drop off (w_data wfile))"
    using assms(9) c by (simp add: take_add add.commute)
  have wr: "mem_write buf (int (length A)) (take c (drop off' (w_data wfile))) = Ok (A @ W)"
  proof -
    have "length A + length (take c (drop off' (w_data wfile))) = scan_size - lo"
      using assms(6) le(2) lA c by simp
    moreover have "take (length A) buf = A" using lA lW by (simp add: assms(10))
    ultimately show ?thesis
      using mem_write_Ok [of "length A" "take c (drop off' (w_data wfile))" buf] assms(4,5)
      by (simp only: parts [symmetric] diff_le_self)
  qed
  have ints: "(if int off + int lo < int scan_size then int scan_size - (int off + int lo) else 0) = int (length A)"
    "(if int off + int lo < int scan_size then 0 else int off - (int scan_size - int lo)) = int off'"
    "int scan_size - int (length A) - int lo = int c" "int (length A + length W) = int scan_size"
    using assms(7,8) le lA lW c by (auto simp: min_def split: if_splits)
  show ?thesis
    using assms(1,2,3) wr by (subst scan_loop.simps) (simp add: ints Let_def del: of_nat_add)
qed

lemma log_of_empty: "log_of bs = [] \<longleftrightarrow> bs = []"
  by (cases bs rule: rev_cases) (auto simp: entry_def)

lemma visit_beyond: "length rs \<le> k \<Longrightarrow> visit func k rs s = visit func (length rs) rs s"
  by (simp add: visit_def)

lemma visit_visit:
  assumes "k \<le> length rs"
  shows "visit func m (take (length rs - k) rs) (visit func k rs s) = visit func (k + m) rs s"
proof -
  have "take (k + m) (rev rs) = take k (rev rs) @ take m (rev (take (length rs - k) rs))"
    by (simp only: take_add drop_rev)
  then show ?thesis by (simp add: visit_def)
qed

text \<open>The number of records a scan visits of \<open>n\<close> that are left.\<close>

definition to_visit :: "int \<Rightarrow> int \<Rightarrow> nat \<Rightarrow> nat" where
  "to_visit nrecs recnum n = (if nrecs = 0 then n else min n (nat (nrecs - recnum)))"

text \<open>Between two turns the entries \<open>bs\<close> are left, the last \<open>lo\<close> bytes of them at the end of the buffer.\<close>

definition scan_inv :: "bytes \<Rightarrow> bytes list \<Rightarrow> nat \<Rightarrow> nat \<Rightarrow> bytes \<Rightarrow> bool" where
  "scan_inv data bs off lo buf \<longleftrightarrow>
     log_of bs = take (off + lo) data \<and> off + lo \<le> length data \<and> length buf = scan_size
     \<and> drop (scan_size - lo) buf = take lo (drop off data) \<and> lo < 130 \<and> (off = 0 \<longrightarrow> lo = 0)"

lemma resumes_inv:
  assumes "resumes (A @ W) (length A) (take off' data) bs buf' lo'" "length A + length W = scan_size"
    and "W = take n (drop off' data)" "off' + n \<le> length data" "length buf' = scan_size"
  shows "scan_inv data bs off' lo' buf'"
proof -
  have res: "lo' < 130" "drop (scan_size - lo') buf' = take lo' W" "log_of bs = take off' data @ take lo' W"
    "off' = 0 \<Longrightarrow> lo' = 0"
    using assms(1) by (auto simp: resumes_def assms(2))
  have "length (drop (scan_size - lo') buf') = lo'" using assms(5) res(1) by (simp add: scan_size_def)
  then have "lo' \<le> length W" by (simp add: res(2))
  then have eq: "take lo' W = take lo' (drop off' data)" and "off' + lo' \<le> length data"
    using assms(4) by (simp_all add: assms(3))
  with res assms(5) show ?thesis by (simp add: scan_inv_def take_add)
qed

lemma scan_turn:
  assumes "\<And>r s. fst (func r s) \<noteq> WLOG_STOP_SCAN" "\<And>x. s_seek env x \<and> s_read env x"
    and "list_all2 loggable bs rs" "scan_inv (w_data wfile) bs off lo buf" "length albuf = WLOG_REC_MAX_SIZE"
    and "nrecs = 0 \<or> recnum < nrecs" "0 < off"
  obtains a buf' off' lo' albuf' k where
    "scan_loop env wfile func nrecs buf 0 (int off) (int lo) albuf recnum s
      = scan_loop env wfile func nrecs buf' (int a) (int off') (int lo') albuf' (recnum + int k) (visit func k rs s)"
    "off' < off" "off' = 0 \<or> a = 0" "k \<le> length rs" "length albuf' = WLOG_REC_MAX_SIZE"
    "if nrecs \<noteq> 0 \<and> nrecs \<le> recnum + int k then nrecs = recnum + int k
     else scan_inv (w_data wfile) (take (length bs - k) bs) off' lo' buf'"
proof -
  note inv = assms(4) [unfolded scan_inv_def]
  define off' where "off' = off + lo - min (off + lo) scan_size"
  define W where "W = take (off + lo - off') (drop off' (w_data wfile))"
  define A where "A = take (scan_size - length W) buf"
  have S: "260 \<le> scan_size" by (simp add: scan_size_def)
  have "length W = off + lo - off'" using inv unfolding W_def length_take length_drop by linarith
  then have lW: "length W = min (off + lo) scan_size" by (simp add: off'_def)
  then have lA: "length A + length W = scan_size" using inv by (simp add: A_def)
  have pre: "log_of bs = take off' (w_data wfile) @ W"
    using inv by (simp add: W_def flip: take_add) (simp add: off'_def)
  have roomy: "260 \<le> length (A @ W) - length A \<or> take off' (w_data wfile) = []"
    using lA lW S by (auto simp: off'_def min_def)
  obtain buf' albuf' lo' k where run: "scan_records func nrecs (A @ W) (int (length A)) (int (length A + length W)) albuf recnum s
      = Ok (buf', albuf', int lo', recnum + int k, visit func k rs s)"
    and l: "length albuf' = WLOG_REC_MAX_SIZE" "length buf' = length (A @ W)" "k \<le> length rs"
    and cont: "if nrecs \<noteq> 0 \<and> nrecs \<le> recnum + int k then nrecs = recnum + int k
        else resumes (A @ W) (length A) (take off' (w_data wfile)) (take (length bs - k) bs) buf' lo'"
    using scan_records_passed [of func, OF assms(1,3) append_Nil2 [symmetric, THEN arg_cong] pre roomy assms(5,6)]
    unfolding passed_def by blast
  have lo: "lo < scan_size" using inv S by simp
  have "scan_loop env wfile func nrecs buf 0 (int off) (int lo) albuf recnum s
      = scan_loop env wfile func nrecs buf' (int (length A)) (int off') (int lo') albuf' (recnum + int k) (visit func k rs s)"
    using inv by (subst scan_loop_fill [OF assms(6,7,2) _ _ _ lo off'_def W_def A_def]) (simp_all add: run del: of_nat_add)
  moreover have "off' < off" "off' = 0 \<or> length A = 0"
    using assms(7) lo lA lW by (auto simp: off'_def min_def split: if_splits)
  moreover have "scan_inv (w_data wfile) bs' off' lo' buf'"
    if "resumes (A @ W) (length A) (take off' (w_data wfile)) bs' buf' lo'" for bs'
    using inv l(2) lA by (intro resumes_inv [OF that lA W_def]) (auto simp: off'_def)
  ultimately show thesis using that [of buf' "length A" off' lo' albuf' k] l cont by auto
qed

lemma scan_loop_spec:
  assumes "\<And>r s. fst (func r s) \<noteq> WLOG_STOP_SCAN" "\<And>x. s_seek env x \<and> s_read env x"
    and "list_all2 loggable bs rs" "scan_inv (w_data wfile) bs off lo buf" "length albuf = WLOG_REC_MAX_SIZE"
    and "nrecs = 0 \<or> recnum \<le> nrecs"
  shows "scan_loop env wfile func nrecs buf 0 (int off) (int lo) albuf recnum s
    = Some (Ok (0, visit func (to_visit nrecs recnum (length rs)) rs s, None))"
  using assms(3-6)
proof (induction off arbitrary: bs rs lo buf albuf recnum s rule: less_induct)
  case (less off)
  have lrs: "length bs = length rs" using less.prems(1) by (rule list_all2_lengthD)
  consider "nrecs \<noteq> 0" "recnum = nrecs" | "off = 0" | "nrecs = 0 \<or> recnum < nrecs" "0 < off"
    using less.prems(4) by fastforce
  then show ?case
  proof cases
    case 1
    then show ?thesis by (simp add: scan_loop_done to_visit_def)
  next
    case 2
    then have "bs = []" using less.prems(2) by (simp add: scan_inv_def flip: log_of_empty)
    with lrs 2 show ?thesis by (simp add: scan_loop_done to_visit_def)
  next
    case 3
    obtain a buf' off' lo' albuf' k where turn: "scan_loop env wfile func nrecs buf 0 (int off) (int lo) albuf recnum s
        = scan_loop env wfile func nrecs buf' (int a) (int off') (int lo') albuf' (recnum + int k) (visit func k rs s)"
      and *: "off' < off" "off' = 0 \<or> a = 0" "k \<le> length rs" "length albuf' = WLOG_REC_MAX_SIZE"
      and cont: "if nrecs \<noteq> 0 \<and> nrecs \<le> recnum + int k then nrecs = recnum + int k
        else scan_inv (w_data wfile) (take (length bs - k) bs) off' lo' buf'"
      by (rule scan_turn [of func env bs rs wfile, OF assms(1,2) less.prems(1-3) 3, of s])
    show ?thesis
    proof (cases "nrecs \<noteq> 0 \<and> nrecs \<le> recnum + int k")
      case True
      then have "to_visit nrecs recnum (length rs) = k" using cont *(3) by (auto simp: to_visit_def)
      then show ?thesis using True by (simp add: turn scan_loop_done)
    next
      case False
      have "list_all2 loggable (take (length bs - k) bs) (take (length rs - k) rs)"
        using less.prems(1) lrs by (simp add: list_all2_takeI)
      note IH = less.IH [OF *(1) this _ *(4), of lo' buf' "recnum + int k" "visit func k rs s"]
      moreover have "scan_loop env wfile func nrecs buf' (int a) (int off') (int lo') albuf' (recnum + int k) (visit func k rs s)
          = scan_loop env wfile func nrecs buf' 0 (int off') (int lo') albuf' (recnum + int k) (visit func k rs s)"
        using *(2) by (cases "off' = 0") (auto simp: scan_loop_done)
      moreover have "k + to_visit nrecs (recnum + int k) (length rs - k) = to_visit nrecs recnum (length rs)"
        using *(3) False by (auto simp: to_visit_def)
      ultimately show ?thesis using False cont by (auto simp: turn visit_visit [OF *(3)])
    qed
  qed
qed

subsection \<open>Appending and overlaying\<close>

definition wbuf_ok :: "bytes \<Rightarrow> bool" where
  "wbuf_ok buf \<longleftrightarrow> length buf = WLOG_REC_MAX_SIZE + 2"

text \<open>System calls that do all they are asked for.\<close>

definition write_fine :: "write_env \<Rightarrow> bool" where
  "write_fine env \<longleftrightarrow> (\<forall>n. e_write env n = n) \<and> e_seek env"

lemma wbuf_ok_sizes:
  assumes "wbuf_ok buf"
  shows "disk_size \<le> length buf" "226 \<le> length buf" "228 \<le> length buf"
  using assms by (simp_all add: wbuf_ok_def WLOG_REC_MAX_SIZE_def disk_size_def)

lemma wlog_record_append:
  assumes "wrec_ok r" "wbuf_ok buf" "write_fine env" "off < 0"
  shows "wlog_record_write env buf wfile r off
    = Ok (to_int32 (int (length (w_data wfile))),
        wfile \<lparr>w_data := w_data wfile @ entry (rec_bytes r buf)\<rparr>, None)"
proof -
  let ?n = "rec_len r" and ?b = "rec_bytes r buf"
  note sz = wbuf_ok_sizes [OF assms(2)] and bnd = rec_len_bounds [OF assms(1)]
  have len: "length ?b = ?n" using length_rec_bytes [OF assms(1) sz(1)] .
  let ?h = "drop ?n (pack_header r buf)"
  have two: "[word_of_int (cdiv (int ?n) 256), word_of_int (crem (int ?n) 256)] = [0, word_of_nat ?n :: 8 word]"
    using bnd by (simp add: cdiv_nonneg crem_nonneg)
  have lh: "length ?h = length buf - ?n" using sz by simp
  have "mem_write (?b @ ?h) (int ?n) [0, word_of_nat ?n] = Ok (?b @ [0, word_of_nat ?n] @ drop 2 ?h)"
    using mem_write_Ok [of ?n "[0, word_of_nat ?n]" "?b @ ?h"] len bnd sz lh by simp
  moreover have "take (nat (int ?n + 2)) (?b @ [0, word_of_nat ?n] @ drop 2 ?h) = entry ?b"
    using len by (simp add: entry_def nat_add_distrib)
  ultimately show ?thesis
    using assms(3,4) bnd len wlog_rec_pack_full [OF assms(1) sz(2)] two
    by (simp add: wlog_record_write_def write_fine_def Let_def)
qed

fun append_all :: "write_env \<Rightarrow> wlog_file \<Rightarrow> (bytes \<times> wlog_rec) list \<Rightarrow> wlog_file outcome" where
  "append_all env wfile [] = Ok wfile"
| "append_all env wfile ((buf, r) # ws) =
     bind_outcome (wlog_record_write env buf wfile r (-1)) (\<lambda>(off, wfile', err). append_all env wfile' ws)"

definition packed :: "(bytes \<times> wlog_rec) list \<Rightarrow> bytes list" where
  "packed ws = map (\<lambda>(buf, r). rec_bytes r buf) ws"

text \<open>Records whose length the scan reads back: up to 127 bytes.\<close>

definition writes_ok :: "(bytes \<times> wlog_rec) list \<Rightarrow> bool" where
  "writes_ok ws \<longleftrightarrow> (\<forall>(buf, r) \<in> set ws. wrec_ok r \<and> wbuf_ok buf \<and> rec_len r < 128)"

lemma append_all_Ok:
  assumes "\<forall>(buf, r) \<in> set ws. wrec_ok r \<and> wbuf_ok buf" "write_fine env"
  shows "append_all env wfile ws = Ok (wfile \<lparr>w_data := w_data wfile @ log_of (packed ws)\<rparr>)"
  using assms(1) by (induction ws arbitrary: wfile) (auto simp: wlog_record_append assms(2) packed_def log_of_def)

lemma packed_loggable:
  assumes "writes_ok ws"
  shows "list_all2 loggable (packed ws) (map (kept \<circ> snd) ws)"
  using assms
  by (auto simp: writes_ok_def packed_def list_all2_conv_all_nth loggable_def wlog_rec_unpack_full
      length_rec_bytes wbuf_ok_sizes split: prod.splits dest!: nth_mem)

lemma wlog_scan_log:
  assumes "\<And>r s. fst (func r s) \<noteq> WLOG_STOP_SCAN" "\<And>x. s_seek env x \<and> s_read env x" "s_end env" "s_cur env"
    and "length buf0 = scan_size" "length albuf0 = WLOG_REC_MAX_SIZE" "0 \<le> nrecs"
    and "w_data wfile = log_of bs" "list_all2 loggable bs rs" "length (log_of bs) < 2 ^ 31"
  shows "wlog_scan_backward env buf0 albuf0 wfile nrecs func s
    = Some (Ok (0, fold (\<lambda>r s. snd (func r s)) (take (if nrecs = 0 then length rs else nat nrecs) (rev rs)) s, None))"
proof -
  have "scan_inv (w_data wfile) bs (length (w_data wfile)) 0 buf0"
    using assms(5,8) by (simp add: scan_inv_def)
  note run = scan_loop_spec [of func env, OF assms(1,2,9) this assms(6), of nrecs 0 s]
  have "int (length (w_data wfile)) < 2 ^ 31" using assms(8,10) by simp
  then show ?thesis
    using run assms(3,4,7) to_int32_id [of "int (length (w_data wfile))"]
    by (auto simp: wlog_scan_backward_def visit_def to_visit_def min_def)
qed

lemma overlay_middle:
  assumes "data = X @ Y @ Z" "off = length X" "length ys = length Y"
  shows "overlay data off ys = X @ ys @ Z"
  using assms by (simp add: overlay_def)

lemma log_of_append: "log_of (xs @ ys) = log_of xs @ log_of ys"
  by (simp add: log_of_def)

lemma entry_rec_bytes:
  assumes "wrec_ok r" "disk_size \<le> length buf"
  shows "entry (rec_bytes r buf) = take disk_size (pack_header r buf) @ texts r @ [0, word_of_nat (rec_len r)]"
  using length_rec_bytes [OF assms] by (simp add: entry_def rec_bytes_def)

lemma wlog_record_overlay:
  assumes "wrec_ok r" "wbuf_ok buf" "wrec_ok r'" "wbuf_ok buf'" "write_fine env"
    and "texts r' = texts r" "rec_len r' = rec_len r"
    and "w_data wfile = X @ entry (rec_bytes r buf) @ Z" "int (length X) < 2 ^ 31"
  shows "wlog_record_write env buf' wfile r' (int (length X))
    = Ok (int (length X), wfile \<lparr>w_data := X @ entry (rec_bytes r' buf') @ Z\<rparr>, None)"
proof -
  note sz = wbuf_ok_sizes [OF assms(2)] wbuf_ok_sizes [OF assms(4)]
  let ?h = "take disk_size (pack_header r buf)" and ?h' = "take disk_size (pack_header r' buf')"
  have "overlay (w_data wfile) (length X) ?h' = X @ ?h' @ texts r @ [0, word_of_nat (rec_len r)] @ Z"
    using sz by (intro overlay_middle [where Y = ?h])
      (simp_all add: assms(8) entry_rec_bytes [OF assms(1) sz(1)])
  then show ?thesis
    using assms(5,6,7,9) sz to_int32_id [of "int (length X)"] entry_rec_bytes [OF assms(3) sz(4)]
    by (simp add: wlog_record_write_def wlog_rec_pack_def write_fine_def Let_def)
qed

text \<open>The last record of the file is longer than a signed character tells.\<close>

lemma sint_long: "128 \<le> n \<Longrightarrow> n < 256 \<Longrightarrow> sint (word_of_nat n :: 8 word) = int n - 256"
proof -
  assume n: "128 \<le> n" "n < 256"
  have "sint (word_of_int (int n) :: 8 word) = (int n + 128) mod 256 - 128"
    by (subst int_word_sint) simp
  also have "(int n + 128) mod 256 = int n - 128"
  proof -
    have "(int n + 128) mod 256 = (int n + 128 - 256) mod 256" by (simp only: minus_mod_self2)
    also have "\<dots> = int n - 128" using n by simp
    finally show ?thesis .
  qed
  finally show ?thesis by simp
qed

lemma scan_records_long:
  assumes "buf = X @ [0, word_of_nat n]" "128 \<le> n" "n < 254" "a \<le> length X"
  shows "scan_records func nrecs buf (int a) (int (length buf)) albuf recnum s = Fault"
proof -
  have "reclen_at buf (int (length buf)) = Ok (int n - 256)"
    using assms by (simp add: reclen_at_def nth_append nat_add_distrib sint_long)
  then show ?thesis
    using assms by (subst scan_records.simps) (simp add: memcpy_def mem_read_def)
qed

lemma wlog_scan_long:
  assumes "\<And>x. s_seek env x \<and> s_read env x" "s_end env" "s_cur env" "length buf0 = scan_size"
    and "w_data wfile = D @ [0, word_of_nat n]" "128 \<le> n" "n < 254" "length (w_data wfile) < 2 ^ 31" "0 \<le> nrecs"
  shows "wlog_scan_backward env buf0 albuf0 wfile nrecs func s = Some Fault"
proof -
  let ?L = "length (w_data wfile)"
  define off' where "off' = ?L + 0 - min (?L + 0) scan_size"
  define W where "W = take (?L + 0 - off') (drop off' (w_data wfile))"
  define A where "A = take (scan_size - length W) buf0"
  have W: "W = drop off' D @ [0, word_of_nat n]"
    by (simp add: W_def) (simp add: off'_def assms(5) scan_size_def)
  have "length (A @ W) = scan_size" using assms(4) by (simp add: A_def W_def off'_def)
  then have "scan_records func nrecs (A @ W) (int (length A)) (int (length A + length W)) albuf0 0 s = Fault"
    using scan_records_long [of "A @ W" "A @ drop off' D" n "length A"] assms(6,7) W by simp
  then have "scan_loop env wfile func nrecs buf0 0 (int ?L) (int 0) albuf0 0 s = Some Fault"
    using assms(4,9) by (subst scan_loop_fill [OF _ _ assms(1) _ _ _ _ off'_def W_def A_def])
      (auto simp: scan_size_def assms(5))
  moreover have "to_int32 (int ?L) = int ?L" using assms(8) by (intro to_int32_id) auto
  ultimately show ?thesis using assms(2,3) by (simp add: wlog_scan_backward_def)
qed

subsection \<open>What unpacking can give\<close>

lemma horner_bits_range: "0 \<le> (horner_sum of_bool 2 bs :: int) \<and> horner_sum of_bool 2 bs < (2 :: int) ^ length bs"
  by (induction bs) auto

lemma bf_get_range: "0 \<le> bf_get f buf \<and> bf_get f buf < 2 ^ snd f"
proof -
  let ?bs = "take (snd f) (drop (fst f) (bits_of buf))"
  have "(2 :: int) ^ length ?bs \<le> 2 ^ snd f" by (rule power_increasing) auto
  then show ?thesis using horner_bits_range [of ?bs] unfolding bf_get_def by linarith
qed

lemma to_int32_width: "in_width 32 (to_int32 x)"
proof -
  have "0 \<le> (x + 2 ^ 31) mod 2 ^ 32" "(x + 2 ^ 31) mod 2 ^ 32 < 2 ^ 32" by simp_all
  then show ?thesis unfolding in_width_def to_int32_def by simp
qed

lemma copy_some_length: "copy_some dst 0 src off n = Ok x \<Longrightarrow> length x = length dst \<and> (0 < n \<longrightarrow> n \<le> int (length dst))"
  by (auto simp: copy_some_def memcpy_def mem_read_def mem_write_def split: if_splits)

lemma copy_some_no_exit: "copy_some dst doff src soff n \<noteq> Exit k"
  by (simp add: copy_some_def memcpy_def mem_read_def mem_write_def)

section \<open>Properties\<close>

definition demo_rec :: "int \<Rightarrow> wlog_rec" where
  "demo_rec plen = \<lparr>w_pid = 4711, w_offset = 512, w_nbytes = 1024, w_oflags = 66, w_done = 0, w_async = 1,
     w_host = replicate 9 104, w_hostlen = 4, w_path = replicate 129 112, w_pathlen = plen,
     w_pattern = replicate 65 42, w_patternlen = 8\<rparr>"

definition demo_buf :: "8 word \<Rightarrow> bytes" where
  "demo_buf x = replicate (WLOG_REC_MAX_SIZE + 2) x"

definition demo_log :: wlog_file where
  "demo_log = \<lparr>w_afd = 3, w_rfd = 4, w_file = ''wlog'', w_data = [], w_fds = [3, 4]\<rparr>"

definition demo_write :: write_env where
  "demo_write = \<lparr>e_write = (\<lambda>n. n), e_seek = True, e_err = ''''\<rparr>"

definition demo_scan :: scan_env where
  "demo_scan = \<lparr>s_end = True, s_cur = True, s_seek = (\<lambda>_. True), s_read = (\<lambda>_. True), s_err = '''', s_addr = (\<lambda>_. '''')\<rparr>"

text \<open>A function for the scan that collects the records it is given.\<close>

definition collect :: "wlog_rec \<Rightarrow> wlog_rec list \<Rightarrow> int \<times> wlog_rec list" where
  "collect r rs = (1, rs @ [r])"

lemmas demo_defs = demo_rec_def demo_log_def demo_write_def demo_scan_def collect_def

lemma demo_rec_ok: "0 \<le> plen \<Longrightarrow> plen < 128 \<Longrightarrow> wrec_ok (demo_rec plen)"
  by (simp add: wrec_ok_def demo_rec_def in_width_def WLOG_MAX_PATH_def WLOG_MAX_HOST_def WLOG_MAX_PATTERN_def)

lemma demo_rec_len: "rec_len (demo_rec (int plen)) = 40 + plen"
  by (simp add: rec_len_def disk_size_def pathlen_def hostlen_def patternlen_def demo_rec_def)

lemma demo_buf_ok: "wbuf_ok (demo_buf x)"
  by (simp add: wbuf_ok_def demo_buf_def)



text \<open>
  C29: rewriting a record in place at the position \<^verbatim>\<open>wlog_record_write\<close> returned for it, as is done
  when an asynchronous write completes, changes that record and no other: a scan of the whole file
  then sees the new one between its neighbours.
\<close>

theorem wlog_overlay_seen:
  assumes "writes_ok (ws1 @ [(buf, r)] @ ws2)" "writes_ok [(buf', r')]" "write_fine wenv" "w_data wfile = []"
    and "length (log_of (packed (ws1 @ [(buf, r)] @ ws2))) < 2 ^ 31" "texts r' = texts r" "rec_len r' = rec_len r"
    and "\<forall>r s. fst (func r s) \<noteq> WLOG_STOP_SCAN" "\<forall>x. s_seek env x \<and> s_read env x" "s_end env" "s_cur env"
    and "length buf0 = scan_size" "length albuf0 = WLOG_REC_MAX_SIZE"
  shows "\<exists>wfile1 off wfile2 wfile3 wfile4. append_all wenv wfile ws1 = Ok wfile1
    \<and> wlog_record_write wenv buf wfile1 r (-1) = Ok (off, wfile2, None)
    \<and> append_all wenv wfile2 ws2 = Ok wfile3
    \<and> wlog_record_write wenv buf' wfile3 r' off = Ok (off, wfile4, None)
    \<and> wlog_scan_backward env buf0 albuf0 wfile4 0 func s
      = Some (Ok (0, fold (\<lambda>r s. snd (func r s)) (rev (map (kept \<circ> snd) (ws1 @ [(buf', r')] @ ws2))) s, None))"
proof -
  define X where "X = log_of (packed ws1)"
  define Z where "Z = log_of (packed ws2)"
  let ?new = "ws1 @ [(buf', r')] @ ws2"
  have parts: "writes_ok ws1" "wrec_ok r" "wbuf_ok buf" "writes_ok ws2" "wrec_ok r'" "wbuf_ok buf'" "writes_ok ?new"
    using assms(1,2) by (auto simp: writes_ok_def)
  have lX: "int (length X) < 2 ^ 31" using assms(5) by (simp add: X_def packed_def log_of_append)
  have new: "log_of (packed ?new) = X @ entry (rec_bytes r' buf') @ Z"
    by (simp add: X_def Z_def packed_def log_of_def)
  have "length (log_of (packed ?new)) = length (log_of (packed (ws1 @ [(buf, r)] @ ws2)))"
    using parts assms(7) by (simp add: packed_def log_of_def length_rec_bytes wbuf_ok_sizes)
  then have len: "length (log_of (packed ?new)) < 2 ^ 31" using assms(5) by simp
  have 1: "append_all wenv wfile ws1 = Ok (wfile \<lparr>w_data := X\<rparr>)"
    using parts(1) assms(3,4) by (subst append_all_Ok) (auto simp: writes_ok_def X_def)
  have 2: "wlog_record_write wenv buf (wfile \<lparr>w_data := X\<rparr>) r (-1)
      = Ok (int (length X), wfile \<lparr>w_data := X @ entry (rec_bytes r buf)\<rparr>, None)"
    using wlog_record_append [OF parts(2,3) assms(3)] lX by (simp add: to_int32_id)
  have 3: "append_all wenv (wfile \<lparr>w_data := X @ entry (rec_bytes r buf)\<rparr>) ws2
      = Ok (wfile \<lparr>w_data := X @ entry (rec_bytes r buf) @ Z\<rparr>)"
    using parts(4) assms(3) by (subst append_all_Ok) (auto simp: writes_ok_def Z_def)
  have 4: "wlog_record_write wenv buf' (wfile \<lparr>w_data := X @ entry (rec_bytes r buf) @ Z\<rparr>) r' (int (length X))
      = Ok (int (length X), wfile \<lparr>w_data := X @ entry (rec_bytes r' buf') @ Z\<rparr>, None)"
    using wlog_record_overlay [OF parts(2,3,5,6) assms(3,6,7), of "wfile \<lparr>w_data := X @ entry (rec_bytes r buf) @ Z\<rparr>"] lX
    by simp
  have "wlog_scan_backward env buf0 albuf0 (wfile \<lparr>w_data := X @ entry (rec_bytes r' buf') @ Z\<rparr>) 0 func s
      = Some (Ok (0, fold (\<lambda>r s. snd (func r s)) (rev (map (kept \<circ> snd) ?new)) s, None))"
    using wlog_scan_log [of func env buf0 albuf0 0 "wfile \<lparr>w_data := X @ entry (rec_bytes r' buf') @ Z\<rparr>" "packed ?new"
        "map (kept \<circ> snd) ?new" s] packed_loggable [OF parts(7)] assms(8-13) new len by simp
  with 1 2 3 4 show ?thesis by blast
qed

lemma demo_done_ok:
  "wrec_ok (demo_rec 5 \<lparr>w_done := 1\<rparr>)" "rec_len (demo_rec 5 \<lparr>w_done := 1\<rparr>) = 45"
  "texts (demo_rec 5 \<lparr>w_done := 1\<rparr>) = texts (demo_rec 5)"
  using demo_rec_ok [of 5] demo_rec_len [of 5]
  by (simp_all add: wrec_ok_def rec_len_def texts_def pathlen_def hostlen_def patternlen_def)

theorem wlog_overlay_seen_witness:
  "\<exists>wfile1 off wfile2 wfile3 wfile4. append_all demo_write demo_log [] = Ok wfile1
    \<and> wlog_record_write demo_write (demo_buf 1) wfile1 (demo_rec 5) (-1) = Ok (off, wfile2, None)
    \<and> append_all demo_write wfile2 [(demo_buf 2, demo_rec 80)] = Ok wfile3
    \<and> wlog_record_write demo_write (demo_buf 3) wfile3 (demo_rec 5 \<lparr>w_done := 1\<rparr>) off = Ok (off, wfile4, None)
    \<and> wlog_scan_backward demo_scan (replicate scan_size 9) (replicate WLOG_REC_MAX_SIZE 9) wfile4 0 collect []
      = Some (Ok (0, [kept (demo_rec 80), kept (demo_rec 5 \<lparr>w_done := 1\<rparr>)], None))"
proof -
  have ok: "writes_ok ([] @ [(demo_buf 1, demo_rec 5)] @ [(demo_buf 2, demo_rec 80)])"
    "writes_ok [(demo_buf 3, demo_rec 5 \<lparr>w_done := 1\<rparr>)]"
    using demo_rec_len [of 5] demo_rec_len [of 80] by (simp_all add: writes_ok_def demo_rec_ok demo_buf_ok demo_done_ok)
  have "length (log_of (packed ([] @ [(demo_buf 1, demo_rec 5)] @ [(demo_buf 2, demo_rec 80)]))) < 2 ^ 31"
    using demo_rec_len [of 5] demo_rec_len [of 80]
    by (simp add: log_of_def packed_def length_rec_bytes demo_rec_ok wbuf_ok_sizes [OF demo_buf_ok])
  with wlog_overlay_seen [OF ok, of demo_write demo_log collect demo_scan "replicate scan_size 9" "replicate WLOG_REC_MAX_SIZE 9" "[]"]
    demo_rec_len [of 5] demo_done_ok
  show ?thesis by (simp add: write_fine_def demo_defs WLOG_STOP_SCAN_def)
qed

text \<open>
  The two length bytes are read back as signed characters. A file that ends with a record of 128 or
  more bytes, which a path of 100 characters is enough for, cannot be scanned: the length comes out negative
  and \<^verbatim>\<open>memcpy\<close> is called with it.
\<close>

lemma wlog_scan_long_record:
  assumes "wrec_ok r" "128 \<le> rec_len r" "wbuf_ok buf" "write_fine wenv"
    and "length (w_data wfile) + rec_len r + 2 < 2 ^ 31"
    and "\<forall>x. s_seek env x \<and> s_read env x" "s_end env" "s_cur env" "length buf0 = scan_size" "0 \<le> nrecs"
  shows "\<exists>off wfile'. wlog_record_write wenv buf wfile r (-1) = Ok (off, wfile', None)
    \<and> wlog_scan_backward env buf0 albuf0 wfile' nrecs func s = Some Fault"
proof -
  let ?data = "w_data wfile @ entry (rec_bytes r buf)"
  have n: "length (rec_bytes r buf) = rec_len r" "rec_len r < 254"
    using length_rec_bytes [OF assms(1) wbuf_ok_sizes(1) [OF assms(3)]] rec_len_bounds [OF assms(1)] by auto
  have "wlog_scan_backward env buf0 albuf0 (wfile \<lparr>w_data := ?data\<rparr>) nrecs func s = Some Fault"
    using n assms(2,5-10)
    by (intro wlog_scan_long [where D = "w_data wfile @ rec_bytes r buf" and n = "rec_len r"]) (auto simp: entry_def)
  then show ?thesis using wlog_record_append [OF assms(1,3,4)] by simp
qed

text \<open>
  C30: whatever bytes a log file holds, a record that \<^verbatim>\<open>wlog_rec_unpack\<close> delivers is one the user's
  structure can hold: integers of 32 bits, a 17-bit process id, flags that are 0 or 1, arrays of the
  declared sizes and lengths that lie inside of them; a host length of 10 to 15, which the four bits of the
  field allow, overruns the array instead.
\<close>

theorem wlog_rec_unpack_typed:
  "(wlog_rec_unpack buf = Ok r \<longrightarrow>
     0 \<le> w_pid r \<and> w_pid r < 2 ^ 17 \<and> in_width 32 (w_offset r) \<and> in_width 32 (w_nbytes r) \<and> in_width 32 (w_oflags r)
     \<and> w_done r \<in> {0, 1} \<and> w_async r \<in> {0, 1}
     \<and> length (w_path r) = 129 \<and> 0 \<le> w_pathlen r \<and> w_pathlen r < 128
     \<and> length (w_host r) = 9 \<and> 0 \<le> w_hostlen r \<and> w_hostlen r \<le> 9
     \<and> length (w_pattern r) = 65 \<and> 0 \<le> w_patternlen r \<and> w_patternlen r < 64)
   \<and> (9 < bf_get d_hostlen buf \<longrightarrow> wlog_rec_unpack buf = Fault)"
proof (intro conjI impI)
  note rng = bf_get_range [of d_pid buf] bf_get_range [of d_pathlen buf] bf_get_range [of d_hostlen buf]
    bf_get_range [of d_patternlen buf] bf_get_range [of d_done buf] bf_get_range [of d_async buf]
  assume "wlog_rec_unpack buf = Ok r"
  then obtain p h q where r: "r = \<lparr>w_pid = bf_get d_pid buf, w_offset = to_int32 (bf_get d_offset buf),
      w_nbytes = to_int32 (bf_get d_nbytes buf), w_oflags = to_int32 (bf_get d_oflags buf),
      w_done = bf_get d_done buf, w_async = bf_get d_async buf, w_host = h, w_hostlen = bf_get d_hostlen buf,
      w_path = p, w_pathlen = bf_get d_pathlen buf, w_pattern = q, w_patternlen = bf_get d_patternlen buf\<rparr>"
    and "copy_some (replicate (WLOG_MAX_PATH + 1) 0) 0 buf (int disk_size) (bf_get d_pathlen buf) = Ok p"
    and "copy_some (replicate (WLOG_MAX_HOST + 1) 0) 0 buf (int disk_size + bf_get d_pathlen buf) (bf_get d_hostlen buf) = Ok h"
    and "copy_some (replicate (WLOG_MAX_PATTERN + 1) 0) 0 buf
      (int disk_size + bf_get d_pathlen buf + bf_get d_hostlen buf) (bf_get d_patternlen buf) = Ok q"
    unfolding wlog_rec_unpack_def by (auto simp: Let_def split: if_splits)
  then have len: "length p = 129" "length h = 9" "length q = 65" "bf_get d_hostlen buf \<le> 9"
    using copy_some_length by (fastforce simp: WLOG_MAX_PATH_def WLOG_MAX_HOST_def WLOG_MAX_PATTERN_def)+
  show "0 \<le> w_pid r" "w_pid r < 2 ^ 17" "in_width 32 (w_offset r)" "in_width 32 (w_nbytes r)" "in_width 32 (w_oflags r)"
    "w_done r \<in> {0, 1}" "w_async r \<in> {0, 1}" "length (w_path r) = 129" "0 \<le> w_pathlen r" "w_pathlen r < 128"
    "length (w_host r) = 9" "0 \<le> w_hostlen r" "w_hostlen r \<le> 9" "length (w_pattern r) = 65" "0 \<le> w_patternlen r" "w_patternlen r < 64"
    using rng len by (auto simp: r to_int32_width field_defs)
next
  assume "9 < bf_get d_hostlen buf"
  then have "copy_some (replicate (WLOG_MAX_HOST + 1) 0) 0 buf off (bf_get d_hostlen buf) = Fault" for off
    by (auto simp: copy_some_def memcpy_def mem_read_def mem_write_def WLOG_MAX_HOST_def)
  then show "wlog_rec_unpack buf = Fault"
    using copy_some_no_exit [of "replicate (WLOG_MAX_PATH + 1) 0" 0 buf "int disk_size" "bf_get d_pathlen buf"]
    by (cases "copy_some (replicate (WLOG_MAX_PATH + 1) 0) 0 buf (int disk_size) (bf_get d_pathlen buf)")
      (simp_all add: wlog_rec_unpack_def Let_def)
qed

theorem wlog_rec_unpack_typed_witness:
  "wlog_rec_unpack (rec_bytes (demo_rec 5) (demo_buf 1)) = Ok (kept (demo_rec 5)) \<and> w_hostlen (kept (demo_rec 5)) \<le> 9"
proof -
  have "wlog_rec_unpack (rec_bytes (demo_rec 5) (demo_buf 1)) = Ok (kept (demo_rec 5))"
    using wlog_rec_unpack_full [OF demo_rec_ok wbuf_ok_sizes(1) [OF demo_buf_ok], of 5 1 "[]"] by simp
  with wlog_rec_unpack_typed [of "rec_bytes (demo_rec 5) (demo_buf 1)" "kept (demo_rec 5)"] show ?thesis by simp
qed

end
