(* ===== verification/Open_Flags.thy ===== *)
theory Open_Flags
  imports LTP_Prelude
begin

unbundle bit_operations_syntax

text \<open>
  Names of \<^verbatim>\<open>open(2)\<close> flags: \<^verbatim>\<open>lib/open_flags.c\<close>. Which flags there are and their values is the
  matter of the system's headers: an argument that gives the value of a macro, if it is defined.
\<close>

section \<open>Definitions\<close>

type_synonym macros = "cstr \<Rightarrow> int option"

text \<open>In an expression of \<^verbatim>\<open>#if\<close> an undefined macro is 0.\<close>

definition flag_value :: "macros \<Rightarrow> cstr \<Rightarrow> int" where
  "flag_value os n = (case os n of None \<Rightarrow> 0 | Some v \<Rightarrow> v)"

datatype guard = Always | If | Ifdef

definition guarded :: "macros \<Rightarrow> guard \<times> cstr \<Rightarrow> bool" where
  "guarded os g = (case g of
       (Always, n) \<Rightarrow> True
     | (If, n) \<Rightarrow> flag_value os n \<noteq> 0
     | (Ifdef, n) \<Rightarrow> os n \<noteq> None)"

definition flag_names :: "(guard \<times> cstr) list" where
  "flag_names =
     [(Always, ''O_RDONLY''), (Always, ''O_WRONLY''), (Always, ''O_RDWR''), (Always, ''O_SYNC''),
      (Always, ''O_CREAT''), (Always, ''O_TRUNC''), (Always, ''O_EXCL''), (Always, ''O_APPEND''),
      (Always, ''O_NONBLOCK''), (If, ''O_NOCTTY''), (If, ''O_DSYNC''), (If, ''O_RSYNC''), (If, ''O_ASYNC''),
      (If, ''O_PTYIGN''), (If, ''O_NDELAY''), (If, ''O_RAW''), (Ifdef, ''O_SSD''), (If, ''O_BIG''),
      (If, ''O_PLACE''), (If, ''O_RESTART''), (If, ''O_SFSXOP''), (If, ''O_SFS_DEFER_TM''),
      (If, ''O_WELLFORMED''), (If, ''O_LDRAW''), (If, ''O_T3D''), (If, ''O_PARALLEL''), (If, ''O_FSA''),
      (Ifdef, ''O_LARGEFILE''), (Ifdef, ''O_DIRECT''), (Ifdef, ''O_PRIV'')]"

text \<open>\<^verbatim>\<open>O_FSA\<close> is no macro: the entry stands behind \<^verbatim>\<open>O_PARALLEL\<close> under the same condition.\<close>

definition with_fsa :: "macros \<Rightarrow> macros" where
  "with_fsa os n =
     (if n = ''O_FSA''
      then (if flag_value os ''O_PARALLEL'' \<noteq> 0
            then Some (flag_value os ''O_PARALLEL'' OR flag_value os ''O_WELLFORMED'' OR flag_value os ''O_RAW'')
            else None)
      else os n)"

definition Open_flags :: "macros \<Rightarrow> (cstr \<times> int) list" where
  "Open_flags os = map (\<lambda>g. (snd g, flag_value (with_fsa os) (snd g))) (filter (guarded (with_fsa os)) flag_names)"

text \<open>
  The scan for commas; the string is cut at the comma for the comparison and restored. The result is the
  mask, or \<open>-1\<close> and the position of the unknown name.
\<close>

function parse_loop :: "(cstr \<times> int) list \<Rightarrow> int \<Rightarrow> nat \<Rightarrow> cstr \<Rightarrow> int \<times> nat option" where
  "parse_loop flags bits pos s =
     (let name = takeWhile (\<lambda>c. c \<noteq> CHR '','') s; cc = dropWhile (\<lambda>c. c \<noteq> CHR '','') s
      in case map_of flags name of
           None \<Rightarrow> (-1, Some pos)
         | Some flag \<Rightarrow>
             if cc = [] then (bits OR flag, None)
             else parse_loop flags (bits OR flag) (pos + length name + 1) (tl cc))"
  by pat_completeness auto

lemma behind_comma: "dropWhile P s \<noteq> [] \<Longrightarrow> length (tl (dropWhile P s)) < length s"
  using length_dropWhile_le [of P s] by (cases "dropWhile P s") auto

termination parse_loop
  by (relation "measure (\<lambda>(flags, bits, pos, s). length s)") (auto intro!: behind_comma simp del: length_tl dropWhile_eq_Nil_conv)

declare parse_loop.simps [simp del]

definition parse_open_flags :: "macros \<Rightarrow> cstr \<Rightarrow> int \<times> nat option" where
  "parse_open_flags os s = parse_loop (Open_flags os) 0 0 s"

text \<open>\<^verbatim>\<open>strcat\<close> to \<^verbatim>\<open>Open_symbols\<close> with room for 512 characters.\<close>

definition strcat512 :: "cstr \<Rightarrow> cstr \<Rightarrow> cstr outcome" where
  "strcat512 s t = (if length s + length t < 512 then Ok (s @ t) else Fault)"

fun symbols_loop :: "cstr \<Rightarrow> (cstr \<times> int) list \<Rightarrow> int \<Rightarrow> bool \<Rightarrow> cstr \<Rightarrow> (cstr \<times> int \<times> bool) outcome" where
  "symbols_loop sep [] bits havesome acc = Ok (acc, bits, havesome)"
| "symbols_loop sep ((symbol, flag) # flags) bits havesome acc =
     (if bits AND flag = flag then
        bind_outcome (if havesome then strcat512 acc sep else Ok acc) (\<lambda>acc1.
        bind_outcome (strcat512 acc1 symbol) (\<lambda>acc2.
          symbols_loop sep flags (bits AND NOT flag) True acc2))
      else symbols_loop sep flags bits havesome acc)"

definition openflags2symbols :: "macros \<Rightarrow> int \<Rightarrow> cstr \<Rightarrow> int \<Rightarrow> cstr outcome" where
  "openflags2symbols os openflags sep mode =
     (let rdonly = (openflags AND (flag_value os ''O_WRONLY'' OR flag_value os ''O_RDWR'') = 0)
      in bind_outcome (symbols_loop sep (tl (Open_flags os)) openflags rdonly (if rdonly then ''O_RDONLY'' else []))
           (\<lambda>(acc, bits, havesome).
              if bits \<noteq> 0 \<and> mode = 1 then
                bind_outcome (if havesome then strcat512 acc sep else Ok acc) (\<lambda>acc1. strcat512 acc1 ''UNKNOWN'')
              else Ok acc))"

section \<open>Lemmas\<close>

lemma join_snoc: "join c (xs @ [x]) = (if xs = [] then x else join c xs @ c # x)"
  by (induction c xs rule: join.induct) auto

definition all_flags :: "int list \<Rightarrow> int" where
  "all_flags fs = fold (\<lambda>f b. b OR f) fs 0"

lemma fold_or: "fold (\<lambda>f b. b OR f) fs (b :: int) = b OR all_flags fs"
proof (induction fs arbitrary: b)
  case (Cons f fs)
  show ?case using Cons.IH [of "b OR f"] Cons.IH [of f] by (simp add: all_flags_def or.assoc)
qed (simp add: all_flags_def)

lemma all_flags_simps [simp]: "all_flags [] = 0" "all_flags (f # fs) = f OR all_flags fs"
  "all_flags (fs @ gs) = all_flags fs OR all_flags gs"
  using fold_or [of fs f] fold_or [of gs "all_flags fs"] by (simp_all add: all_flags_def)

lemma comma_split:
  assumes "CHR '','' \<notin> set n"
  shows "takeWhile (\<lambda>c. c \<noteq> CHR '','') n = n" "dropWhile (\<lambda>c. c \<noteq> CHR '','') n = []"
    "takeWhile (\<lambda>c. c \<noteq> CHR '','') (n @ CHR '','' # s) = n" "dropWhile (\<lambda>c. c \<noteq> CHR '','') (n @ CHR '','' # s) = CHR '','' # s"
  using assms by (auto simp: takeWhile_append dropWhile_append takeWhile_eq_all_conv)

lemma parse_loop_last:
  assumes "CHR '','' \<notin> set n"
  shows "parse_loop flags b pos n = (case map_of flags n of None \<Rightarrow> (-1, Some pos) | Some f \<Rightarrow> (b OR f, None))"
  using assms by (subst parse_loop.simps) (simp add: comma_split split: option.split)

lemma parse_loop_more:
  assumes "CHR '','' \<notin> set n" "map_of flags n = Some f"
  shows "parse_loop flags b pos (n @ CHR '','' # s) = parse_loop flags (b OR f) (pos + length n + 1) s"
  using assms by (subst parse_loop.simps) (simp add: comma_split)

text \<open>Known names, and known names followed by an unknown one.\<close>

lemma parse_loop_join:
  assumes "\<forall>(n, f) \<in> set ch. CHR '','' \<notin> set n \<and> map_of flags n = Some f" "ch \<noteq> []"
  shows "parse_loop flags b pos (join CHR '','' (map fst ch)) = (b OR all_flags (map snd ch), None)"
  using assms
proof (induction ch arbitrary: b pos)
  case (Cons nf ch)
  then show ?case by (cases ch; cases nf) (auto simp: parse_loop_last parse_loop_more or.assoc)
qed simp

lemma parse_loop_unknown:
  assumes "\<forall>(n, f) \<in> set ch. CHR '','' \<notin> set n \<and> map_of flags n = Some f"
    and "CHR '','' \<notin> set u" "map_of flags u = None"
  shows "\<exists>p. parse_loop flags b pos (join CHR '','' (map fst ch @ [u])) = (-1, Some (pos + p))
    \<and> drop p (join CHR '','' (map fst ch @ [u])) = u"
  using assms(1)
proof (induction ch arbitrary: b pos)
  case Nil
  then show ?case using assms(2,3) by (intro exI [of _ 0]) (simp add: parse_loop_last)
next
  case (Cons nf ch)
  obtain n f where nf: "nf = (n, f)" by (cases nf)
  let ?rest = "join CHR '','' (map fst ch @ [u])"
  obtain p where p: "parse_loop flags (b OR f) (pos + length n + 1) ?rest = (-1, Some (pos + length n + 1 + p))" "drop p ?rest = u"
    using Cons.IH [of "b OR f" "pos + length n + 1"] Cons.prems by auto
  have "join CHR '','' (map fst (nf # ch) @ [u]) = n @ CHR '','' # ?rest" by (cases ch) (auto simp: nf)
  with p Cons.prems show ?case by (intro exI [of _ "length n + 1 + p"]) (auto simp: nf parse_loop_more)
qed

lemma symbols_loop_chosen:
  assumes "symbols_loop '','' fl bits (ns \<noteq> []) (join CHR '','' ns) = Ok (acc, bits', some)"
  shows "\<exists>ch. set ch \<subseteq> set fl \<and> acc = join CHR '','' (ns @ map fst ch) \<and> some = (ns @ map fst ch \<noteq> [])
    \<and> bits = bits' OR all_flags (map snd ch)"
  using assms
proof (induction fl arbitrary: bits ns)
  case Nil
  then show ?case by (intro exI [of _ "[]"]) simp
next
  case (Cons nf fl)
  obtain n f where nf: "nf = (n, f)" by (cases nf)
  show ?case
  proof (cases "bits AND f = f")
    case False
    then have "symbols_loop '','' fl bits (ns \<noteq> []) (join CHR '','' ns) = Ok (acc, bits', some)" using Cons.prems nf by simp
    from Cons.IH [OF this] show ?thesis by (metis set_subset_Cons subset_trans)
  next
    case True
    have "symbols_loop '','' fl (bits AND NOT f) (ns @ [n] \<noteq> []) (join CHR '','' (ns @ [n])) = Ok (acc, bits', some)"
      using Cons.prems True by (auto simp: nf join_snoc strcat512_def split: if_splits)
    from Cons.IH [OF this] obtain ch where ch: "set ch \<subseteq> set fl" "acc = join CHR '','' ((ns @ [n]) @ map fst ch)"
      "some = ((ns @ [n]) @ map fst ch \<noteq> [])" "bits AND NOT f = bits' OR all_flags (map snd ch)" by blast
    have "bits = (bits AND NOT f) OR f"
      using True by (metis (no_types, opaque_lifting) and.commute bit.conj_cancel_right bit.conj_disj_distrib bit.disj_cancel_right bit.conj_one_right or.commute)
    then have "bits = bits' OR all_flags (map snd ((n, f) # ch))" using ch(4) by (simp add: ac_simps)
    with ch show ?thesis by (intro exI [of _ "(n, f) # ch"]) (auto simp: nf)
  qed
qed

lemma flag_names_facts:
  "distinct (map snd flag_names)" "\<forall>n \<in> set (map snd flag_names). CHR '','' \<notin> set n"
  "''UNKNOWN'' \<notin> set (map snd flag_names)"
  by (simp_all add: flag_names_def)

lemma Open_flags_names: "map fst (Open_flags os) = map snd (filter (guarded (with_fsa os)) flag_names)"
  by (simp add: Open_flags_def)

lemma Open_flags_facts:
  "distinct (map fst (Open_flags os))" "\<forall>n \<in> set (map fst (Open_flags os)). CHR '','' \<notin> set n"
  "''UNKNOWN'' \<notin> set (map fst (Open_flags os))"
  using flag_names_facts unfolding Open_flags_names by (auto simp: distinct_map_filter)

lemma Open_flags_rdonly: "Open_flags os = (''O_RDONLY'', flag_value os ''O_RDONLY'') # tl (Open_flags os)"
proof -
  have "filter (guarded (with_fsa os)) flag_names = (Always, ''O_RDONLY'') # filter (guarded (with_fsa os)) (tl flag_names)"
    by (simp add: flag_names_def guarded_def)
  then show ?thesis by (simp add: Open_flags_def flag_value_def with_fsa_def)
qed

lemma Open_flags_lookup: "(n, f) \<in> set (Open_flags os) \<Longrightarrow> CHR '','' \<notin> set n \<and> map_of (Open_flags os) n = Some f"
  using Open_flags_facts [of os] by (force intro: map_of_is_SomeI)

lemma unknown_lookup: "map_of (Open_flags os) ''UNKNOWN'' = None"
  using Open_flags_facts(3) [of os] by (simp add: map_of_eq_None_iff)

section \<open>Properties\<close>


definition demo_macros :: macros where
  "demo_macros = map_of [(''O_RDONLY'', 0), (''O_WRONLY'', 1), (''O_RDWR'', 2), (''O_CREAT'', 64), (''O_EXCL'', 128),
     (''O_TRUNC'', 512), (''O_APPEND'', 1024), (''O_NONBLOCK'', 2048), (''O_SYNC'', 1052672)]"

lemma demo_symbols: "openflags2symbols demo_macros 577 '','' 1 = Ok ''O_WRONLY,O_CREAT,O_TRUNC''"
  by code_simp


end
