(* ===== verification/Kver.thy ===== *)
theory Kver
  imports Tst_Res
begin

text \<open>
  Comparing kernel versions: \<^verbatim>\<open>lib/tst_kvercmp.c\<close>. The release string \<^verbatim>\<open>uname\<close> reports is an
  argument; a string that cannot be parsed is reported through \<^verbatim>\<open>tst_resm\<close>.
\<close>

section \<open>Definitions\<close>

subsection \<open>Numbers in strings\<close>

text \<open>An unsigned 64-bit result: too large a value is \<^verbatim>\<open>ULONG_MAX\<close>, a negative one is negated.\<close>

definition ulong_of :: "bool \<Rightarrow> nat \<Rightarrow> int" where
  "ulong_of neg n = (if 2 ^ 64 \<le> n then 2 ^ 64 - 1 else if neg then (- int n) mod 2 ^ 64 else int n)"

subsection \<open>Versions\<close>

text \<open>\<^verbatim>\<open>parse_digit\<close>: what is stored in \<^verbatim>\<open>*d\<close>, if anything, and the returned position, if not NULL.\<close>

definition parse_digit :: "cstr \<Rightarrow> int option \<times> cstr option" where
  "parse_digit str =
     (case scan_number str of
        None \<Rightarrow> (None, None)
      | Some (neg, n, rest) \<Rightarrow>
          (let v = ulong_of neg n
           in if v > 2 ^ 31 - 1 then (None, None)
              else (Some v, if rest \<noteq> [] \<and> hd rest = CHR ''.'' then Some (tl rest) else None)))"

definition stored :: "int option \<Rightarrow> int" where
  "stored d = (case d of None \<Rightarrow> 0 | Some v \<Rightarrow> v)"

text \<open>The three numbers, and whether the end of the function is reached without the jump to \<^verbatim>\<open>err\<close>.\<close>

definition kver_numbers :: "cstr \<Rightarrow> (int \<times> int \<times> int) \<times> bool" where
  "kver_numbers str =
     (case parse_digit str of (d1, p1) \<Rightarrow> (case p1 of
        None \<Rightarrow> ((stored d1, 0, 0), False)
      | Some s1 \<Rightarrow> (case parse_digit s1 of (d2, p2) \<Rightarrow> (case p2 of
          None \<Rightarrow> ((stored d1, stored d2, 0), False)
        | Some s2 \<Rightarrow> ((stored d1, stored d2, stored (fst (parse_digit s2))), True)))))"

definition tst_parse_kver ::
    "tst_env \<Rightarrow> (cstr \<times> int) option \<Rightarrow> cstr \<Rightarrow> tst_state \<Rightarrow> (int \<times> int \<times> int) \<times> tst_result" where
  "tst_parse_kver env loc str_kver s =
     (case kver_numbers str_kver of (vs, ok) \<Rightarrow>
        (vs, if ok then Running s
             else tst_resm env loc TWARN (''Invalid kernel version '' @ str_kver @ '', expected %d.%d.%d'') s))"

text \<open>A left shift of a negative value, or out of the range of \<^verbatim>\<open>int\<close>, is undefined.\<close>

definition shl :: "int \<Rightarrow> nat \<Rightarrow> int outcome" where
  "shl x k = (if x < 0 then Fault else checked 32 (x * 2 ^ k))"

definition kver_code :: "int \<times> int \<times> int \<Rightarrow> int outcome" where
  "kver_code v = (case v of (v1, v2, v3) \<Rightarrow>
     bind_outcome (shl v1 16) (\<lambda>x. bind_outcome (shl v2 8) (\<lambda>y.
     bind_outcome (checked 32 (x + y)) (\<lambda>z. checked 32 (z + v3)))))"

definition kver_diff :: "int \<times> int \<times> int \<Rightarrow> int \<times> int \<times> int \<Rightarrow> int outcome" where
  "kver_diff r a =
     bind_outcome (kver_code r) (\<lambda>testver. bind_outcome (kver_code a) (\<lambda>currver. checked 32 (currver - testver)))"

text \<open>The comparison, with what reporting left of the test.\<close>

definition tst_kvercmp ::
    "tst_env \<Rightarrow> (cstr \<times> int) option \<Rightarrow> cstr \<Rightarrow> int \<Rightarrow> int \<Rightarrow> int \<Rightarrow> tst_state \<Rightarrow> int outcome \<times> tst_result" where
  "tst_kvercmp env loc release r1 r2 r3 s =
     (case tst_parse_kver env loc release s of (a, t) \<Rightarrow> (kver_diff (r1, r2, r3) a, t))"

subsection \<open>Versions of distributions\<close>

text \<open>\<^verbatim>\<open>sscanf\<close> of numbers with a separator after each: the ones that were converted.\<close>

fun scan_fields :: "char list \<Rightarrow> cstr \<Rightarrow> int list" where
  "scan_fields seps s =
     (case scan_number s of
        None \<Rightarrow> []
      | Some (neg, n, rest) \<Rightarrow> int_of_scan neg n #
          (case seps of
             [] \<Rightarrow> []
           | c # cs \<Rightarrow> if rest \<noteq> [] \<and> hd rest = c then scan_fields cs (tl rest) else []))"

declare scan_fields.simps [simp del]

definition exv_numbers :: "cstr \<Rightarrow> int list" where
  "exv_numbers s =
     (let ns = scan_fields [CHR ''.'', CHR ''.'', CHR ''-'', CHR ''.''] s in ns @ replicate (5 - length ns) 0)"

fun exv_diff :: "(int \<times> int) list \<Rightarrow> int outcome" where
  "exv_diff [] = Ok 0"
| "exv_diff [(c, t)] = checked 32 (c - t)"
| "exv_diff ((c, t) # ps) =
     bind_outcome (checked 32 (c - t)) (\<lambda>ret. if ret \<noteq> 0 then Ok ret else exv_diff ps)"

definition tst_kexvcmp :: "cstr \<Rightarrow> cstr \<Rightarrow> int outcome" where
  "tst_kexvcmp tst_exv cur_ver = exv_diff (zip (exv_numbers cur_ver) (exv_numbers tst_exv))"

definition cur_dist_name :: "cstr \<Rightarrow> cstr option" where
  "cur_dist_name kver =
     (if strstr kver ''.el5uek'' then Some ''OL5UEK''
      else if strstr kver ''.el5'' then Some ''RHEL5''
      else if strstr kver ''.el6uek'' then Some ''OL6UEK''
      else if strstr kver ''.el6'' then Some ''RHEL6''
      else None)"

fun find_exv :: "cstr \<Rightarrow> (cstr \<times> cstr) list \<Rightarrow> cstr option" where
  "find_exv d [] = None"
| "find_exv d ((dist_name, extra_ver) # vers) = (if dist_name = d then Some extra_ver else find_exv d vers)"

definition tst_kvercmp2 ::
    "tst_env \<Rightarrow> (cstr \<times> int) option \<Rightarrow> cstr \<Rightarrow> int \<Rightarrow> int \<Rightarrow> int \<Rightarrow> (cstr \<times> cstr) list \<Rightarrow> tst_state \<Rightarrow> int outcome \<times> tst_result" where
  "tst_kvercmp2 env loc kver r1 r2 r3 vers s =
     (case cur_dist_name kver of
        None \<Rightarrow> tst_kvercmp env loc kver r1 r2 r3 s
      | Some d \<Rightarrow>
          (case find_exv d vers of
             Some extra_ver \<Rightarrow>
               (tst_kexvcmp extra_ver kver,
                tst_resm env loc TINFO (''Detected '' @ d @ '' using kernel version '' @ kver) s)
           | None \<Rightarrow> tst_kvercmp env loc kver r1 r2 r3 s))"

section \<open>Lemmas\<close>

lemma not_digit_marks [simp]: "\<not> is_digit CHR ''.''" "\<not> is_digit CHR ''-''"
  by (simp_all add: is_digit_def)

lemma parse_digit_dec:
  assumes "rest = [] \<or> \<not> is_digit (hd rest)" "n < 2 ^ 31"
  shows "parse_digit (dec_nat n @ rest)
    = (Some (int n), if rest \<noteq> [] \<and> hd rest = CHR ''.'' then Some (tl rest) else None)"
  using assms by (simp add: parse_digit_def scan_number_dec ulong_of_def)

text \<open>A release string of three numbers and one of two.\<close>

definition release3 :: "nat \<Rightarrow> nat \<Rightarrow> nat \<Rightarrow> cstr \<Rightarrow> cstr" where
  "release3 a1 a2 a3 rest = dec_nat a1 @ ''.'' @ dec_nat a2 @ ''.'' @ dec_nat a3 @ rest"

definition release2 :: "nat \<Rightarrow> nat \<Rightarrow> cstr \<Rightarrow> cstr" where
  "release2 a1 a2 rest = dec_nat a1 @ ''.'' @ dec_nat a2 @ rest"

lemma kver_numbers_release3:
  assumes "rest = [] \<or> \<not> is_digit (hd rest)" "a1 < 2 ^ 31" "a2 < 2 ^ 31" "a3 < 2 ^ 31"
  shows "kver_numbers (release3 a1 a2 a3 rest) = ((int a1, int a2, int a3), True)"
  using assms by (simp add: kver_numbers_def release3_def parse_digit_dec stored_def)

lemma kver_numbers_release2:
  assumes "rest = [] \<or> \<not> is_digit (hd rest) \<and> hd rest \<noteq> CHR ''.''" "a1 < 2 ^ 31" "a2 < 2 ^ 31"
  shows "kver_numbers (release2 a1 a2 rest) = ((int a1, int a2, 0), False)"
proof -
  have "parse_digit (dec_nat a2 @ rest) = (Some (int a2), None)"
    using assms parse_digit_dec [of rest a2] by auto
  then show ?thesis using assms by (simp add: kver_numbers_def release2_def parse_digit_dec stored_def)
qed

definition small_version :: "int \<times> int \<times> int \<Rightarrow> bool" where
  "small_version v = (case v of (v1, v2, v3) \<Rightarrow>
     0 \<le> v1 \<and> v1 < 2 ^ 14 \<and> 0 \<le> v2 \<and> v2 < 256 \<and> 0 \<le> v3 \<and> v3 < 256)"

definition version_code :: "int \<times> int \<times> int \<Rightarrow> int" where
  "version_code v = (case v of (v1, v2, v3) \<Rightarrow> v1 * 65536 + v2 * 256 + v3)"

lemma kver_code_small:
  assumes "small_version v"
  shows "kver_code v = Ok (version_code v)" "0 \<le> version_code v" "version_code v < 2 ^ 30"
  using assms by (auto simp: small_version_def kver_code_def version_code_def shl_def checked_def in_width_def split: prod.splits)

lemma kver_diff_small:
  assumes "small_version r" "small_version a"
  shows "kver_diff r a = Ok (version_code a - version_code r)"
  using kver_code_small [OF assms(1)] kver_code_small [OF assms(2)] by (simp add: kver_diff_def checked_def in_width_def)

text \<open>The order of versions: by the first number that differs.\<close>

definition version_less :: "int \<times> int \<times> int \<Rightarrow> int \<times> int \<times> int \<Rightarrow> bool" where
  "version_less v w = (case (v, w) of ((v1, v2, v3), (w1, w2, w3)) \<Rightarrow>
     v1 < w1 \<or> v1 = w1 \<and> (v2 < w2 \<or> v2 = w2 \<and> v3 < w3))"

lemma version_code_less:
  assumes "small_version v" "small_version w"
  shows "version_code v < version_code w \<longleftrightarrow> version_less v w"
proof -
  obtain v1 v2 v3 w1 w2 w3 where vw: "v = (v1, v2, v3)" "w = (w1, w2, w3)" by (metis prod_cases3)
  have b: "0 \<le> v2" "v2 < 256" "0 \<le> v3" "v3 < 256" "0 \<le> w2" "w2 < 256" "0 \<le> w3" "w3 < 256"
    using assms by (auto simp: vw small_version_def)
  consider "v1 < w1" | "w1 < v1" | "v1 = w1" by linarith
  then show ?thesis using b by cases (auto simp: vw version_code_def version_less_def)
qed

fun first_less :: "(int \<times> int) list \<Rightarrow> bool" where
  "first_less [] = False"
| "first_less ((c, t) # ps) = (c < t \<or> c = t \<and> first_less ps)"

lemma exv_diff_sign:
  assumes "\<forall>(c, t) \<in> set ps. 0 \<le> c \<and> c < 2 ^ 31 \<and> 0 \<le> t \<and> t < 2 ^ 31"
  shows "\<exists>d. exv_diff ps = Ok d \<and> (d < 0 \<longleftrightarrow> first_less ps) \<and> (d = 0 \<longleftrightarrow> (\<forall>(c, t) \<in> set ps. c = t))"
  using assms by (induction ps rule: exv_diff.induct) (auto simp: checked_def in_width_def)

lemma scan_fields_dec:
  assumes "rest = [] \<or> \<not> is_digit (hd rest)" "n < 2 ^ 31"
  shows "scan_fields seps (dec_nat n @ rest) = int n #
    (case seps of [] \<Rightarrow> [] | c # cs \<Rightarrow> if rest \<noteq> [] \<and> hd rest = c then scan_fields cs (tl rest) else [])"
  using assms by (subst scan_fields.simps) (simp add: scan_number_dec int_of_scan_def to_int32_id split: list.split)

definition release5 :: "nat \<times> nat \<times> nat \<times> nat \<times> nat \<Rightarrow> cstr \<Rightarrow> cstr" where
  "release5 v rest = (case v of (a, b, c, d, e) \<Rightarrow>
     dec_nat a @ ''.'' @ dec_nat b @ ''.'' @ dec_nat c @ ''-'' @ dec_nat d @ ''.'' @ dec_nat e @ rest)"

lemma exv_numbers_release5:
  assumes "rest = [] \<or> \<not> is_digit (hd rest)" "max (max (max a b) (max c d)) e < 2 ^ 31"
  shows "exv_numbers (release5 (a, b, c, d, e) rest) = map int [a, b, c, d, e]"
  using assms by (simp add: exv_numbers_def release5_def scan_fields_dec)

text \<open>On a kernel of a listed distribution the five numbers decide, by the first that differs.\<close>

lemma kvercmp2_listed:
  assumes "cur_dist_name kver = Some d" "find_exv d vers = Some exv"
    and "kver = release5 v rest" "exv = release5 w rest'" "v = (a, b, c, e, f)" "w = (a', b', c', e', f')"
    and "rest = [] \<or> \<not> is_digit (hd rest)" "rest' = [] \<or> \<not> is_digit (hd rest')"
    and "max (max (max a b) (max c e)) f < 2 ^ 31" "max (max (max a' b') (max c' e')) f' < 2 ^ 31"
  shows "\<exists>k. fst (tst_kvercmp2 env loc kver r1 r2 r3 vers s) = Ok k \<and> (k = 0 \<longleftrightarrow> v = w)
    \<and> (k < 0 \<longleftrightarrow> first_less (zip (map int [a, b, c, e, f]) (map int [a', b', c', e', f'])))"
proof -
  define ps where "ps = zip (map int [a, b, c, e, f]) (map int [a', b', c', e', f'])"
  have "fst (tst_kvercmp2 env loc kver r1 r2 r3 vers s) = exv_diff ps"
    using assms exv_numbers_release5 [of rest a b c e f] exv_numbers_release5 [of rest' a' b' c' e' f']
    by (simp add: tst_kvercmp2_def tst_kexvcmp_def ps_def)
  moreover have "\<forall>(x, y) \<in> set ps. 0 \<le> x \<and> x < 2 ^ 31 \<and> 0 \<le> y \<and> y < 2 ^ 31"
    using assms(9,10) by (auto simp: ps_def)
  note exv_diff_sign [OF this]
  moreover have "(\<forall>(x, y) \<in> set ps. x = y) \<longleftrightarrow> v = w" using assms(5,6) by (auto simp: ps_def)
  ultimately show ?thesis unfolding ps_def [symmetric] by auto
qed

section \<open>Properties\<close>

text \<open>
  C39: while second and third numbers are below 256, \<^verbatim>\<open>tst_kvercmp\<close> on a release of three numbers
  reports nothing and returns a negative number, zero or a positive one exactly as the running kernel
  is older than, the same as or newer than the version asked for.
\<close>

theorem kvercmp_orders:
  assumes "rest = [] \<or> \<not> is_digit (hd rest)"
    and "small_version (int a1, int a2, int a3)" "small_version (r1, r2, r3)"
  shows "\<exists>d. tst_kvercmp env loc (release3 a1 a2 a3 rest) r1 r2 r3 s = (Ok d, Running s)
    \<and> (d < 0 \<longleftrightarrow> version_less (int a1, int a2, int a3) (r1, r2, r3))
    \<and> (d > 0 \<longleftrightarrow> version_less (r1, r2, r3) (int a1, int a2, int a3))"
proof -
  have "kver_numbers (release3 a1 a2 a3 rest) = ((int a1, int a2, int a3), True)"
    using assms(2) by (intro kver_numbers_release3 assms(1)) (auto simp: small_version_def)
  then have "tst_kvercmp env loc (release3 a1 a2 a3 rest) r1 r2 r3 s
      = (Ok (version_code (int a1, int a2, int a3) - version_code (r1, r2, r3)), Running s)"
    using kver_diff_small [OF assms(3,2)] by (simp add: tst_kvercmp_def tst_parse_kver_def)
  then show ?thesis
    using version_code_less [OF assms(2,3)] version_code_less [OF assms(3,2)] by simp
qed

theorem kvercmp_orders_witness:
  "\<exists>d. tst_kvercmp demo_env None (release3 3 10 7 ''-1160'') 3 9 200 (fresh_state VERBOSE) = (Ok d, Running (fresh_state VERBOSE))
    \<and> d > 0"
  using kvercmp_orders [of "''-1160''" 3 10 7 3 9 200 demo_env None "fresh_state VERBOSE"]
  by (auto simp: small_version_def version_less_def)

text \<open>
  A third number of 256 or more, as the long-term kernels 4.4 and 4.9 have reached it, is carried
  into the second: \<^verbatim>\<open>tst_kvercmp\<close> cannot tell 4.4.256 from 4.5.0.
\<close>

lemma kvercmp_carries:
  assumes "rest = [] \<or> \<not> is_digit (hd rest)" "a1 < 2 ^ 14" "a2 < 255" "k < 256"
  shows "tst_kvercmp env loc (release3 a1 a2 (256 + k) rest) r1 r2 r3 s
    = tst_kvercmp env loc (release3 a1 (a2 + 1) k rest) r1 r2 r3 s"
proof -
  have "kver_code (int a1, int a2, int (256 + k)) = kver_code (int a1, int (a2 + 1), int k)"
    using assms(2-4) by (simp add: kver_code_def shl_def checked_def in_width_def)
  then have "kver_diff (r1, r2, r3) (int a1, int a2, int (256 + k)) = kver_diff (r1, r2, r3) (int a1, int (a2 + 1), int k)"
    by (simp only: kver_diff_def)
  then show ?thesis using assms(2-4)
    by (simp add: tst_kvercmp_def tst_parse_kver_def kver_numbers_release3 [OF assms(1)])
qed

text \<open>
  A release of two numbers, such as 2.4, which the comment in \<^verbatim>\<open>tst_parse_kver\<close> says must not
  fail, is read correctly but reported as invalid: the warning becomes part of the test's exit status.
\<close>

lemma kver_two_numbers_warn:
  assumes "rest = [] \<or> \<not> is_digit (hd rest) \<and> hd rest \<noteq> CHR ''.''" "a1 < 2 ^ 31" "a2 < 2 ^ 31" "res_inv s"
    and "tst_parse_kver env loc (release2 a1 a2 rest) s = (vs, Running s')"
  shows "vs = (int a1, int a2, 0) \<and> T_exitval s' = T_exitval s OR TWARN"
proof -
  have vs: "vs = (int a1, int a2, 0)"
    and run: "tst_resm env loc TWARN (''Invalid kernel version '' @ release2 a1 a2 rest @ '', expected %d.%d.%d'') s = Running s'"
    using assms(5) kver_numbers_release2 [OF assms(1-3)] by (simp_all add: tst_parse_kver_def)
  have "TTYPE_RESULT TWARN = TWARN" by (simp add: TTYPE_RESULT_def TWARN_def)
  with run tst_res_exitval [OF _ assms(4), of env loc TWARN] vs show ?thesis
    by (auto simp: tst_resm_def split: if_splits)
qed

end
