(* ===== verification/Parse_Opts.thy ===== *)
theory Parse_Opts
  imports Kver
begin

text \<open>
  Standard options and the loop of a test: \<^verbatim>\<open>lib/parse_opts.c\<close> and \<^verbatim>\<open>lib/tst_parse_opts.c\<close>. The
  results of \<^verbatim>\<open>getopt\<close>, the environment, the clock and the operations on \<^verbatim>\<open>float\<close> are arguments. The variant for
  machines without memory management (\<^verbatim>\<open>UCLINUX\<close>) is left out.
\<close>

section \<open>Definitions\<close>

subsection \<open>Values\<close>

text \<open>\<^verbatim>\<open>float\<close>: conversion from text by \<^verbatim>\<open>atof\<close> and by \<^verbatim>\<open>%f\<close>, tests, microseconds as \<^verbatim>\<open>uint64_t\<close>, and printing.\<close>

record 'f float_ops =
  f_atof :: "cstr \<Rightarrow> 'f"
  f_scan :: "cstr \<Rightarrow> 'f option"
  f_zero :: "'f \<Rightarrow> bool"
  f_nonneg :: "'f \<Rightarrow> bool"
  f_usecs :: "'f \<Rightarrow> nat"
  f_show :: "'f \<Rightarrow> cstr"

definition digit_of :: "char \<Rightarrow> nat" where
  "digit_of c =
     (let n = of_char c :: nat
      in if 48 \<le> n \<and> n \<le> 57 then n - 48
         else if 97 \<le> n \<and> n \<le> 102 then n - 87
         else if 65 \<le> n \<and> n \<le> 70 then n - 55 else 16)"

fun base_val :: "nat \<Rightarrow> nat \<Rightarrow> cstr \<Rightarrow> nat" where
  "base_val b acc [] = acc"
| "base_val b acc (c # cs) = (if digit_of c < b then base_val b (b * acc + digit_of c) cs else acc)"

text \<open>\<^verbatim>\<open>sscanf(s, "%i", &k)\<close>: decimal, octal after 0 or hexadecimal after 0x.\<close>

definition scan_i :: "cstr \<Rightarrow> int option" where
  "scan_i s =
     (let s1 = dropWhile is_space s;
          signed = (s1 \<noteq> [] \<and> (hd s1 = CHR ''-'' \<or> hd s1 = CHR ''+''));
          s2 = (if signed then tl s1 else s1);
          hexa = (take 2 s2 = ''0x'' \<or> take 2 s2 = ''0X'') \<and> drop 2 s2 \<noteq> [] \<and> digit_of (hd (drop 2 s2)) < 16;
          base = (if hexa then 16 else if take 1 s2 = ''0'' then 8 else 10)
      in if s2 = [] \<or> digit_of (hd s2) \<ge> base then None
         else Some (int_of_scan (signed \<and> hd s1 = CHR ''-'') (base_val base 0 (if hexa then drop 2 s2 else s2))))"

subsection \<open>Options\<close>

text \<open>\<^verbatim>\<open>option_t\<close>: the option string and whether there are places for flag and argument.\<close>

record user_opt =
  uo_option :: cstr
  uo_flag :: bool
  uo_arg :: bool

text \<open>
  The static variables, the flags and arguments of the user's options by their index, and what was printed.
  \<open>bigstack\<close> tells that \<^verbatim>\<open>STD_bigstack\<close> is not NULL.
\<close>

record 'f std =
  STD_PAUSE :: bool
  STD_INFINITE :: bool
  STD_LOOP_COUNT :: int
  STD_LOOP_DURATION :: 'f
  STD_LOOP_DELAY :: 'f
  STD_argind :: int
  STD_TP_barrier :: int
  STD_LP_barrier :: int
  STD_TP_shmem_sz :: int
  STD_LD_shmem :: int
  STD_LP_shmem :: int
  STD_LD_recfun :: int
  STD_LP_recfun :: int
  STD_TP_sbrk :: int
  STD_LP_sbrk :: int
  bigstack :: bool
  Debug :: bool
  u_flags :: "nat set"
  u_args :: "nat \<rightharpoonup> cstr"
  p_out :: cstr

definition std_options :: "cstr list" where
  "std_options = [''h'', ''i:'', ''I:'', ''p'', ''P:'']"

text \<open>\<^verbatim>\<open>strcat\<close> to a block of \<open>size\<close> bytes.\<close>

definition strcat_to :: "nat \<Rightarrow> cstr \<Rightarrow> cstr \<Rightarrow> cstr outcome" where
  "strcat_to n s t = (if length s + length t < n then Ok (s @ t) else Fault)"

fun add_std :: "nat \<Rightarrow> cstr list \<Rightarrow> cstr \<Rightarrow> cstr outcome" where
  "add_std n [] s = Ok s"
| "add_std n (optstr # opts) s = bind_outcome (strcat_to n s optstr) (add_std n opts)"

text \<open>\<^verbatim>\<open>strchr\<close> finds the end of the string for the option that is empty.\<close>

fun add_user :: "nat \<Rightarrow> user_opt list \<Rightarrow> cstr \<Rightarrow> cstr outcome" where
  "add_user n [] s = Ok s"
| "add_user n (u # us) s =
     (if uo_option u \<noteq> [] \<and> hd (uo_option u) \<notin> set s
      then bind_outcome (strcat_to n s (uo_option u)) (add_user n us) else add_user n us s)"

definition optstrlen :: "user_opt list \<Rightarrow> nat" where
  "optstrlen us = sum_list (map length std_options) + sum_list (map (length \<circ> uo_option) us) + 1"

text \<open>The string for \<^verbatim>\<open>getopt\<close>, or the text that is returned instead.\<close>

definition make_optionstr :: "bool \<Rightarrow> user_opt list option \<Rightarrow> (cstr + cstr) outcome" where
  "make_optionstr mem user =
     (let us = (case user of None \<Rightarrow> [] | Some us \<Rightarrow> us)
      in if \<exists>u \<in> set us. length (uo_option u) > 2 then Ok (Inl ''parse_opts: ERROR - Only short options are allowed'')
         else if \<not> mem then Ok (Inl ''parse_opts: ERROR - Could not allocate memory for optionstr'')
         else bind_outcome (add_std (optstrlen us) std_options []) (\<lambda>s.
              bind_outcome (add_user (optstrlen us) us s) (\<lambda>t. Ok (Inr t))))"

fun find_user :: "char \<Rightarrow> nat \<Rightarrow> user_opt list \<Rightarrow> (nat \<times> user_opt) option" where
  "find_user c i [] = None"
| "find_user c i (u # us) =
     (if uo_option u \<noteq> [] \<and> hd (uo_option u) = c then Some (i, u) else find_user c (Suc i) us)"

text \<open>The bits \<^verbatim>\<open>OPT_iteration\<close>, \<^verbatim>\<open>OPT_duration\<close> and \<^verbatim>\<open>OPT_delay\<close> of \<^verbatim>\<open>options\<close>.\<close>

record opt_bits =
  OPT_iteration :: bool
  OPT_duration :: bool
  OPT_delay :: bool

definition user_option ::
    "user_opt list option \<Rightarrow> char \<Rightarrow> cstr \<Rightarrow> 'f std \<Rightarrow> (cstr option \<times> 'f std) outcome" where
  "user_option user c arg o1 =
     (case user of
        None \<Rightarrow> Fault
      | Some us \<Rightarrow>
          (case find_user c 0 us of
             None \<Rightarrow> Ok (Some (''parse_opts: ERROR - option:\"'' @ [c] @ ''\" NOT FOUND... INTERNAL ERROR''), o1)
           | Some (i, u) \<Rightarrow>
               (let o2 = (if uo_flag u then o1 \<lparr>u_flags := insert i (u_flags o1)\<rparr> else o1)
                in if last (uo_option u) = CHR '':'' then
                     (if uo_arg u then Ok (None, o2 \<lparr>u_args := (u_args o2)(i \<mapsto> arg)\<rparr>) else Fault)
                   else Ok (None, o2))))"

text \<open>One result of \<^verbatim>\<open>getopt\<close>: the option character, its argument and \<^verbatim>\<open>optind\<close>. The text of \<^verbatim>\<open>-h\<close> is left out.\<close>

definition opt_round ::
    "'f float_ops \<Rightarrow> user_opt list option \<Rightarrow> char \<times> cstr \<times> int \<Rightarrow> opt_bits \<times> 'f std
      \<Rightarrow> (cstr option \<times> opt_bits \<times> 'f std) outcome" where
  "opt_round F user r st = (case (r, st) of ((c, arg, ind), (b, o0)) \<Rightarrow>
     let o1 = o0 \<lparr>STD_argind := ind\<rparr>
     in if c = CHR ''?'' then Ok (Some ''Unknown option'', b, o1)
        else if c = CHR '':'' then Ok (Some ''Missing argument'', b, o1)
        else if c = CHR ''i'' then
          (let o2 = o1 \<lparr>STD_LOOP_COUNT := atoi arg\<rparr>
           in Ok (None, b \<lparr>OPT_iteration := True\<rparr>, if atoi arg = 0 then o2 \<lparr>STD_INFINITE := True\<rparr> else o2))
        else if c = CHR ''P'' then Ok (None, b \<lparr>OPT_delay := True\<rparr>, o1 \<lparr>STD_LOOP_DELAY := f_atof F arg\<rparr>)
        else if c = CHR ''I'' then
          (let o2 = o1 \<lparr>STD_LOOP_DURATION := f_atof F arg\<rparr>
           in Ok (None, b \<lparr>OPT_duration := True\<rparr>, if f_zero F (f_atof F arg) then o2 \<lparr>STD_INFINITE := True\<rparr> else o2))
        else if c = CHR ''p'' then Ok (None, b, o1 \<lparr>STD_PAUSE := True\<rparr>)
        else if c = CHR ''h'' then Exit 0
        else bind_outcome (user_option user c arg o1) (\<lambda>(e, o2). Ok (e, b, o2)))"

fun opt_loop ::
    "'f float_ops \<Rightarrow> user_opt list option \<Rightarrow> (char \<times> cstr \<times> int) list \<Rightarrow> opt_bits \<times> 'f std
      \<Rightarrow> (cstr option \<times> opt_bits \<times> 'f std) outcome" where
  "opt_loop F user [] st = Ok (None, st)"
| "opt_loop F user (r # rs) st =
     bind_outcome (opt_round F user r st) (\<lambda>(e, st').
       case e of Some m \<Rightarrow> Ok (Some m, st') | None \<Rightarrow> opt_loop F user rs st')"

subsection \<open>The environment\<close>

type_synonym environ = "cstr \<Rightarrow> cstr option"

definition say :: "bool \<Rightarrow> cstr \<Rightarrow> 'f std \<Rightarrow> 'f std" where
  "say on t o1 = (if on then o1 \<lparr>p_out := p_out o1 @ t @ [newline]\<rparr> else o1)"

definition env_debug :: "environ \<Rightarrow> 'f std \<Rightarrow> 'f std" where
  "env_debug env o0 =
     (let o1 = (if env ''USC_DEBUG'' \<noteq> None
                then say True ''env USC_DEBUG is defined, turning on debug'' (o0 \<lparr>Debug := True\<rparr>) else o0)
      in if env ''USC_VERBOSE'' \<noteq> None
         then say True ''env USC_VERBOSE is defined, turning on debug'' (o1 \<lparr>Debug := True\<rparr>) else o1)"

definition env_iterations :: "environ \<Rightarrow> opt_bits \<Rightarrow> 'f std \<Rightarrow> 'f std" where
  "env_iterations env b o0 =
     (if OPT_iteration b then o0
      else case env ''USC_ITERATIONS'' of
        None \<Rightarrow> o0
      | Some ptr \<Rightarrow> (case scan_i ptr of
          None \<Rightarrow> o0
        | Some k \<Rightarrow>
            if k = 0 then say (Debug o0) ''Using env USC_ITERATIONS, set STD_INFINITE to 1'' (o0 \<lparr>STD_INFINITE := True\<rparr>)
            else say (Debug o0) (''Using env USC_ITERATIONS, set STD_LOOP_COUNT to '' @ dec_int k) (o0 \<lparr>STD_LOOP_COUNT := k\<rparr>)))"

definition env_duration :: "'f float_ops \<Rightarrow> environ \<Rightarrow> cstr \<Rightarrow> opt_bits \<Rightarrow> 'f std \<Rightarrow> 'f std" where
  "env_duration F env name b o0 =
     (if OPT_duration b then o0
      else case env name of
        None \<Rightarrow> o0
      | Some ptr \<Rightarrow> (case f_scan F ptr of
          None \<Rightarrow> o0
        | Some ftmp \<Rightarrow>
            if f_nonneg F ftmp then
              (let o1 = say (Debug o0) (''Using env '' @ name @ '', set STD_LOOP_DURATION to '' @ f_show F ftmp)
                     (o0 \<lparr>STD_LOOP_DURATION := ftmp\<rparr>)
               in if f_zero F ftmp
                  then say (Debug o0) (''Using env '' @ name @ '', set STD_INFINITE to 1'') (o1 \<lparr>STD_INFINITE := True\<rparr>)
                  else o1)
            else o0))"

definition env_delay :: "'f float_ops \<Rightarrow> environ \<Rightarrow> opt_bits \<Rightarrow> 'f std \<Rightarrow> 'f std" where
  "env_delay F env b o0 =
     (if OPT_delay b then o0
      else case env ''USC_LOOP_DELAY'' of
        None \<Rightarrow> o0
      | Some ptr \<Rightarrow> (case f_scan F ptr of
          None \<Rightarrow> o0
        | Some ftmp \<Rightarrow>
            if f_nonneg F ftmp
            then say (Debug o0) (''Using env USC_LOOP_DELAY, set STD_LOOP_DELAY = '' @ f_show F ftmp) (o0 \<lparr>STD_LOOP_DELAY := ftmp\<rparr>)
            else o0))"

text \<open>The two barriers: any text that is not a number that is not negative counts as 1.\<close>

definition env_barrier ::
    "environ \<Rightarrow> cstr \<Rightarrow> cstr \<Rightarrow> (int \<Rightarrow> 'f std \<Rightarrow> 'f std) \<Rightarrow> 'f std \<Rightarrow> 'f std" where
  "env_barrier env name var put o0 =
     (case env name of
        None \<Rightarrow> o0
      | Some ptr \<Rightarrow>
          (let k = (case scan_i ptr of Some k \<Rightarrow> (if k \<ge> 0 then k else 1) | None \<Rightarrow> 1)
           in say (Debug o0) (''using env '' @ name @ '', Set '' @ var @ '' to '' @ dec_int k) (put k o0)))"

definition env_number ::
    "environ \<Rightarrow> cstr \<Rightarrow> cstr \<Rightarrow> (int \<Rightarrow> 'f std \<Rightarrow> 'f std) \<Rightarrow> 'f std \<Rightarrow> 'f std" where
  "env_number env name var put o0 =
     (case env name of
        None \<Rightarrow> o0
      | Some ptr \<Rightarrow> (case scan_i ptr of
          None \<Rightarrow> o0
        | Some k \<Rightarrow>
            if k \<ge> 0 then say (Debug o0) (''Using env '' @ name @ '', Set '' @ var @ '' to '' @ dec_int k) (put k o0) else o0))"

text \<open>
  For the recursive function a stack block is allocated only where there is one already; \<open>mem\<close> tells
  whether \<^verbatim>\<open>malloc\<close> succeeds.
\<close>

definition put_recfun :: "bool \<Rightarrow> (int \<Rightarrow> 'f std \<Rightarrow> 'f std) \<Rightarrow> int \<Rightarrow> 'f std \<Rightarrow> 'f std" where
  "put_recfun mem put k o0 = (let o1 = put k o0 in if bigstack o1 then o1 \<lparr>bigstack := mem\<rparr> else o1)"

definition env_hooks :: "bool \<Rightarrow> environ \<Rightarrow> 'f std \<Rightarrow> 'f std" where
  "env_hooks mem env o0 =
     (let o1 = env_barrier env ''USC_TP_BARRIER'' ''STD_TP_barrier'' (\<lambda>k x. x \<lparr>STD_TP_barrier := k\<rparr>) o0;
          o2 = env_barrier env ''USC_LP_BARRIER'' ''STD_LP_barrier'' (\<lambda>k x. x \<lparr>STD_LP_barrier := k\<rparr>) o1;
          o3 = env_number env ''USC_TP_SHMEM'' ''STD_TP_shmem_sz'' (\<lambda>k x. x \<lparr>STD_TP_shmem_sz := k\<rparr>) o2;
          o4 = env_number env ''USC_LP_SHMEM'' ''STD_LP_shmem'' (\<lambda>k x. x \<lparr>STD_LP_shmem := k\<rparr>) o3;
          o5 = env_number env ''USC_LD_SHMEM'' ''STD_LD_shmem'' (\<lambda>k x. x \<lparr>STD_LD_shmem := k\<rparr>) o4;
          o6 = env_number env ''USC_TP_SBRK'' ''STD_TP_sbrk'' (\<lambda>k x. x \<lparr>STD_TP_sbrk := k\<rparr>) o5;
          o7 = env_number env ''USC_LP_SBRK'' ''STD_LP_sbrk'' (\<lambda>k x. x \<lparr>STD_LP_sbrk := k\<rparr>) o6;
          o8 = env_number env ''USC_LP_RECFUN'' ''STD_LP_recfun'' (put_recfun mem (\<lambda>k x. x \<lparr>STD_LP_recfun := k\<rparr>)) o7
      in env_number env ''USC_LD_RECFUN'' ''STD_LD_recfun'' (put_recfun mem (\<lambda>k x. x \<lparr>STD_LD_recfun := k\<rparr>)) o8)"

definition parse_env :: "'f float_ops \<Rightarrow> bool \<Rightarrow> environ \<Rightarrow> opt_bits \<Rightarrow> 'f std \<Rightarrow> 'f std" where
  "parse_env F mem env b o0 =
     (let o1 = env_iterations env b (env_debug env o0);
          o2 = env_duration F env ''USC_LOOP_WALLTIME'' b o1;
          o3 = env_duration F env ''USC_DURATION'' b o2
      in env_hooks mem env (env_delay F env b o3))"

text \<open>
  \<open>mem\<close> is whether \<^verbatim>\<open>malloc\<close> succeeds, \<open>rs\<close> what \<^verbatim>\<open>getopt\<close> returns and \<open>ind\<close> its \<^verbatim>\<open>optind\<close> in the end.
\<close>

definition parse_opts ::
    "'f float_ops \<Rightarrow> bool \<Rightarrow> environ \<Rightarrow> user_opt list option \<Rightarrow> (char \<times> cstr \<times> int) list \<Rightarrow> int \<Rightarrow> 'f std
      \<Rightarrow> (cstr option \<times> 'f std) outcome" where
  "parse_opts F mem env user rs ind o0 =
     bind_outcome (make_optionstr mem user) (\<lambda>m. case m of
       Inl e \<Rightarrow> Ok (Some e, o0)
     | Inr optionstr \<Rightarrow>
         bind_outcome (opt_loop F user rs (\<lparr>OPT_iteration = False, OPT_duration = False, OPT_delay = False\<rparr>, o0)) (\<lambda>(e, b, o1).
           case e of
             Some t \<Rightarrow> Ok (Some t, o1)
           | None \<Rightarrow> Ok (None, parse_env F mem env b (o1 \<lparr>STD_argind := ind\<rparr>))))"

definition tst_parse_opts ::
    "'f float_ops \<Rightarrow> bool \<Rightarrow> environ \<Rightarrow> tst_env \<Rightarrow> (cstr \<times> int) option \<Rightarrow> user_opt list option \<Rightarrow> (char \<times> cstr \<times> int) list \<Rightarrow> int
      \<Rightarrow> 'f std \<Rightarrow> tst_state \<Rightarrow> ('f std \<times> tst_result) outcome" where
  "tst_parse_opts F mem env tenv loc user rs ind o0 s =
     bind_outcome (parse_opts F mem env user rs ind o0) (\<lambda>(msg, o1). Ok (o1, case msg of
       None \<Rightarrow> Running s
     | Some m \<Rightarrow> tst_brkm tenv loc TBROK None (''OPTION PARSING ERROR - '' @ m) s))"

subsection \<open>The test loop\<close>

text \<open>
  The static variables of \<^verbatim>\<open>usc_test_looping\<close>, how often the clock was read, the bytes asked of \<^verbatim>\<open>sbrk\<close>
  and whether the test has waited for \<^verbatim>\<open>SIGUSR1\<close>.
  The lines the loop prints for debugging are left out.
\<close>

record loop_state =
  l_first :: bool
  l_stop_time :: nat
  l_delay :: nat
  l_reads :: nat
  l_sbrk :: int
  l_paused :: bool

definition usc_global_setup_hook :: "'f std \<Rightarrow> loop_state \<Rightarrow> loop_state" where
  "usc_global_setup_hook o1 st =
     (let st1 = (if STD_PAUSE o1 then st \<lparr>l_paused := True\<rparr> else st)
      in if STD_TP_sbrk o1 \<noteq> 0 then st1 \<lparr>l_sbrk := l_sbrk st1 + STD_TP_sbrk o1\<rparr> else st1)"

text \<open>The call of the recursive function, which has no effect of its own, reads \<^verbatim>\<open>*STD_bigstack\<close>.\<close>

definition recfun_faults :: "int \<Rightarrow> 'f std \<Rightarrow> bool" where
  "recfun_faults n o1 \<longleftrightarrow> n \<noteq> 0 \<and> \<not> bigstack o1"

partial_function (option) delay_loop :: "bool \<Rightarrow> (nat \<Rightarrow> nat) \<Rightarrow> nat \<Rightarrow> nat \<Rightarrow> nat \<Rightarrow> nat outcome option" where
  "delay_loop faults clk stop k ct =
     (if ct < stop then (if faults then Some Fault else delay_loop faults clk stop (Suc k) (clk k)) else Some (Ok k))"

text \<open>\<open>clk k\<close> is the value of the \<open>k\<close>-th call of \<^verbatim>\<open>get_current_time\<close>; times are \<^verbatim>\<open>uint64_t\<close>.\<close>

definition looping_start :: "'f float_ops \<Rightarrow> 'f std \<Rightarrow> (nat \<Rightarrow> nat) \<Rightarrow> loop_state \<Rightarrow> loop_state outcome option" where
  "looping_start F o1 clk st =
     (if l_first st then
        (let st1 = st \<lparr>l_first := False\<rparr>;
             st2 = (if f_zero F (STD_LOOP_DURATION o1) then st1
                    else st1 \<lparr>l_stop_time := (f_usecs F (STD_LOOP_DURATION o1) + clk (l_reads st1)) mod 2 ^ 64,
                              l_reads := Suc (l_reads st1)\<rparr>)
         in Some (Ok (if f_zero F (STD_LOOP_DELAY o1) then st2 else st2 \<lparr>l_delay := f_usecs F (STD_LOOP_DELAY o1)\<rparr>)))
      else if f_zero F (STD_LOOP_DELAY o1) then Some (Ok st)
      else (let ct = clk (l_reads st); stop = (ct + l_delay st) mod 2 ^ 64
            in map_option (map_outcome (\<lambda>k. st \<lparr>l_reads := k\<rparr>))
                 (delay_loop (recfun_faults (STD_LD_recfun o1) o1) clk stop (Suc (l_reads st)) ct)))"

definition looping_decide :: "'f float_ops \<Rightarrow> 'f std \<Rightarrow> (nat \<Rightarrow> nat) \<Rightarrow> int \<Rightarrow> loop_state \<Rightarrow> (bool \<times> loop_state) outcome" where
  "looping_decide F o1 clk counter st =
     (let timed = \<not> f_zero F (STD_LOOP_DURATION o1);
          st1 = (if timed then st \<lparr>l_reads := Suc (l_reads st)\<rparr> else st);
          keepgoing = (STD_INFINITE o1 \<or> (STD_LOOP_COUNT o1 \<noteq> 0 \<and> counter < STD_LOOP_COUNT o1)
                       \<or> (timed \<and> clk (l_reads st) < l_stop_time st))
      in if \<not> keepgoing then Ok (False, st1)
         else if recfun_faults (STD_LP_recfun o1) o1 then Fault
         else Ok (True, if STD_LP_sbrk o1 \<noteq> 0 then st1 \<lparr>l_sbrk := l_sbrk st1 + STD_LP_sbrk o1\<rparr> else st1))"

definition usc_test_looping ::
    "'f float_ops \<Rightarrow> 'f std \<Rightarrow> (nat \<Rightarrow> nat) \<Rightarrow> int \<Rightarrow> loop_state \<Rightarrow> (bool \<times> loop_state) outcome option" where
  "usc_test_looping F o1 clk counter st =
     map_option (\<lambda>r. bind_outcome r (looping_decide F o1 clk counter)) (looping_start F o1 clk st)"

text \<open>\<^verbatim>\<open>for (lc = 0; TEST_LOOPING(lc); lc++)\<close> of every test: the value of \<^verbatim>\<open>lc\<close> in the end.\<close>

partial_function (option) test_loop ::
    "'f float_ops \<Rightarrow> 'f std \<Rightarrow> (nat \<Rightarrow> nat) \<Rightarrow> int \<Rightarrow> loop_state \<Rightarrow> (int \<times> loop_state) outcome option" where
  "test_loop F o1 clk lc st =
     Option.bind (usc_test_looping F o1 clk lc st) (\<lambda>r. case r of
       Ok p \<Rightarrow> if fst p then test_loop F o1 clk (lc + 1) (snd p) else Some (Ok (lc, snd p))
     | Exit n \<Rightarrow> Some (Exit n) | Fault \<Rightarrow> Some Fault)"

section \<open>Lemmas\<close>

subsection \<open>The option string fits\<close>

lemma add_std_fits:
  assumes "length s + sum_list (map length opts) < n"
  shows "add_std n opts s = Ok (s @ concat opts)"
  using assms by (induction opts arbitrary: s) (auto simp: strcat_to_def)

lemma add_user_fits:
  assumes "length s + sum_list (map (length \<circ> uo_option) us) < n"
  shows "\<exists>t. add_user n us s = Ok (s @ t)"
  using assms
proof (induction us arbitrary: s)
  case (Cons u us)
  show ?case
    using Cons.IH [of "s @ uo_option u"] Cons.IH [of s] Cons.prems by (auto simp: strcat_to_def)
qed auto

text \<open>Each option is counted, so the block for the option string is never overrun.\<close>

lemma make_optionstr_fits:
  "\<exists>m. make_optionstr mem user = Ok m \<and> (\<forall>t. m = Inr t \<longrightarrow> (\<exists>u. t = ''hi:I:pP:'' @ u))"
proof -
  define us where "us = (case user of None \<Rightarrow> [] | Some us \<Rightarrow> us)"
  have std: "add_std (optstrlen us) std_options [] = Ok ''hi:I:pP:''"
    by (subst add_std_fits) (simp_all add: optstrlen_def std_options_def)
  obtain t where "add_user (optstrlen us) us ''hi:I:pP:'' = Ok (''hi:I:pP:'' @ t)"
    using add_user_fits [of "''hi:I:pP:''" us "optstrlen us"] by (auto simp: optstrlen_def std_options_def)
  with std show ?thesis by (simp add: make_optionstr_def us_def [symmetric] Let_def)
qed

subsection \<open>Options and environment\<close>

definition given :: "char \<Rightarrow> (char \<times> cstr \<times> int) list \<Rightarrow> cstr list" where
  "given c rs = map (fst \<circ> snd) (filter (\<lambda>r. fst r = c) rs)"

lemma user_option_keeps:
  assumes "user_option user c arg o1 = Ok (e, o2)"
  shows "STD_LOOP_COUNT o2 = STD_LOOP_COUNT o1 \<and> bigstack o2 = bigstack o1"
  using assms by (auto simp: user_option_def Let_def split: option.splits if_splits)

lemma opt_round_count:
  assumes "opt_round F user (c, arg, ind) (b, o1) = Ok (e, b', o2)"
  shows "OPT_iteration b' = (OPT_iteration b \<or> c = CHR ''i'')"
    "STD_LOOP_COUNT o2 = (if c = CHR ''i'' then atoi arg else STD_LOOP_COUNT o1)" "bigstack o2 = bigstack o1"
  using assms by (auto simp: opt_round_def Let_def split: if_splits dest!: user_option_keeps)

lemma opt_loop_count:
  assumes "opt_loop F user rs (b, o1) = Ok (None, b', o2)"
  shows "OPT_iteration b' = (OPT_iteration b \<or> given CHR ''i'' rs \<noteq> [])
    \<and> STD_LOOP_COUNT o2 = (if given CHR ''i'' rs = [] then STD_LOOP_COUNT o1 else atoi (last (given CHR ''i'' rs)))
    \<and> bigstack o2 = bigstack o1"
  using assms
proof (induction rs arbitrary: b o1)
  case (Cons r rs)
  obtain c arg ind where r: "r = (c, arg, ind)" by (cases r)
  from Cons.prems obtain b1 o3 where one: "opt_round F user (c, arg, ind) (b, o1) = Ok (None, b1, o3)"
    and rest: "opt_loop F user rs (b1, o3) = Ok (None, b', o2)"
    by (auto simp: r split: option.splits)
  show ?case using opt_round_count [OF one] Cons.IH [OF rest] by (auto simp: r given_def)
qed (simp add: given_def)

lemma say_keeps [simp]:
  "STD_LOOP_COUNT (say d t o1) = STD_LOOP_COUNT o1" "bigstack (say d t o1) = bigstack o1"
  "STD_LP_recfun (say d t o1) = STD_LP_recfun o1" "STD_LD_recfun (say d t o1) = STD_LD_recfun o1"
  "STD_INFINITE (say d t o1) = STD_INFINITE o1"
  by (simp_all add: say_def)

lemma env_barrier_keeps:
  assumes "\<And>k x. g (put k x) = g x" "\<And>d t x. g (say d t x) = g x"
  shows "g (env_barrier env name var put o1) = g o1"
  by (simp add: env_barrier_def assms Let_def split: option.split)

lemma env_number_keeps:
  assumes "\<And>k x. g (put k x) = g x" "\<And>d t x. g (say d t x) = g x"
  shows "g (env_number env name var put o1) = g o1"
  by (simp add: env_number_def assms Let_def split: option.split)

lemma put_recfun_keeps:
  assumes "\<And>k x. g (put k x) = g x" "\<And>x. g (x \<lparr>bigstack := mem\<rparr>) = g x"
  shows "g (put_recfun mem put k o1) = g o1"
  by (simp add: put_recfun_def assms Let_def)

lemma env_hooks_count: "STD_LOOP_COUNT (env_hooks mem env o1) = STD_LOOP_COUNT o1"
  and env_hooks_infinite: "STD_INFINITE (env_hooks mem env o1) = STD_INFINITE o1"
  unfolding env_hooks_def Let_def
  by (simp_all add: env_barrier_keeps [where g = STD_LOOP_COUNT] env_number_keeps [where g = STD_LOOP_COUNT]
      put_recfun_keeps [where g = STD_LOOP_COUNT] env_barrier_keeps [where g = STD_INFINITE]
      env_number_keeps [where g = STD_INFINITE] put_recfun_keeps [where g = STD_INFINITE])

lemma env_stack [simp]:
  "bigstack (env_delay F env b o1) = bigstack o1" "bigstack (env_duration F env name b o1) = bigstack o1"
  "bigstack (env_iterations env b o1) = bigstack o1" "bigstack (env_debug env o1) = bigstack o1"
  by (simp_all add: env_delay_def env_duration_def env_iterations_def env_debug_def Let_def split: option.split)

lemma parse_env_count:
  "STD_LOOP_COUNT (parse_env F mem env b o1) = STD_LOOP_COUNT (env_iterations env b (env_debug env o1))"
proof -
  have "STD_LOOP_COUNT (env_delay F env b x) = STD_LOOP_COUNT x" "STD_LOOP_COUNT (env_duration F env n b x) = STD_LOOP_COUNT x" for n x
    by (simp_all add: env_delay_def env_duration_def Let_def split: option.split)
  then show ?thesis by (simp add: parse_env_def Let_def env_hooks_count)
qed

text \<open>Options that were parsed without a complaint, and then the environment.\<close>

lemma parse_opts_parsed:
  assumes "parse_opts F mem env user rs ind o0 = Ok (None, o1)"
  obtains b o2 where "opt_loop F user rs (\<lparr>OPT_iteration = False, OPT_duration = False, OPT_delay = False\<rparr>, o0) = Ok (None, b, o2)"
    "o1 = parse_env F mem env b (o2 \<lparr>STD_argind := ind\<rparr>)"
proof -
  obtain m where "make_optionstr mem user = Ok m" using make_optionstr_fits by blast
  with assms that show thesis by (cases m) (auto simp: parse_opts_def split: option.splits)
qed

text \<open>No stack block is ever allocated.\<close>

lemma put_recfun_stack: "(\<And>k x. bigstack (put k x) = bigstack x) \<Longrightarrow> \<not> bigstack o1 \<Longrightarrow> \<not> bigstack (put_recfun mem put k o1)"
  by (simp add: put_recfun_def Let_def)

lemma env_number_stack:
  assumes "\<And>k. \<not> bigstack (put k o1)" "\<not> bigstack o1"
  shows "\<not> bigstack (env_number env name var put o1)"
  using assms by (simp add: env_number_def split: option.split)

lemma env_hooks_stack:
  assumes "\<not> bigstack o1"
  shows "\<not> bigstack (env_hooks mem env o1)"
proof -
  have keep: "bigstack (env_barrier env name var put x) = bigstack x" "bigstack (env_number env name var put x) = bigstack x"
    if "\<And>k x. bigstack (put k x) = bigstack x" for name var put x
    using that by (auto intro!: env_barrier_keeps env_number_keeps)
  show ?thesis unfolding env_hooks_def Let_def
    by (intro env_number_stack put_recfun_stack) (simp_all add: keep assms)
qed

lemma env_hooks_recfun:
  fixes o1 :: "'f std"
  assumes "env ''USC_LP_RECFUN'' = Some p" "scan_i p = Some n" "0 \<le> n"
  shows "STD_LP_recfun (env_hooks mem env o1) = n"
proof -
  have last: "STD_LP_recfun (env_number env ''USC_LD_RECFUN'' v (put_recfun mem (\<lambda>k x. x \<lparr>STD_LD_recfun := k\<rparr>)) x) = STD_LP_recfun x" for v and x :: "'f std"
    by (intro env_number_keeps put_recfun_keeps) simp_all
  have "STD_LP_recfun (env_number env ''USC_LP_RECFUN'' v (put_recfun mem (\<lambda>k x. x \<lparr>STD_LP_recfun := k\<rparr>)) x) = n" for v and x :: "'f std"
    using assms by (simp add: env_number_def put_recfun_def Let_def)
  with last show ?thesis by (simp add: env_hooks_def Let_def)
qed

subsection \<open>The loop\<close>

text \<open>The wait between two iterations ends as soon as some later reading of the clock has reached its end.\<close>

lemma delay_loop_ends:
  assumes "\<exists>j \<ge> k. stop \<le> clk j" "\<not> faults"
  shows "\<exists>k'. delay_loop faults clk stop k ct = Some (Ok k')"
proof -
  obtain j where j: "k \<le> j" "stop \<le> clk j" using assms(1) by blast
  from j show ?thesis
  proof (induction "j - k" arbitrary: k ct)
    case 0
    then show ?case using assms(2) by (subst delay_loop.simps, subst delay_loop.simps) auto
  next
    case (Suc d)
    then have "\<exists>k'. delay_loop faults clk stop (Suc k) (clk k) = Some (Ok k')" by (intro Suc.hyps) auto
    then show ?case using assms(2) by (subst delay_loop.simps) auto
  qed
qed

definition clock_moves :: "(nat \<Rightarrow> nat) \<Rightarrow> nat \<Rightarrow> bool" where
  "clock_moves clk d \<longleftrightarrow> (\<forall>k. \<exists>j > k. (clk k + d) mod 2 ^ 64 \<le> clk j)"

definition delay_set :: "'f float_ops \<Rightarrow> 'f std \<Rightarrow> loop_state \<Rightarrow> bool" where
  "delay_set F o1 st \<longleftrightarrow>
     l_first st \<or> f_zero F (STD_LOOP_DELAY o1) \<or> l_delay st = f_usecs F (STD_LOOP_DELAY o1)"

lemma looping_start_ends:
  assumes "delay_set F o1 st" "STD_LD_recfun o1 = 0" "clock_moves clk (f_usecs F (STD_LOOP_DELAY o1))"
  shows "\<exists>st'. looping_start F o1 clk st = Some (Ok st') \<and> delay_set F o1 st'"
proof (cases "l_first st \<or> f_zero F (STD_LOOP_DELAY o1)")
  case True
  then show ?thesis by (auto simp: looping_start_def delay_set_def Let_def)
next
  case False
  let ?stop = "(clk (l_reads st) + l_delay st) mod 2 ^ 64"
  have d: "l_delay st = f_usecs F (STD_LOOP_DELAY o1)" using assms(1) False by (simp add: delay_set_def)
  have "\<exists>j \<ge> Suc (l_reads st). ?stop \<le> clk j"
    using assms(3) unfolding clock_moves_def d by (metis Suc_leI)
  from delay_loop_ends [OF this, of "recfun_faults (STD_LD_recfun o1) o1"] assms(2) obtain k where
    "delay_loop (recfun_faults (STD_LD_recfun o1) o1) clk ?stop (Suc (l_reads st)) (clk (l_reads st)) = Some (Ok k)"
    by (auto simp: recfun_faults_def)
  with False d show ?thesis by (auto simp: looping_start_def delay_set_def Let_def)
qed

lemma test_loop_counts:
  assumes "\<not> STD_INFINITE o1" "f_zero F (STD_LOOP_DURATION o1)" "STD_LP_recfun o1 = 0" "STD_LD_recfun o1 = 0"
    and "clock_moves clk (f_usecs F (STD_LOOP_DELAY o1))" "delay_set F o1 st" "0 \<le> lc"
  shows "\<exists>st'. test_loop F o1 clk lc st = Some (Ok (max lc (STD_LOOP_COUNT o1), st'))"
  using assms(6,7)
proof (induction "nat (STD_LOOP_COUNT o1 - lc)" arbitrary: lc st)
  case 0
  then have no: "\<not> lc < STD_LOOP_COUNT o1" by simp
  obtain st1 where "looping_start F o1 clk st = Some (Ok st1)"
    using looping_start_ends [OF 0(2) assms(4,5)] by blast
  with no assms(1,2) show ?case
    by (subst test_loop.simps) (simp add: usc_test_looping_def looping_decide_def max_def)
next
  case (Suc n)
  then have more: "lc < STD_LOOP_COUNT o1" by simp
  obtain st1 where st1: "looping_start F o1 clk st = Some (Ok st1)" "delay_set F o1 st1"
    using looping_start_ends [OF Suc(3) assms(4,5)] by blast
  let ?st2 = "if STD_LP_sbrk o1 \<noteq> 0 then st1 \<lparr>l_sbrk := l_sbrk st1 + STD_LP_sbrk o1\<rparr> else st1"
  have "usc_test_looping F o1 clk lc st = Some (Ok (True, ?st2))"
    using st1(1) more Suc.prems(2) assms(2,3) by (simp add: usc_test_looping_def looping_decide_def recfun_faults_def)
  moreover have "\<exists>st'. test_loop F o1 clk (lc + 1) ?st2 = Some (Ok (max (lc + 1) (STD_LOOP_COUNT o1), st'))"
    using Suc.prems(2) Suc(2) st1(2) by (intro Suc.hyps(1)) (auto simp: delay_set_def)
  ultimately show ?case using more by (subst test_loop.simps) (auto simp: max_def)
qed

section \<open>Properties\<close>

definition std0 :: "'f \<Rightarrow> 'f std" where
  "std0 z = \<lparr>STD_PAUSE = False, STD_INFINITE = False, STD_LOOP_COUNT = 1, STD_LOOP_DURATION = z, STD_LOOP_DELAY = z,
     STD_argind = 1, STD_TP_barrier = 0, STD_LP_barrier = 0, STD_TP_shmem_sz = 0, STD_LD_shmem = 0, STD_LP_shmem = 0,
     STD_LD_recfun = 0, STD_LP_recfun = 0, STD_TP_sbrk = 0, STD_LP_sbrk = 0, bigstack = False, Debug = False,
     u_flags = {}, u_args = Map.empty, p_out = []\<rparr>"

definition loop0 :: loop_state where
  "loop0 = \<lparr>l_first = True, l_stop_time = 0, l_delay = 0, l_reads = 0, l_sbrk = 0, l_paused = False\<rparr>"

text \<open>Whole seconds in place of \<^verbatim>\<open>float\<close>, for the instances below.\<close>

definition whole :: "nat float_ops" where
  "whole = \<lparr>f_atof = nat \<circ> atoi, f_scan = (\<lambda>s. Some (nat (atoi s))), f_zero = (\<lambda>n. n = 0), f_nonneg = (\<lambda>_. True),
     f_usecs = (\<lambda>n. n * 1000000), f_show = dec_nat\<rparr>"

text \<open>
  The number of iterations is that of the last \<^verbatim>\<open>-i\<close> option; the environment variable
  \<^verbatim>\<open>USC_ITERATIONS\<close> counts only without that option and if it is a number other than 0; otherwise the
  count stays what it was.
\<close>

lemma iterations_source:
  assumes "parse_opts F mem env user rs ind o0 = Ok (None, o1)"
  shows "STD_LOOP_COUNT o1 =
    (if given CHR ''i'' rs \<noteq> [] then atoi (last (given CHR ''i'' rs))
     else case Option.bind (env ''USC_ITERATIONS'') scan_i of
       None \<Rightarrow> STD_LOOP_COUNT o0
     | Some k \<Rightarrow> if k = 0 then STD_LOOP_COUNT o0 else k)"
proof -
  from assms obtain b o2 where loop: "opt_loop F user rs
      (\<lparr>OPT_iteration = False, OPT_duration = False, OPT_delay = False\<rparr>, o0) = Ok (None, b, o2)"
    and o1: "o1 = parse_env F mem env b (o2 \<lparr>STD_argind := ind\<rparr>)"
    by (rule parse_opts_parsed)
  show ?thesis
    using opt_loop_count [OF loop] unfolding o1 parse_env_count
    by (auto simp: env_iterations_def env_debug_def Let_def split: option.splits)
qed

text \<open>
  C37: without a duration and not asked to go on for ever, the loop of a test runs its body exactly
  as often as the iteration count says, not at all for a negative one, with any delay between the iterations,
  provided that the clock gets past the end of each delay.
\<close>

theorem loop_runs_count:
  assumes "\<not> STD_INFINITE o1" "f_zero F (STD_LOOP_DURATION o1)" "STD_LP_recfun o1 = 0" "STD_LD_recfun o1 = 0"
    and "clock_moves clk (f_usecs F (STD_LOOP_DELAY o1))" "l_first st"
  shows "\<exists>st'. test_loop F o1 clk 0 st = Some (Ok (max 0 (STD_LOOP_COUNT o1), st'))"
  using test_loop_counts [OF assms(1-5), of st 0] assms(6) by (simp add: delay_set_def)

theorem loop_runs_count_witness:
  "\<exists>st'. test_loop whole (std0 0 \<lparr>STD_LOOP_COUNT := 3, STD_LOOP_DELAY := 2\<rparr>) (\<lambda>k. k * 4000000) 0 loop0 = Some (Ok (3, st'))"
proof -
  have "clock_moves (\<lambda>k. k * 4000000) 2000000"
    unfolding clock_moves_def by (intro allI exI [of _ "Suc k" for k]) (auto intro: order_trans [OF mod_less_eq_dividend])
  then show ?thesis
    using loop_runs_count [of "std0 0 \<lparr>STD_LOOP_COUNT := 3, STD_LOOP_DELAY := 2\<rparr>" whole "\<lambda>k. k * 4000000" loop0]
    by (simp add: std0_def whole_def loop0_def)
qed

text \<open>
  The variable \<^verbatim>\<open>USC_LP_RECFUN\<close> makes every test crash. \<^verbatim>\<open>parse_opts\<close> allocates the stack block
  for the recursive function only where there is one already, that is never, and the first turn of
  the test's loop reads through the NULL pointer.
\<close>

lemma recfun_null:
  assumes "env ''USC_LP_RECFUN'' = Some p" "scan_i p = Some n" "0 < n" "\<not> bigstack o0"
    and "parse_opts F mem env user rs ind o0 = Ok (None, o1)" "0 < STD_LOOP_COUNT o1" "l_first st"
  shows "test_loop F o1 clk 0 st = Some Fault"
proof -
  from assms(5) obtain b o2 where loop: "opt_loop F user rs
      (\<lparr>OPT_iteration = False, OPT_duration = False, OPT_delay = False\<rparr>, o0) = Ok (None, b, o2)"
    and o1: "o1 = parse_env F mem env b (o2 \<lparr>STD_argind := ind\<rparr>)"
    by (rule parse_opts_parsed)
  have "\<not> bigstack o1"
    using opt_loop_count [OF loop] assms(4) by (simp add: o1 parse_env_def Let_def env_hooks_stack)
  moreover have "STD_LP_recfun o1 = n"
    using assms(3) by (simp add: o1 parse_env_def Let_def env_hooks_recfun [of env, OF assms(1,2)])
  moreover obtain st1 where "looping_start F o1 clk st = Some (Ok st1)"
    using assms(7) by (simp add: looping_start_def Let_def)
  ultimately show ?thesis
    using assms(3,6) by (subst test_loop.simps) (simp add: usc_test_looping_def looping_decide_def recfun_faults_def Let_def)
qed

end
