(* ===== verification/Ffsb_Rbt.thy ===== *)
theory Ffsb_Rbt
  imports LTP_Prelude
begin

text \<open>
  The red-black trees of the benchmark ffsb: \<^verbatim>\<open>utils/ffsb-6.0-rc2/rbt.c\<close>. A tree is a store of nodes by
  address with a root pointer and a count; 0 is NULL, and a node that is not allocated cannot be
  read or written. The code has every rotation and every fix-up twice, for the left and for the
  right; the second copy is the first one with the sides exchanged, and the model has one
  definition with the side as an argument. Objects are addresses of files and \<open>num\<close> is their number.
  What \<^verbatim>\<open>malloc\<close> returns is an argument.
\<close>

section \<open>Calls that may not return\<close>

definition obind :: "'a outcome option \<Rightarrow> ('a \<Rightarrow> 'b outcome option) \<Rightarrow> 'b outcome option" where
  "obind m f = Option.bind m (\<lambda>r. case r of Ok x \<Rightarrow> f x | Exit n \<Rightarrow> Some (Exit n) | Fault \<Rightarrow> Some Fault)"

lemma obind_simps [simp]:
  "obind (Some (Ok x)) f = f x" "obind (Some (Exit n)) f = Some (Exit n)" "obind (Some Fault) f = Some Fault"
  "obind None f = None"
  by (simp_all add: obind_def)

lemma obind_mono [partial_function_mono]:
  assumes "mono_option m" "\<And>x. mono_option (\<lambda>f. g x f)"
  shows "mono_option (\<lambda>f. obind (m f) (\<lambda>x. g x f))"
  unfolding obind_def
proof (rule bind_mono [OF assms(1)])
  fix r :: "'c outcome"
  show "mono_option (\<lambda>f. case r of Ok x \<Rightarrow> g x f | Exit n \<Rightarrow> Some (Exit n) | Fault \<Rightarrow> Some Fault)"
    using assms(2) by (cases r) (auto intro: option.const_mono)
qed

section \<open>Nodes\<close>

datatype rb_color = Red | Black

record rb_node =
  object :: nat
  color :: rb_color
  parent :: nat
  right :: nat
  left :: nat

record rb_tree =
  nodes :: "nat \<rightharpoonup> rb_node"
  root :: nat
  isize :: int

datatype side = SL | SR

fun opp :: "side \<Rightarrow> side" where
  "opp SL = SR"
| "opp SR = SL"

fun child :: "side \<Rightarrow> rb_node \<Rightarrow> nat" where
  "child SL n = left n"
| "child SR n = right n"

fun set_child :: "side \<Rightarrow> nat \<Rightarrow> rb_node \<Rightarrow> rb_node" where
  "set_child SL q n = n\<lparr>left := q\<rparr>"
| "set_child SR q n = n\<lparr>right := q\<rparr>"

definition node :: "rb_tree \<Rightarrow> nat \<Rightarrow> rb_node outcome" where
  "node s p = (case nodes s p of None \<Rightarrow> Fault | Some n \<Rightarrow> Ok n)"

definition upd :: "rb_tree \<Rightarrow> nat \<Rightarrow> (rb_node \<Rightarrow> rb_node) \<Rightarrow> rb_tree outcome" where
  "upd s p f = (case nodes s p of None \<Rightarrow> Fault | Some n \<Rightarrow> Ok (s\<lparr>nodes := (nodes s)(p \<mapsto> f n)\<rparr>))"

definition free_node :: "rb_tree \<Rightarrow> nat \<Rightarrow> rb_tree outcome" where
  "free_node s p = (case nodes s p of None \<Rightarrow> Fault | Some n \<Rightarrow> Ok (s\<lparr>nodes := (nodes s)(p := None)\<rparr>))"

definition paint :: "rb_color \<Rightarrow> rb_tree \<Rightarrow> nat \<Rightarrow> rb_tree outcome" where
  "paint c s p = upd s p (\<lambda>n. n\<lparr>color := c\<rparr>)"

text \<open>\<^verbatim>\<open>p && p->color == red\<close>\<close>

definition red_at :: "rb_tree \<Rightarrow> nat \<Rightarrow> bool outcome" where
  "red_at s p = (if p = 0 then Ok False else bind_outcome (node s p) (\<lambda>n. Ok (color n = Red)))"

text \<open>The difference of two numbers of type \<^verbatim>\<open>uint32_t\<close>, as an \<^verbatim>\<open>int\<close>.\<close>

definition COMP_NODES :: "(nat \<Rightarrow> 32 word) \<Rightarrow> nat \<Rightarrow> nat \<Rightarrow> int" where
  "COMP_NODES num a b = sint (num a - num b)"

definition rbnode_construct :: "nat \<Rightarrow> nat \<Rightarrow> rb_color \<Rightarrow> rb_tree \<Rightarrow> rb_tree" where
  "rbnode_construct p obj c s =
     s\<lparr>nodes := (nodes s)(p \<mapsto> \<lparr>object = obj, color = c, parent = 0, right = 0, left = 0\<rparr>)\<rparr>"

text \<open>The objects passed to the destructor, if there is one, in their order.\<close>

partial_function (option) rbnode_destruct :: "bool \<Rightarrow> rb_tree \<Rightarrow> nat \<Rightarrow> (nat list \<times> rb_tree) outcome option" where
  "rbnode_destruct d s p =
     (if p = 0 then Some (Ok ([], s))
      else obind (Some (node s p)) (\<lambda>n.
           obind (rbnode_destruct d s (right n)) (\<lambda>r1.
           obind (rbnode_destruct d (snd r1) (left n)) (\<lambda>r2.
           obind (Some (free_node (snd r2) p)) (\<lambda>s3.
             Some (Ok ((if d then [object n] else []) @ fst r1 @ fst r2, s3)))))))"

partial_function (option) rbnode_depth :: "rb_tree \<Rightarrow> nat \<Rightarrow> int outcome option" where
  "rbnode_depth s p =
     obind (Some (node s p)) (\<lambda>n.
     obind (if right n \<noteq> 0 then rbnode_depth s (right n) else Some (Ok 0)) (\<lambda>irightdepth.
     obind (if left n \<noteq> 0 then rbnode_depth s (left n) else Some (Ok 0)) (\<lambda>ileftdepth.
       Some (Ok (if irightdepth > ileftdepth then irightdepth + 1 else ileftdepth + 1)))))"

text \<open>\<^verbatim>\<open>while (node->left) node = node->left\<close>, and the same for the right.\<close>

partial_function (option) end_loop :: "side \<Rightarrow> rb_tree \<Rightarrow> nat \<Rightarrow> nat outcome option" where
  "end_loop d s p =
     obind (Some (node s p)) (\<lambda>n. if child d n \<noteq> 0 then end_loop d s (child d n) else Some (Ok p))"

definition rbnode_minimum :: "rb_tree \<Rightarrow> nat \<Rightarrow> nat outcome option" where
  "rbnode_minimum s p = end_loop SL s p"

definition rbnode_maximum :: "rb_tree \<Rightarrow> nat \<Rightarrow> nat outcome option" where
  "rbnode_maximum s p = end_loop SR s p"

definition rbnode_replace :: "rb_tree \<Rightarrow> nat \<Rightarrow> nat \<Rightarrow> rb_tree outcome" where
  "rbnode_replace s p obj = upd s p (\<lambda>n. n\<lparr>object := obj\<rparr>)"

text \<open>Going up as long as the node comes from the side \<open>d\<close>.\<close>

partial_function (option) climb_loop :: "side \<Rightarrow> rb_tree \<Rightarrow> nat \<Rightarrow> nat \<Rightarrow> nat outcome option" where
  "climb_loop d s prev p =
     (if p = 0 then Some (Ok 0)
      else obind (Some (node s p)) (\<lambda>n.
             if prev = child d n then climb_loop d s p (parent n) else Some (Ok p)))"

definition rbnode_neighbour :: "side \<Rightarrow> rb_tree \<Rightarrow> nat \<Rightarrow> nat outcome option" where
  "rbnode_neighbour d s p =
     obind (Some (node s p)) (\<lambda>n.
       if child d n \<noteq> 0 then end_loop (opp d) s (child d n) else climb_loop d s p (parent n))"

definition rbnode_successor :: "rb_tree \<Rightarrow> nat \<Rightarrow> nat outcome option" where
  "rbnode_successor = rbnode_neighbour SR"

definition rbnode_predecessor :: "rb_tree \<Rightarrow> nat \<Rightarrow> nat outcome option" where
  "rbnode_predecessor = rbnode_neighbour SL"

text \<open>
  The addresses are what the calls of \<^verbatim>\<open>malloc\<close> return. A child that cannot be duplicated is NULL, and its
  parent pointer is written all the same.
\<close>

partial_function (option) rbnode_duplicate ::
    "nat list \<Rightarrow> rb_tree \<Rightarrow> nat \<Rightarrow> (nat \<times> nat list \<times> rb_tree) outcome option" where
  "rbnode_duplicate ps s p =
     obind (Some (node s p)) (\<lambda>n.
       if ps = [] \<or> hd ps = 0 then Some (Ok (0, tl ps, s))
       else
         obind (if right n = 0 then Some (Ok (tl ps, rbnode_construct (hd ps) (object n) (color n) s))
                else obind (rbnode_duplicate (tl ps) (rbnode_construct (hd ps) (object n) (color n) s) (right n)) (\<lambda>r.
                     obind (Some (upd (snd (snd r)) (hd ps) (\<lambda>x. x\<lparr>right := fst r\<rparr>))) (\<lambda>s2.
                     obind (Some (upd s2 (fst r) (\<lambda>x. x\<lparr>parent := hd ps\<rparr>))) (\<lambda>s3. Some (Ok (fst (snd r), s3)))))) (\<lambda>r1.
         obind (if left n = 0 then Some (Ok r1)
                else obind (rbnode_duplicate (fst r1) (snd r1) (left n)) (\<lambda>r.
                     obind (Some (upd (snd (snd r)) (hd ps) (\<lambda>x. x\<lparr>left := fst r\<rparr>))) (\<lambda>s2.
                     obind (Some (upd s2 (fst r) (\<lambda>x. x\<lparr>parent := hd ps\<rparr>))) (\<lambda>s3. Some (Ok (fst (snd r), s3)))))) (\<lambda>r2.
           Some (Ok (hd ps, r2)))))"

text \<open>The objects in the order in which the operation is called on them.\<close>

partial_function (option) rbnode_traverse :: "rb_tree \<Rightarrow> nat \<Rightarrow> nat list outcome option" where
  "rbnode_traverse s p =
     (if p = 0 then Some (Ok [])
      else obind (Some (node s p)) (\<lambda>n.
           obind (rbnode_traverse s (left n)) (\<lambda>l.
           obind (rbnode_traverse s (right n)) (\<lambda>r. Some (Ok (l @ object n # r))))))"

section \<open>Rotations\<close>

text \<open>\<^verbatim>\<open>if (old == p->left) p->left = new; else p->right = new\<close>\<close>

definition replace_child :: "rb_tree \<Rightarrow> nat \<Rightarrow> nat \<Rightarrow> nat \<Rightarrow> rb_tree outcome" where
  "replace_child s p old new =
     bind_outcome (node s p) (\<lambda>n.
       if old = left n then upd s p (\<lambda>x. x\<lparr>left := new\<rparr>) else upd s p (\<lambda>x. x\<lparr>right := new\<rparr>))"

definition relink :: "rb_tree \<Rightarrow> nat \<Rightarrow> nat \<Rightarrow> nat \<Rightarrow> rb_tree outcome" where
  "relink s p old new = (if p = 0 then Ok (s\<lparr>root := new\<rparr>) else replace_child s p old new)"

definition set_parent :: "rb_tree \<Rightarrow> nat \<Rightarrow> nat \<Rightarrow> rb_tree outcome" where
  "set_parent s p q = (if p = 0 then Ok s else upd s p (\<lambda>n. n\<lparr>parent := q\<rparr>))"

definition rotate_to :: "side \<Rightarrow> rb_tree \<Rightarrow> nat \<Rightarrow> rb_tree outcome" where
  "rotate_to d s x =
     bind_outcome (node s x) (\<lambda>xn.
       let y = child (opp d) xn
       in bind_outcome (node s y) (\<lambda>yn.
          bind_outcome (upd s x (set_child (opp d) (child d yn))) (\<lambda>s1.
          bind_outcome (set_parent s1 (child d yn) x) (\<lambda>s2.
          bind_outcome (node s2 x) (\<lambda>xn2.
          bind_outcome (upd s2 y (\<lambda>n. n\<lparr>parent := parent xn2\<rparr>)) (\<lambda>s3.
          bind_outcome (node s3 x) (\<lambda>xn3.
          bind_outcome (relink s3 (parent xn3) x y) (\<lambda>s4.
          bind_outcome (upd s4 y (set_child d x)) (\<lambda>s5.
            upd s5 x (\<lambda>n. n\<lparr>parent := y\<rparr>))))))))))"

definition rbtree_rotate_left :: "rb_tree \<Rightarrow> nat \<Rightarrow> rb_tree outcome" where
  "rbtree_rotate_left = rotate_to SL"

definition rbtree_rotate_right :: "rb_tree \<Rightarrow> nat \<Rightarrow> rb_tree outcome" where
  "rbtree_rotate_right = rotate_to SR"

section \<open>Insertion\<close>

definition fix_guard :: "rb_tree \<Rightarrow> nat \<Rightarrow> bool outcome" where
  "fix_guard s cur =
     (if cur = root s then Ok False
      else bind_outcome (node s cur) (\<lambda>n. bind_outcome (node s (parent n)) (\<lambda>pn. Ok (color pn = Red))))"

definition fix_side :: "side \<Rightarrow> rb_tree \<Rightarrow> nat \<Rightarrow> nat \<Rightarrow> nat \<Rightarrow> nat \<Rightarrow> (nat \<times> rb_tree) outcome" where
  "fix_side d s cur par grandparent uncle =
     bind_outcome (red_at s uncle) (\<lambda>both_red.
       if both_red then
         bind_outcome (paint Black s par) (\<lambda>s1.
         bind_outcome (paint Black s1 uncle) (\<lambda>s2.
         bind_outcome (paint Red s2 grandparent) (\<lambda>s3. Ok (grandparent, s3))))
       else
         bind_outcome (node s par) (\<lambda>pn.
         bind_outcome (if cur = child (opp d) pn then bind_outcome (rotate_to d s par) (\<lambda>s1. Ok (par, s1)) else Ok (cur, s)) (\<lambda>r.
         bind_outcome (node (snd r) (fst r)) (\<lambda>n1.
         bind_outcome (paint Black (snd r) (parent n1)) (\<lambda>s2.
         bind_outcome (paint Red s2 grandparent) (\<lambda>s3.
         bind_outcome (rotate_to (opp d) s3 grandparent) (\<lambda>s4. Ok (fst r, s4))))))))"

definition fix_step :: "rb_tree \<Rightarrow> nat \<Rightarrow> (nat \<times> rb_tree) outcome" where
  "fix_step s cur =
     bind_outcome (node s cur) (\<lambda>n.
     bind_outcome (node s (parent n)) (\<lambda>pn.
     bind_outcome (node s (parent pn)) (\<lambda>gn.
       let d = (if parent n = left gn then SL else SR)
       in fix_side d s cur (parent n) (parent pn) (child (opp d) gn))))"

partial_function (option) fix_loop :: "rb_tree \<Rightarrow> nat \<Rightarrow> rb_tree outcome option" where
  "fix_loop s cur =
     obind (Some (fix_guard s cur)) (\<lambda>b.
       if b then obind (Some (fix_step s cur)) (\<lambda>r. fix_loop (snd r) (fst r)) else Some (Ok s))"

text \<open>An \<^verbatim>\<open>assert\<close> that fails is a fault.\<close>

definition rbtree_insert_fixup :: "rb_tree \<Rightarrow> nat \<Rightarrow> rb_tree outcome option" where
  "rbtree_insert_fixup s p =
     obind (Some (red_at s p)) (\<lambda>b.
       if b then obind (fix_loop s p) (\<lambda>s1. Some (paint Black s1 (root s1))) else Some Fault)"

definition rbtree_init :: "rb_tree \<Rightarrow> rb_tree" where
  "rbtree_init s = s\<lparr>isize := 0, root := 0\<rparr>"

definition rbtree_construct :: rb_tree where
  "rbtree_construct = rbtree_init \<lparr>nodes = Map.empty, root = 0, isize = 0\<rparr>"

definition link_new :: "rb_tree \<Rightarrow> side \<Rightarrow> nat \<Rightarrow> nat \<Rightarrow> rb_tree outcome" where
  "link_new s d p new =
     bind_outcome (upd s p (set_child d new)) (\<lambda>s1. upd s1 new (\<lambda>n. n\<lparr>parent := p\<rparr>))"

text \<open>The search for the place; the result tells whether the node was linked or its number is there already.\<close>

partial_function (option) insert_loop ::
    "(nat \<Rightarrow> 32 word) \<Rightarrow> nat \<Rightarrow> nat \<Rightarrow> rb_tree \<Rightarrow> nat \<Rightarrow> (bool \<times> rb_tree) outcome option" where
  "insert_loop num obj new s cur =
     obind (Some (node s cur)) (\<lambda>n.
       let comp_result = COMP_NODES num obj (object n);
           d = (if comp_result > 0 then SL else SR)
       in if comp_result = 0 then Some (Ok (False, s))
          else if child d n = 0 then Some (bind_outcome (link_new s d cur new) (\<lambda>s1. Ok (True, s1)))
          else insert_loop num obj new s (child d n))"

definition first_node :: "nat \<Rightarrow> nat \<Rightarrow> rb_tree \<Rightarrow> (nat \<times> rb_tree) outcome option" where
  "first_node p obj s =
     Some (Ok (if p = 0 then (0, s) else (p, (rbnode_construct p obj Black s)\<lparr>root := p, isize := 1\<rparr>)))"

definition added :: "nat \<Rightarrow> rb_tree \<Rightarrow> (nat \<times> rb_tree) outcome option" where
  "added p s = obind (rbtree_insert_fixup (s\<lparr>isize := isize s + 1\<rparr>) p) (\<lambda>s1. Some (Ok (p, s1)))"

definition rbtree_insert :: "(nat \<Rightarrow> 32 word) \<Rightarrow> nat \<Rightarrow> nat \<Rightarrow> rb_tree \<Rightarrow> (nat \<times> rb_tree) outcome option" where
  "rbtree_insert num p obj s =
     (if root s = 0 then first_node p obj s
      else if p = 0 then Some (Ok (0, s))
      else obind (insert_loop num obj p (rbnode_construct p obj Red s) (root s)) (\<lambda>r.
             if fst r then added p (snd r)
             else Some (bind_outcome (free_node (snd r) p) (\<lambda>s2. Ok (0, s2)))))"

text \<open>The place next to a node on the side \<open>d\<close>, or at the other end of the tree.\<close>

definition insert_beside :: "side \<Rightarrow> nat \<Rightarrow> nat \<Rightarrow> nat \<Rightarrow> rb_tree \<Rightarrow> (nat \<times> rb_tree) outcome option" where
  "insert_beside d p at_node obj s =
     (if root s = 0 then first_node p obj s
      else if p = 0 then Some (Ok (0, s))
      else
        (let s1 = rbnode_construct p obj Red s
         in obind (if at_node = 0 then obind (end_loop (opp d) s1 (root s1)) (\<lambda>par. Some (Ok (par, opp d)))
                   else obind (Some (node s1 at_node)) (\<lambda>n.
                          if child d n = 0 then Some (Ok (at_node, d))
                          else obind (end_loop (opp d) s1 (child d n)) (\<lambda>par. Some (Ok (par, opp d))))) (\<lambda>r.
            obind (Some (link_new s1 (snd r) (fst r) p)) (added p))))"

definition insert_successor_at :: "nat \<Rightarrow> nat \<Rightarrow> nat \<Rightarrow> rb_tree \<Rightarrow> (nat \<times> rb_tree) outcome option" where
  "insert_successor_at = insert_beside SR"

definition insert_predecessor_at :: "nat \<Rightarrow> nat \<Rightarrow> nat \<Rightarrow> rb_tree \<Rightarrow> (nat \<times> rb_tree) outcome option" where
  "insert_predecessor_at = insert_beside SL"

section \<open>Search\<close>

partial_function (option) find_loop :: "(nat \<Rightarrow> 32 word) \<Rightarrow> nat \<Rightarrow> rb_tree \<Rightarrow> nat \<Rightarrow> nat outcome option" where
  "find_loop num obj s cur =
     (if cur = 0 then Some (Ok 0)
      else obind (Some (node s cur)) (\<lambda>n.
        let comp_result = COMP_NODES num obj (object n)
        in if comp_result = 0 then Some (Ok cur)
           else find_loop num obj s (child (if comp_result > 0 then SL else SR) n)))"

definition rbtree_find :: "(nat \<Rightarrow> 32 word) \<Rightarrow> nat \<Rightarrow> rb_tree \<Rightarrow> nat outcome option" where
  "rbtree_find num obj s = find_loop num obj s (root s)"

definition rbtree_contains :: "(nat \<Rightarrow> 32 word) \<Rightarrow> nat \<Rightarrow> rb_tree \<Rightarrow> bool outcome option" where
  "rbtree_contains num obj s = obind (rbtree_find num obj s) (\<lambda>p. Some (Ok (p \<noteq> 0)))"

definition rbtree_minimum :: "rb_tree \<Rightarrow> nat outcome option" where
  "rbtree_minimum s = (if root s = 0 then Some (Ok 0) else rbnode_minimum s (root s))"

definition rbtree_maximum :: "rb_tree \<Rightarrow> nat outcome option" where
  "rbtree_maximum s = (if root s = 0 then Some (Ok 0) else rbnode_maximum s (root s))"

definition rbtree_size :: "rb_tree \<Rightarrow> int" where
  "rbtree_size s = isize s"

definition rbtree_depth :: "rb_tree \<Rightarrow> int outcome option" where
  "rbtree_depth s = (if root s = 0 then Some (Ok 0) else rbnode_depth s (root s))"

definition rbtree_traverse :: "rb_tree \<Rightarrow> nat list outcome option" where
  "rbtree_traverse s = rbnode_traverse s (root s)"

section \<open>Removal\<close>

text \<open>The siblings of a node that is too light on its side \<open>d\<close>.\<close>

definition black_kids :: "rb_tree \<Rightarrow> nat \<Rightarrow> bool outcome" where
  "black_kids s p =
     (if p = 0 then Ok False
      else bind_outcome (node s p) (\<lambda>n.
           bind_outcome (red_at s (left n)) (\<lambda>l. bind_outcome (red_at s (right n)) (\<lambda>r. Ok (\<not> l \<and> \<not> r)))))"

definition parent_step :: "rb_tree \<Rightarrow> nat \<Rightarrow> (nat \<times> rb_tree) outcome" where
  "parent_step s cur =
     bind_outcome (node s cur) (\<lambda>n.
     bind_outcome (node s (parent n)) (\<lambda>pn.
       if color pn = Red then bind_outcome (paint Black s (parent n)) (\<lambda>s1. Ok (root s1, s1))
       else Ok (parent n, s)))"

definition light_rotate :: "side \<Rightarrow> rb_tree \<Rightarrow> nat \<Rightarrow> nat \<Rightarrow> (nat \<times> rb_tree) outcome" where
  "light_rotate d s cur sibling =
     bind_outcome (node s sibling) (\<lambda>sn.
     bind_outcome (red_at s (child (opp d) sn)) (\<lambda>outer_red.
     bind_outcome
       (if outer_red then
          bind_outcome (paint Black s (child (opp d) sn)) (\<lambda>s1.
          bind_outcome (node s1 cur) (\<lambda>n. rotate_to d s1 (parent n)))
        else
          bind_outcome (rotate_to (opp d) s sibling) (\<lambda>s1.
          bind_outcome (node s1 cur) (\<lambda>n.
          bind_outcome (node s1 (parent n)) (\<lambda>pn. rotate_to d s1 (child (opp d) pn))))) (\<lambda>s2.
     bind_outcome (node s2 cur) (\<lambda>n.
     bind_outcome (node s2 (parent n)) (\<lambda>pn.
     bind_outcome (if parent pn \<noteq> 0 then paint (color pn) s2 (parent pn) else Ok s2) (\<lambda>s3.
     bind_outcome (paint Black s3 (parent n)) (\<lambda>s4. Ok (root s4, s4))))))))"

text \<open>The part behind the treatment of a red sibling.\<close>

definition light_rest :: "side \<Rightarrow> rb_tree \<Rightarrow> nat \<Rightarrow> nat \<Rightarrow> (nat \<times> rb_tree) outcome" where
  "light_rest d s cur sibling =
     bind_outcome (black_kids s sibling) (\<lambda>bk.
       if bk then bind_outcome (paint Red s sibling) (\<lambda>s2. parent_step s2 cur)
       else if sibling = 0 then parent_step s cur
       else light_rotate d s cur sibling)"

definition light_side :: "side \<Rightarrow> rb_tree \<Rightarrow> nat \<Rightarrow> (nat \<times> rb_tree) outcome" where
  "light_side d s cur =
     bind_outcome (node s cur) (\<lambda>n.
     bind_outcome (node s (parent n)) (\<lambda>pn.
     bind_outcome (red_at s (child (opp d) pn)) (\<lambda>sibling_red.
     bind_outcome
       (if sibling_red then
          bind_outcome (paint Black s (child (opp d) pn)) (\<lambda>s1.
          bind_outcome (paint Red s1 (parent n)) (\<lambda>s2.
          bind_outcome (rotate_to d s2 (parent n)) (\<lambda>s3.
          bind_outcome (node s3 cur) (\<lambda>n3.
          bind_outcome (node s3 (parent n3)) (\<lambda>pn3. Ok (child (opp d) pn3, s3))))))
        else Ok (child (opp d) pn, s)) (\<lambda>r. light_rest d (snd r) cur (fst r)))))"

definition light_step :: "rb_tree \<Rightarrow> nat \<Rightarrow> (nat \<times> rb_tree) outcome" where
  "light_step s cur =
     bind_outcome (node s cur) (\<lambda>n.
     bind_outcome (node s (parent n)) (\<lambda>pn. light_side (if cur = left pn then SL else SR) s cur))"

partial_function (option) light_loop :: "rb_tree \<Rightarrow> nat \<Rightarrow> (nat \<times> rb_tree) outcome option" where
  "light_loop s cur =
     (if cur = root s then Some (Ok (cur, s))
      else obind (Some (node s cur)) (\<lambda>n.
        if color n = Black then obind (Some (light_step s cur)) (\<lambda>r. light_loop (snd r) (fst r))
        else Some (Ok (cur, s))))"

definition rbtree_remove_fixup :: "rb_tree \<Rightarrow> nat \<Rightarrow> rb_tree outcome option" where
  "rbtree_remove_fixup s p = obind (light_loop s p) (\<lambda>r. Some (paint Black (snd r) (fst r)))"

text \<open>A node with two children changes places with its successor.\<close>

definition swap_with :: "rb_tree \<Rightarrow> nat \<Rightarrow> nat \<Rightarrow> rb_tree outcome" where
  "swap_with s p succ =
     bind_outcome (node s p) (\<lambda>n.
     bind_outcome (node s succ) (\<lambda>sn.
       let immediate_succ = (right n = succ)
       in bind_outcome (upd s succ (\<lambda>x. x\<lparr>parent := parent n, left := left n,
              right := (if immediate_succ then p else right n), color := color n\<rparr>)) (\<lambda>s1.
          bind_outcome (upd s1 p (\<lambda>x. x\<lparr>parent := (if immediate_succ then succ else parent sn), left := left sn,
              right := right sn, color := color sn\<rparr>)) (\<lambda>s2.
          bind_outcome (if immediate_succ then Ok s2 else bind_outcome (node s2 p) (\<lambda>n2. replace_child s2 (parent n2) succ p)) (\<lambda>s3.
          bind_outcome (node s3 p) (\<lambda>n3.
          bind_outcome (set_parent s3 (left n3) p) (\<lambda>s4.
          bind_outcome (node s4 p) (\<lambda>n4.
          bind_outcome (set_parent s4 (right n4) p) (\<lambda>s5.
          bind_outcome (node s5 succ) (\<lambda>sn5.
          bind_outcome (relink s5 (parent sn5) p succ) (\<lambda>s6.
          bind_outcome (node s6 succ) (\<lambda>sn6.
          bind_outcome (set_parent s6 (left sn6) succ) (\<lambda>s7.
          bind_outcome (node s7 succ) (\<lambda>sn7.
            set_parent s7 (right sn7) succ))))))))))))))"

text \<open>A node with at most one child is taken out; the child is returned with the tree.\<close>

definition cut_node :: "rb_tree \<Rightarrow> nat \<Rightarrow> (nat \<times> rb_tree) outcome" where
  "cut_node s p =
     bind_outcome (node s p) (\<lambda>n.
       let ch = (if left n \<noteq> 0 then left n else right n)
       in bind_outcome (set_parent s ch (parent n)) (\<lambda>s1.
          bind_outcome (node s1 p) (\<lambda>n1.
          bind_outcome (relink s1 (parent n1) p ch) (\<lambda>s2. Ok (ch, s2)))))"

text \<open>A node with two children first trades places with its successor, which has at most one.\<close>

definition one_child :: "rb_tree \<Rightarrow> nat \<Rightarrow> rb_node \<Rightarrow> rb_tree outcome option" where
  "one_child s p n =
     (if left n \<noteq> 0 \<and> right n \<noteq> 0
      then obind (rbnode_minimum s (right n)) (\<lambda>succ. Some (swap_with s p succ)) else Some (Ok s))"

text \<open>The node is taken out, the colours are fixed if a black node with a child is gone, and the node is freed.\<close>

definition take_out :: "rb_tree \<Rightarrow> nat \<Rightarrow> rb_tree outcome option" where
  "take_out s p =
     obind (Some (cut_node s p)) (\<lambda>r.
     obind (Some (node (snd r) p)) (\<lambda>n.
     obind (if color n = Black \<and> fst r \<noteq> 0 then rbtree_remove_fixup (snd r) (fst r) else Some (Ok (snd r))) (\<lambda>s1.
     obind (Some (free_node s1 p)) (\<lambda>s2. Some (Ok (s2\<lparr>isize := isize s2 - 1\<rparr>))))))"

definition rbtree_remove_at :: "bool \<Rightarrow> rb_tree \<Rightarrow> nat \<Rightarrow> (nat list \<times> rb_tree) outcome option" where
  "rbtree_remove_at d s p =
     (if isize s = 1
      then obind (rbnode_destruct d s (root s)) (\<lambda>r. Some (Ok (fst r, (snd r)\<lparr>root := 0, isize := 0\<rparr>)))
      else
        obind (Some (node s p)) (\<lambda>n.
        obind (one_child s p n) (\<lambda>s1.
        obind (take_out s1 p) (\<lambda>s2. Some (Ok ([], s2))))))"

definition rbtree_remove :: "(nat \<Rightarrow> 32 word) \<Rightarrow> bool \<Rightarrow> nat \<Rightarrow> rb_tree \<Rightarrow> (nat list \<times> rb_tree) outcome option" where
  "rbtree_remove num d obj s = obind (rbtree_find num obj s) (\<lambda>p. rbtree_remove_at d s p)"

definition rbtree_clean :: "bool \<Rightarrow> rb_tree \<Rightarrow> (nat list \<times> rb_tree) outcome option" where
  "rbtree_clean d s =
     obind (if root s \<noteq> 0 then rbnode_destruct d s (root s) else Some (Ok ([], s))) (\<lambda>r.
       Some (Ok (fst r, (snd r)\<lparr>root := 0, isize := 0\<rparr>)))"

text \<open>The objects destructed, and the nodes that are left.\<close>

definition rbtree_destruct :: "bool \<Rightarrow> rb_tree \<Rightarrow> (nat list \<times> (nat \<rightharpoonup> rb_node)) outcome option" where
  "rbtree_destruct d s = obind (rbtree_clean d s) (\<lambda>r. Some (Ok (fst r, nodes (snd r))))"

end
