(* ===== verification/Ffsb_Tree.thy ===== *)
theory Ffsb_Tree
  imports Ffsb_Rbt
begin

text \<open>
  The trees that the nodes of \<^verbatim>\<open>rbt.c\<close> form: a tree with the addresses of its nodes, the store that has its
  links, the place of a subtree as a path to the root, and what a rotation does to the tree.
\<close>

named_theorems side_simps \<open>children of nodes by side\<close>

section \<open>Trees with addresses\<close>

datatype tree = Lf | Nd nat rb_color nat tree tree

fun rt :: "tree \<Rightarrow> nat" where
  "rt Lf = 0"
| "rt (Nd a c ob l r) = a"

fun addrs :: "tree \<Rightarrow> nat list" where
  "addrs Lf = []"
| "addrs (Nd a c ob l r) = addrs l @ a # addrs r"

fun objs :: "tree \<Rightarrow> nat list" where
  "objs Lf = []"
| "objs (Nd a c ob l r) = objs l @ ob # objs r"

fun hue :: "tree \<Rightarrow> rb_color" where
  "hue Lf = Black"
| "hue (Nd a c ob l r) = c"

fun dye :: "rb_color \<Rightarrow> tree \<Rightarrow> tree" where
  "dye c Lf = Lf"
| "dye c (Nd a c' ob l r) = Nd a c ob l r"

lemma dye_keeps [simp]: "rt (dye c t) = rt t" "addrs (dye c t) = addrs t" "objs (dye c t) = objs t"
  "dye c t = Lf \<longleftrightarrow> t = Lf"
  by (cases t; simp)+

lemma length_objs [simp]: "length (objs t) = length (addrs t)"
  by (induction t) auto

text \<open>A node with its subtree on the side \<open>d\<close> first, and the record of such a node.\<close>

definition Nod :: "side \<Rightarrow> nat \<Rightarrow> rb_color \<Rightarrow> nat \<Rightarrow> tree \<Rightarrow> tree \<Rightarrow> tree" where
  "Nod d a c ob t u = (case d of SL \<Rightarrow> Nd a c ob t u | SR \<Rightarrow> Nd a c ob u t)"

definition rec :: "side \<Rightarrow> nat \<Rightarrow> rb_color \<Rightarrow> nat \<Rightarrow> nat \<Rightarrow> nat \<Rightarrow> rb_node" where
  "rec d ob c p q r = (case d of
       SL \<Rightarrow> \<lparr>object = ob, color = c, parent = p, right = r, left = q\<rparr>
     | SR \<Rightarrow> \<lparr>object = ob, color = c, parent = p, right = q, left = r\<rparr>)"

lemma opp_opp [simp]: "opp (opp d) = d" by (cases d) auto

lemma opp_neq [simp]: "opp d \<noteq> d" "d \<noteq> opp d" by (cases d; simp)+

lemma side_cases: "e = d \<or> e = opp d" by (cases d; cases e) auto

lemma Nod_opp [side_simps]: "Nod (opp d) a c ob t u = Nod d a c ob u t" by (cases d) (simp_all add: Nod_def)

lemma rec_opp [side_simps]: "rec (opp d) ob c p q r = rec d ob c p r q" by (cases d) (simp_all add: rec_def)

lemma rec_sel [simp]:
  "child d (rec d ob c p q r) = q" "child (opp d) (rec d ob c p q r) = r"
  "object (rec d ob c p q r) = ob" "color (rec d ob c p q r) = c" "parent (rec d ob c p q r) = p"
  by (cases d; simp add: rec_def)+

lemma rec_upd [simp]:
  "set_child d x (rec d ob c p q r) = rec d ob c p x r" "set_child (opp d) x (rec d ob c p q r) = rec d ob c p q x"
  "(rec d ob c p q r)\<lparr>object := y\<rparr> = rec d y c p q r" "(rec d ob c p q r)\<lparr>color := k\<rparr> = rec d ob k p q r"
  "(rec d ob c p q r)\<lparr>parent := z\<rparr> = rec d ob c z q r"
  by (cases d; simp add: rec_def)+

lemma rec_upd_left_right [simp]:
  "(rec SL ob c p q r)\<lparr>left := x\<rparr> = rec SL ob c p x r" "(rec SR ob c p q r)\<lparr>right := x\<rparr> = rec SR ob c p x r"
  "(rec SL ob c p q r)\<lparr>right := x\<rparr> = rec SL ob c p q x" "(rec SR ob c p q r)\<lparr>left := x\<rparr> = rec SR ob c p q x"
  by (simp_all add: rec_def)

lemma rec_left_right: "left (rec d ob c p q r) = (if d = SL then q else r)" "right (rec d ob c p q r) = (if d = SL then r else q)"
  by (cases d; simp add: rec_def)+

lemma Nod_sel [simp]:
  "rt (Nod d a c ob t u) = a" "Nod d a c ob t u \<noteq> Lf" "hue (Nod d a c ob t u) = c"
  "set (addrs (Nod d a c ob t u)) = insert a (set (addrs t) \<union> set (addrs u))"
  "length (addrs (Nod d a c ob t u)) = Suc (length (addrs t) + length (addrs u))"
  "dye k (Nod d a c ob t u) = Nod d a k ob t u"
  by (cases d; auto simp: Nod_def)+

lemma Nod_distinct [simp]:
  "distinct (addrs (Nod d a c ob t u)) \<longleftrightarrow> distinct (addrs t) \<and> distinct (addrs u) \<and> a \<notin> set (addrs t) \<and> a \<notin> set (addrs u) \<and>
     set (addrs t) \<inter> set (addrs u) = {}"
  by (cases d) (auto simp: Nod_def)

lemma Nd_as_Nod: "Nd a c ob l r = Nod SL a c ob l r" by (simp add: Nod_def)

lemma tree_as_Nod: "t \<noteq> Lf \<Longrightarrow> \<exists>a c ob u v. t = Nod d a c ob u v"
  by (cases t; cases d) (auto simp: Nod_def)

section \<open>The links in the store\<close>

type_synonym store = "nat \<rightharpoonup> rb_node"

text \<open>The store has the nodes of the tree, the topmost of them with the parent \<open>p\<close>.\<close>

fun tree_at :: "store \<Rightarrow> nat \<Rightarrow> tree \<Rightarrow> bool" where
  "tree_at h p Lf \<longleftrightarrow> True"
| "tree_at h p (Nd a c ob l r) \<longleftrightarrow>
     a \<noteq> 0 \<and> h a = Some (rec SL ob c p (rt l) (rt r)) \<and> tree_at h a l \<and> tree_at h a r"

lemma tree_at_Nod [simp]:
  "tree_at h p (Nod d a c ob t u) \<longleftrightarrow>
     a \<noteq> 0 \<and> h a = Some (rec d ob c p (rt t) (rt u)) \<and> tree_at h a t \<and> tree_at h a u"
  by (cases d) (auto simp: Nod_def rec_def)

lemma tree_at_other [simp]: "a \<notin> set (addrs t) \<Longrightarrow> tree_at (h(a := v)) p t = tree_at h p t"
  by (induction t arbitrary: p) auto

lemma tree_at_null: "tree_at h p t \<Longrightarrow> 0 \<notin> set (addrs t)"
  by (induction t arbitrary: p) auto

lemma tree_at_dom: "tree_at h p t \<Longrightarrow> a \<in> set (addrs t) \<Longrightarrow> \<exists>n. h a = Some n"
  by (induction t arbitrary: p) auto

lemma rt_zero: "tree_at h p t \<Longrightarrow> rt t = 0 \<longleftrightarrow> t = Lf"
  by (cases t) auto

lemma rt_in: "t \<noteq> Lf \<Longrightarrow> rt t \<in> set (addrs t)"
  by (cases t) auto

text \<open>The parent pointer of a subtree is set.\<close>

definition hang :: "store \<Rightarrow> tree \<Rightarrow> nat \<Rightarrow> store" where
  "hang h t p = (if t = Lf then h else case h (rt t) of None \<Rightarrow> h | Some n \<Rightarrow> h(rt t \<mapsto> n\<lparr>parent := p\<rparr>))"

lemma tree_at_hang [simp]:
  assumes "tree_at h p t" "distinct (addrs t)"
  shows "tree_at (hang h t q) q t"
  using assms by (cases t) (auto simp: hang_def)

lemma hang_other [simp]: "a \<notin> set (addrs t) \<Longrightarrow> hang h t q a = h a"
  by (auto simp: hang_def rt_in split: option.splits)

lemma tree_at_hang_other [simp]: "set (addrs t) \<inter> set (addrs u) = {} \<Longrightarrow> tree_at (hang h t q) p u = tree_at h p u"
  using rt_in [of t] by (cases "t = Lf") (auto simp: hang_def disjoint_iff split: option.splits)

lemma hang_upd: "a \<notin> set (addrs t) \<Longrightarrow> hang (h(a := v)) t q = (hang h t q)(a := v)"
  by (cases "t = Lf") (auto simp: hang_def fun_upd_twist dest: rt_in split: option.splits)

lemma dom_hang [simp]: "dom (hang h t q) = dom h"
  by (auto simp: hang_def split: option.splits if_splits)

section \<open>Places\<close>

text \<open>A step from a subtree up: the side on which it hangs, the node upper and the subtree on the other side.\<close>

type_synonym up = "side \<times> nat \<times> rb_color \<times> nat \<times> tree"

fun fill :: "up list \<Rightarrow> tree \<Rightarrow> tree" where
  "fill [] t = t"
| "fill ((d, a, c, ob, u) # k) t = fill k (Nod d a c ob t u)"

fun upper :: "up list \<Rightarrow> nat \<Rightarrow> nat" where
  "upper [] b = b"
| "upper ((d, a, c, ob, u) # k) b = a"

fun caddrs :: "up list \<Rightarrow> nat list" where
  "caddrs [] = []"
| "caddrs ((d, a, c, ob, u) # k) = a # addrs u @ caddrs k"

text \<open>The store has the nodes of a path below the node \<open>b\<close>; \<open>q\<close> is the address of the subtree at its lower end.\<close>

fun path_at :: "store \<Rightarrow> nat \<Rightarrow> up list \<Rightarrow> nat \<Rightarrow> bool" where
  "path_at h b [] q \<longleftrightarrow> True"
| "path_at h b ((d, a, c, ob, u) # k) q \<longleftrightarrow>
     a \<noteq> 0 \<and> h a = Some (rec d ob c (upper k b) q (rt u)) \<and> tree_at h a u \<and> path_at h b k a"

lemma fill_append [simp]: "fill (k @ k') t = fill k' (fill k t)"
  by (induction k t rule: fill.induct) auto

lemma tree_at_fill: "tree_at h b (fill k t) \<longleftrightarrow> path_at h b k (rt t) \<and> tree_at h (upper k b) t"
  by (induction k t rule: fill.induct) auto

lemma addrs_fill [simp]: "set (addrs (fill k t)) = set (caddrs k) \<union> set (addrs t)"
  by (induction k t rule: fill.induct) auto

lemma distinct_fill [simp]:
  "distinct (addrs (fill k t)) \<longleftrightarrow> distinct (caddrs k) \<and> distinct (addrs t) \<and> set (caddrs k) \<inter> set (addrs t) = {}"
  by (induction k t rule: fill.induct) auto

lemma length_fill [simp]: "length (addrs (fill k t)) = length (caddrs k) + length (addrs t)"
  by (induction k t rule: fill.induct) auto

lemma path_at_other [simp]: "a \<notin> set (caddrs k) \<Longrightarrow> path_at (h(a := v)) b k q = path_at h b k q"
  by (induction k arbitrary: q rule: caddrs.induct) auto

lemma path_at_hang [simp]: "set (caddrs k) \<inter> set (addrs t) = {} \<Longrightarrow> path_at (hang h t p) b k q = path_at h b k q"
proof (cases "t = Lf")
  case False
  assume "set (caddrs k) \<inter> set (addrs t) = {}"
  with rt_in [OF False] have "rt t \<notin> set (caddrs k)" by blast
  then show ?thesis by (auto simp: hang_def split: option.splits)
qed (simp add: hang_def split: option.splits)

lemma fill_Lf [simp]: "fill k t = Lf \<longleftrightarrow> k = [] \<and> t = Lf"
  by (induction k t rule: fill.induct) auto

lemma rt_fill: "rt (fill k t) = (if k = [] then rt t else fst (snd (last k)))"
  by (induction k t rule: fill.induct) auto

lemma rt_fill_same: "k \<noteq> [] \<or> rt t = rt u \<Longrightarrow> rt (fill k t) = rt (fill k u)"
  by (auto simp: rt_fill)

lemma top_in: "k \<noteq> [] \<Longrightarrow> upper k b \<in> set (caddrs k)"
  by (cases k) (auto split: prod.splits)

lemma path_top: "path_at h b k q \<Longrightarrow> k \<noteq> [] \<Longrightarrow> upper k b \<noteq> 0 \<and> h (upper k b) \<noteq> None"
  by (cases k) auto

text \<open>The order of the objects, with a part before and a part after the place.\<close>

fun before :: "up list \<Rightarrow> nat list" where
  "before [] = []"
| "before ((d, a, c, ob, u) # k) = before k @ (case d of SL \<Rightarrow> [] | SR \<Rightarrow> objs u @ [ob])"

fun after :: "up list \<Rightarrow> nat list" where
  "after [] = []"
| "after ((d, a, c, ob, u) # k) = (case d of SL \<Rightarrow> ob # objs u | SR \<Rightarrow> []) @ after k"

lemma objs_fill: "objs (fill k t) = before k @ objs t @ after k"
  by (induction k t rule: fill.induct) (auto simp: Nod_def split: side.splits)

lemma objs_fill_cong: "objs t = objs u \<Longrightarrow> objs (fill k t) = objs (fill k u)"
  by (simp add: objs_fill)

section \<open>Linked trees\<close>

definition linked :: "rb_tree \<Rightarrow> tree \<Rightarrow> bool" where
  "linked s t \<longleftrightarrow> tree_at (nodes s) 0 t \<and> root s = rt t \<and> distinct (addrs t)"

lemma linked_node:
  assumes "linked s (fill k (Nod d a c ob t u))"
  shows "node s a = Ok (rec d ob c (upper k 0) (rt t) (rt u))"
  using assms by (simp add: linked_def tree_at_fill node_def)

lemma upd_Ok: "nodes s p = Some n \<Longrightarrow> upd s p f = Ok (s\<lparr>nodes := (nodes s)(p \<mapsto> f n)\<rparr>)"
  by (simp add: upd_def)

lemma set_parent_hang:
  assumes "tree_at (nodes s) p t"
  shows "set_parent s (rt t) q = Ok (s\<lparr>nodes := hang (nodes s) t q\<rparr>)"
  using assms by (cases t) (simp_all add: set_parent_def hang_def upd_def)

text \<open>Relinking the place from one subtree to another.\<close>

definition plug :: "store \<Rightarrow> up list \<Rightarrow> nat \<Rightarrow> store" where
  "plug h k q = (case k of [] \<Rightarrow> h | (d, a, c, ob, u) # k' \<Rightarrow>
     (case h a of None \<Rightarrow> h | Some n \<Rightarrow> h(a \<mapsto> set_child d q n)))"

lemma path_at_plug [simp]:
  assumes "path_at h b k q" "distinct (caddrs k)"
  shows "path_at (plug h k q') b k q'"
proof (cases k)
  case (Cons x k')
  then show ?thesis using assms by (cases x) (auto simp: plug_def)
qed simp

lemma plug_other [simp]: "a \<notin> set (caddrs k) \<Longrightarrow> plug h k q a = h a"
  by (auto simp: plug_def split: list.splits option.splits)

lemma tree_at_plug [simp]: "set (caddrs k) \<inter> set (addrs t) = {} \<Longrightarrow> tree_at (plug h k q) p t = tree_at h p t"
  by (auto simp: plug_def split: list.splits option.splits)

lemma dom_plug [simp]: "dom (plug h k q) = dom h"
  by (auto simp: plug_def split: list.splits option.splits if_splits)

lemma path_at_plug_other [simp]: "set (caddrs k') \<inter> set (caddrs k) = {} \<Longrightarrow> path_at (plug h k' r) b k q = path_at h b k q"
  by (auto simp: plug_def split: list.splits option.splits)

lemma replace_child_plug:
  assumes "path_at (nodes s) b k q" "distinct (caddrs k)" "q \<noteq> 0" "q \<notin> set (caddrs k)" "k \<noteq> []"
  shows "replace_child s (upper k b) q q' = Ok (s\<lparr>nodes := plug (nodes s) k q'\<rparr>)"
proof -
  obtain d a c ob u k' where k: "k = (d, a, c, ob, u) # k'" using assms(5) by (cases k) auto
  have "rt u \<noteq> q" using assms(3,4) k rt_in [of u] by (cases "u = Lf") auto
  with assms k show ?thesis
    by (cases d) (auto simp: replace_child_def plug_def upd_def node_def rec_left_right)
qed

lemma relink_plug:
  assumes "path_at (nodes s) 0 k q" "distinct (caddrs k)" "q \<noteq> 0" "q \<notin> set (caddrs k)"
  shows "relink s (upper k 0) q q' = Ok (s\<lparr>nodes := plug (nodes s) k q', root := (if k = [] then q' else root s)\<rparr>)"
proof (cases "k = []")
  case False
  with replace_child_plug [OF assms False] path_top [OF assms(1) False] show ?thesis by (simp add: relink_def)
qed (simp add: relink_def plug_def)

text \<open>A path is hung below another node.\<close>

definition rebase :: "store \<Rightarrow> up list \<Rightarrow> nat \<Rightarrow> store" where
  "rebase h k b = (if k = [] then h else case h (fst (snd (last k))) of
     None \<Rightarrow> h | Some n \<Rightarrow> h(fst (snd (last k)) \<mapsto> n\<lparr>parent := b\<rparr>))"

lemma last_in: "k \<noteq> [] \<Longrightarrow> fst (snd (last k)) \<in> set (caddrs k)"
  by (induction k rule: caddrs.induct) (auto split: if_splits)

lemma path_last: "path_at h b k q \<Longrightarrow> k \<noteq> [] \<Longrightarrow> \<exists>n. h (fst (snd (last k))) = Some n"
  by (induction k arbitrary: q rule: caddrs.induct) (auto split: if_splits)

lemma path_at_rebase:
  assumes "path_at h b k q" "distinct (caddrs k)"
  shows "path_at (rebase h k b') b' k q"
  using assms
proof (induction k arbitrary: q rule: caddrs.induct)
  case (2 d a c ob u k)
  show ?case
  proof (cases "k = []")
    case False
    have "fst (snd (last k)) \<noteq> a" "fst (snd (last k)) \<notin> set (addrs u)" using 2(3) last_in [OF False] by auto
    then have "rebase h ((d, a, c, ob, u) # k) b' = rebase h k b'" "rebase h k b' a = h a"
      "tree_at (rebase h k b') a u = tree_at h a u"
      using False by (auto simp: rebase_def split: option.splits)
    moreover have "upper k b = upper k b'" using False by (cases k) auto
    ultimately show ?thesis using 2 by auto
  next
    case True
    then have e: "rebase h ((d, a, c, ob, u) # k) b' = h(a \<mapsto> rec d ob c b' q (rt u))" using 2(2) by (simp add: rebase_def)
    show ?thesis unfolding e path_at.simps using 2(2,3) True by simp
  qed
qed simp

lemma rebase_other:
  assumes "a \<notin> set (caddrs k)"
  shows "rebase h k b a = h a"
  using assms last_in [of k] by (auto simp: rebase_def split: option.splits)

lemma rebase_tree: "set (caddrs k) \<inter> set (addrs t) = {} \<Longrightarrow> tree_at (rebase h k b) p t = tree_at h p t"
  using last_in [of k] by (auto simp: rebase_def disjoint_iff split: option.splits)

lemma rebase_path: "set (caddrs k) \<inter> set (caddrs k') = {} \<Longrightarrow> path_at (rebase h k b) b' k' q = path_at h b' k' q"
  using last_in [of k] by (auto simp: rebase_def disjoint_iff split: option.splits)

lemma dom_rebase [simp]: "dom (rebase h k b) = dom h"
  by (auto simp: rebase_def split: option.splits if_splits)

definition same_nodes :: "rb_tree \<Rightarrow> rb_tree \<Rightarrow> bool" where
  "same_nodes s s' \<longleftrightarrow> isize s' = isize s \<and> dom (nodes s') = dom (nodes s)"

lemma same_nodes_refl [simp]: "same_nodes s s" by (simp add: same_nodes_def)

lemma same_nodes_trans: "same_nodes s s' \<Longrightarrow> same_nodes s' s'' \<Longrightarrow> same_nodes s s''" by (simp add: same_nodes_def)

lemma rotate_linked:
  assumes "linked s (fill k (Nod d x c ob A (Nod d y c' ob' B C)))"
  shows "\<exists>s'. rotate_to d s x = Ok s' \<and> linked s' (fill k (Nod d y c' ob' (Nod d x c ob A B) C)) \<and> same_nodes s s'"
proof -
  let ?h = "nodes s"
  define h1 where "h1 = ?h(x \<mapsto> rec d ob c (upper k 0) (rt A) (rt B))"
  define h2 where "h2 = hang h1 B x"
  define h3 where "h3 = h2(y \<mapsto> rec d ob' c' (upper k 0) (rt B) (rt C))"
  define h4 where "h4 = plug h3 k y"
  define h6 where "h6 = h4(y \<mapsto> rec d ob' c' (upper k 0) x (rt C), x \<mapsto> rec d ob c y (rt A) (rt B))"
  have L: "path_at ?h 0 k x" "x \<noteq> 0" "y \<noteq> 0" "?h x = Some (rec d ob c (upper k 0) (rt A) y)"
    "?h y = Some (rec d ob' c' x (rt B) (rt C))" "tree_at ?h x A" "tree_at ?h y B" "tree_at ?h y C"
    using assms by (auto simp: linked_def tree_at_fill)
  have N: "distinct (caddrs k)" "distinct (addrs A)" "distinct (addrs B)" "distinct (addrs C)" "x \<noteq> y"
    "x \<notin> set (caddrs k)" "y \<notin> set (caddrs k)" "x \<notin> set (addrs A)" "y \<notin> set (addrs A)" "x \<notin> set (addrs B)"
    "y \<notin> set (addrs B)" "x \<notin> set (addrs C)" "y \<notin> set (addrs C)" "set (addrs A) \<inter> set (addrs B) = {}" "set (addrs B) \<inter> set (addrs A) = {}"
    "set (addrs A) \<inter> set (addrs C) = {}" "set (addrs B) \<inter> set (addrs C) = {}"
    "set (caddrs k) \<inter> set (addrs A) = {}" "set (caddrs k) \<inter> set (addrs B) = {}" "set (caddrs k) \<inter> set (addrs C) = {}"
    using assms by (auto simp: linked_def)
  have B: "tree_at h1 y B" "path_at h3 0 k x" using L N by (simp_all add: h1_def h2_def h3_def)
  define r where "r = (if k = [] then y else root s)"
  let ?s3 = "s\<lparr>nodes := h3\<rparr>"
  have h2: "h2 x = h1 x" "h2 y = ?h y" and h4: "h4 y = h3 y" "h4 x = h2 x"
    using N by (simp_all add: h2_def h1_def h3_def h4_def)
  have e1: "upd s x (set_child (opp d) (rt B)) = Ok (s\<lparr>nodes := h1\<rparr>)" using L by (simp add: upd_def h1_def)
  have e2: "set_parent (s\<lparr>nodes := h1\<rparr>) (rt B) x = Ok (s\<lparr>nodes := h2\<rparr>)"
    using set_parent_hang [of "s\<lparr>nodes := h1\<rparr>" y B x] B by (simp add: h2_def)
  have e3: "upd (s\<lparr>nodes := h2\<rparr>) y (\<lambda>n. n\<lparr>parent := upper k 0\<rparr>) = Ok ?s3"
    using L h2 by (simp add: upd_def h3_def)
  have e4: "relink ?s3 (upper k 0) x y = Ok (s\<lparr>nodes := h4, root := r\<rparr>)"
    using relink_plug [OF _ N(1) L(2) N(6), of ?s3 y] B by (simp add: h4_def r_def)
  have e5: "upd (s\<lparr>nodes := h4, root := r\<rparr>) y (set_child d x) =
      Ok (s\<lparr>nodes := h4(y \<mapsto> rec d ob' c' (upper k 0) x (rt C)), root := r\<rparr>)"
    using h4 by (simp add: upd_def h3_def)
  have e6: "upd (s\<lparr>nodes := h4(y \<mapsto> rec d ob' c' (upper k 0) x (rt C)), root := r\<rparr>) x (\<lambda>n. n\<lparr>parent := y\<rparr>) =
      Ok (s\<lparr>nodes := h6, root := r\<rparr>)"
    using h4 h2 N by (simp add: upd_def h1_def h6_def)
  have n: "node s x = Ok (rec d ob c (upper k 0) (rt A) y)" "node s y = Ok (rec d ob' c' x (rt B) (rt C))"
    "node (s\<lparr>nodes := h2\<rparr>) x = Ok (rec d ob c (upper k 0) (rt A) (rt B))" "node ?s3 x = node (s\<lparr>nodes := h2\<rparr>) x"
    using L N h2 by (simp_all add: node_def h1_def h3_def)
  have "rotate_to d s x = Ok (s\<lparr>nodes := h6, root := r\<rparr>)"
    using n by (simp add: rotate_to_def e1 e2 e3 e4 e5 e6 Let_def del: bind_outcome_Ok_conv)
  moreover have "linked (s\<lparr>nodes := h6, root := r\<rparr>) (fill k (Nod d y c' ob' (Nod d x c ob A B) C))"
    using L N B assms by (auto simp: linked_def tree_at_fill rt_fill r_def h1_def h2_def h3_def h4_def h6_def)
  moreover have "dom h6 = dom ?h" using L by (auto simp: h1_def h2_def h3_def h4_def h6_def)
  ultimately show ?thesis by (auto simp: same_nodes_def)
qed

lemma paint_linked:
  assumes "linked s (fill k t)" "t \<noteq> Lf"
  shows "\<exists>s'. paint c s (rt t) = Ok s' \<and> linked s' (fill k (dye c t)) \<and> same_nodes s s' \<and> root s' = root s"
proof -
  obtain a c0 ob l r where t: "t = Nod SL a c0 ob l r" using tree_as_Nod [OF assms(2)] by blast
  let ?n = "rec SL ob c (upper k 0) (rt l) (rt r)"
  have h: "nodes s a = Some (rec SL ob c0 (upper k 0) (rt l) (rt r))" using assms(1) t by (simp add: linked_def tree_at_fill)
  then have p: "paint c s (rt t) = Ok (s\<lparr>nodes := (nodes s)(a \<mapsto> ?n)\<rparr>)" by (simp add: paint_def upd_def t)
  have "linked (s\<lparr>nodes := (nodes s)(a \<mapsto> ?n)\<rparr>) (fill k (dye c t))"
    using assms(1) t by (auto simp: linked_def tree_at_fill rt_fill)
  with p h show ?thesis by (auto simp: same_nodes_def)
qed

lemma linked_sub:
  assumes "linked s (fill k t)"
  shows "tree_at (nodes s) (upper k 0) t"
  using assms by (simp add: linked_def tree_at_fill)

lemma red_at_tree: "tree_at (nodes s) p t \<Longrightarrow> red_at s (rt t) = Ok (hue t = Red)"
  by (cases t) (simp_all add: red_at_def node_def)

lemma linked_sibling:
  assumes "linked s (fill k (Nod d a c ob t u))"
  shows "tree_at (nodes s) a t" "tree_at (nodes s) a u"
  using assms by (simp_all add: linked_def tree_at_fill)

lemma root_place:
  assumes "linked s (fill k t)" "t \<noteq> Lf"
  shows "rt t = root s \<longleftrightarrow> k = []"
proof -
  have "rt t \<notin> set (caddrs k)" using assms rt_in [OF assms(2)] by (auto simp: linked_def)
  moreover have "fst (snd (last k)) \<in> set (caddrs k)" if "k \<noteq> []"
    using that by (induction k rule: caddrs.induct) (auto split: if_splits)
  ultimately show ?thesis using assms(1) by (auto simp: linked_def rt_fill)
qed

end
