(* ===== verification/Ffsb_Insert.thy ===== *)
theory Ffsb_Insert
  imports Ffsb_Tree
begin

text \<open>
  Insertion into the trees of \<^verbatim>\<open>rbt.c\<close>: what the fix-up makes of the tree, that it ends, and that it keeps
  the order, the colours and the black height.
\<close>

section \<open>The fix-up on trees\<close>

fun sub :: "side \<Rightarrow> tree \<Rightarrow> tree" where
  "sub SL (Nd a c ob l r) = l"
| "sub SR (Nd a c ob l r) = r"
| "sub d Lf = Lf"

fun obj :: "tree \<Rightarrow> nat" where
  "obj (Nd a c ob l r) = ob"
| "obj Lf = 0"

lemma Nod_sub: "t \<noteq> Lf \<Longrightarrow> Nod d (rt t) (hue t) (obj t) (sub d t) (sub (opp d) t) = t"
  by (cases t; cases d) (simp_all add: Nod_def)

fun afix :: "up list \<Rightarrow> tree \<Rightarrow> tree" where
  "afix ((e, p, Red, po, w) # (d, g, gc, go, u) # k) t =
     (if hue u = Red then afix k (Nod d g Red go (Nod e p Black po t w) (dye Black u))
      else if e = d then fill k (Nod d p Black po t (Nod d g Red go w u))
      else fill k (Nod d (rt t) Black (obj t) (Nod d p Red po w (sub d t)) (Nod d g Red go (sub (opp d) t) u)))"
| "afix k t = fill k t"

lemmas afix_induct = afix.induct [case_names 1 nil inner single]

fun last_black :: "up list \<Rightarrow> bool" where
  "last_black [] \<longleftrightarrow> True"
| "last_black [(d, a, c, ob, u)] \<longleftrightarrow> c = Black"
| "last_black (x # y # k) \<longleftrightarrow> last_black (y # k)"

lemma fix_guard_at:
  assumes "linked s (fill ((d, p, c, po, w) # k) t)" "t \<noteq> Lf"
  shows "fix_guard s (rt t) = Ok (c = Red)"
proof -
  have "rt t \<noteq> root s" using root_place [OF assms] by simp
  moreover have "node s p = Ok (rec d po c (upper k 0) (rt t) (rt w))" using linked_node [of s k] assms(1) by simp
  moreover have "\<exists>n. node s (rt t) = Ok n \<and> parent n = p"
    using linked_sub [OF assms(1)] assms(2) by (cases t) (simp_all add: node_def)
  ultimately show ?thesis by (auto simp: fix_guard_def)
qed

lemma fix_step_at:
  assumes "linked s (fill ((e, p, c, po, w) # (d, g, gc, go, u) # k) t)" "t \<noteq> Lf"
  shows "fix_step s (rt t) = fix_side d s (rt t) p g (rt u)"
proof -
  have g: "node s g = Ok (rec d go gc (upper k 0) p (rt u))" using linked_node [of s k d g] assms(1) by simp
  have p: "node s p = Ok (rec e po c g (rt t) (rt w))" using linked_node [of s "(d, g, gc, go, u) # k" e p] assms(1) by simp
  have "\<exists>n. node s (rt t) = Ok n \<and> parent n = p"
    using linked_sub [OF assms(1)] assms(2) by (cases t) (simp_all add: node_def)
  moreover have "p \<noteq> rt u"
    using assms(1) rt_in [of u] by (cases "u = Lf") (auto simp: linked_def tree_at_fill)
  ultimately show ?thesis using g p by (cases d) (auto simp: fix_step_def rec_left_right)
qed

lemma fix_side_recolour:
  assumes "linked s (fill ((e, p, c, po, w) # (d, g, gc, go, u) # k) t)" "hue u = Red"
  shows "\<exists>s'. fix_side d s (rt t) p g (rt u) = Ok (g, s') \<and> same_nodes s s' \<and>
    linked s' (fill k (Nod d g Red go (Nod e p Black po t w) (dye Black u)))"
proof -
  have u: "u \<noteq> Lf" using assms(2) by auto
  have r: "red_at s (rt u) = Ok True" using red_at_tree [OF linked_sibling(2) [of s k d g]] assms by simp
  obtain s1 where s1: "paint Black s p = Ok s1" "same_nodes s s1"
    "linked s1 (fill ((d, g, gc, go, u) # k) (Nod e p Black po t w))"
    using paint_linked [of s "(d, g, gc, go, u) # k" "Nod e p c po t w" Black] assms(1) by auto
  then have "linked s1 (fill ((opp d, g, gc, go, Nod e p Black po t w) # k) u)" by (simp add: side_simps)
  from paint_linked [OF this u, of Black] obtain s2 where s2: "paint Black s1 (rt u) = Ok s2" "same_nodes s1 s2"
    "linked s2 (fill k (Nod d g gc go (Nod e p Black po t w) (dye Black u)))"
    by (auto simp: side_simps)
  from paint_linked [OF this(3), of Red] obtain s3 where s3: "paint Red s2 g = Ok s3" "same_nodes s2 s3"
    "linked s3 (fill k (Nod d g Red go (Nod e p Black po t w) (dye Black u)))" by auto
  show ?thesis
    using r s1(1) s2(1) s3 same_nodes_trans [OF s1(2) same_nodes_trans [OF s2(2) s3(2)]] by (auto simp: fix_side_def)
qed

text \<open>The last rotation, with the current node on the outer side.\<close>

lemma fix_side_outer:
  assumes "linked s (fill ((d, p, c, po, w) # (d, g, gc, go, u) # k) t)" "t \<noteq> Lf"
  shows "\<exists>s2 s3 s4. paint Black s p = Ok s2 \<and> paint Red s2 g = Ok s3 \<and> rotate_to (opp d) s3 g = Ok s4 \<and>
    same_nodes s s4 \<and> linked s4 (fill k (Nod d p Black po t (Nod d g Red go w u)))"
proof -
  obtain s2 where s2: "paint Black s p = Ok s2" "same_nodes s s2"
    "linked s2 (fill k (Nod d g gc go (Nod d p Black po t w) u))"
    using paint_linked [of s "(d, g, gc, go, u) # k" "Nod d p c po t w" Black] assms(1) by auto
  from paint_linked [OF this(3), of Red] obtain s3 where s3: "paint Red s2 g = Ok s3" "same_nodes s2 s3"
    "linked s3 (fill k (Nod (opp d) g Red go u (Nod (opp d) p Black po w t)))" by (auto simp: side_simps)
  from rotate_linked [OF this(3)] obtain s4 where s4: "rotate_to (opp d) s3 g = Ok s4" "same_nodes s3 s4"
    "linked s4 (fill k (Nod d p Black po t (Nod d g Red go w u)))" by (auto simp: side_simps)
  show ?thesis using s2(1) s3(1) s4 same_nodes_trans [OF s2(2) same_nodes_trans [OF s3(2) s4(2)]] by blast
qed

lemma node_place:
  assumes "linked s (fill ((d, p, c, po, w) # k) t)" "t \<noteq> Lf"
  shows "\<exists>n. node s (rt t) = Ok n \<and> parent n = p"
  using linked_sub [OF assms(1)] assms(2) by (cases t) (simp_all add: node_def)

lemma fix_side_rotate:
  assumes "linked s (fill ((e, p, Red, po, w) # (d, g, gc, go, u) # k) t)" "t \<noteq> Lf" "hue u \<noteq> Red"
  shows "\<exists>cur s'. fix_side d s (rt t) p g (rt u) = Ok (cur, s') \<and> same_nodes s s' \<and>
    linked s' (afix ((e, p, Red, po, w) # (d, g, gc, go, u) # k) t) \<and> fix_guard s' cur = Ok False"
proof -
  have r: "red_at s (rt u) = Ok False" using red_at_tree [OF linked_sibling(2) [of s k d g]] assms(1,3) by simp
  have p: "node s p = Ok (rec e po Red g (rt t) (rt w))"
    using linked_node [of s "(d, g, gc, go, u) # k" e p] assms(1) by simp
  have tw: "rt t \<noteq> rt w"
    using assms(1) rt_in [OF assms(2)] rt_in [of w] by (cases "w = Lf") (auto simp: linked_def tree_at_fill tree_at_null rt_zero)
  show ?thesis
  proof (cases "e = d")
    case True
    obtain s2 s3 s4 where s: "paint Black s p = Ok s2" "paint Red s2 g = Ok s3" "rotate_to (opp d) s3 g = Ok s4"
      "same_nodes s s4" "linked s4 (fill k (Nod d p Black po t (Nod d g Red go w u)))"
      using fix_side_outer [of s d p Red po w g gc go u k t] assms(1,2) True by auto
    moreover have "fix_guard s4 (rt t) = Ok False"
      using fix_guard_at [of s4 d p Black po "Nod d g Red go w u" k t] s(5) assms(2) by simp
    ultimately show ?thesis
      using r p tw True assms(3) node_place [OF assms(1,2)] by (auto simp: fix_side_def)
  next
    case False
    then have e: "e = opp d" using side_cases by blast
    define a ob t1 t2 where "a = rt t" and "ob = obj t" and "t1 = sub d t" and "t2 = sub (opp d) t"
    have t: "t = Nod d a (hue t) ob t1 t2" using Nod_sub [OF assms(2), of d] by (simp add: a_def ob_def t1_def t2_def)
    have "linked s (fill ((d, g, gc, go, u) # k) (Nod d p Red po w (Nod d a (hue t) ob t1 t2)))"
      using assms(1) t by (simp add: e side_simps)
    from rotate_linked [OF this] obtain s1 where s1: "rotate_to d s p = Ok s1" "same_nodes s s1"
      "linked s1 (fill ((d, a, hue t, ob, t2) # (d, g, gc, go, u) # k) (Nod d p Red po w t1))" by auto
    from fix_side_outer [OF s1(3)] obtain s2 s3 s4 where
      s: "paint Black s1 a = Ok s2" "paint Red s2 g = Ok s3" "rotate_to (opp d) s3 g = Ok s4"
      "same_nodes s1 s4" "linked s4 (fill k (Nod d a Black ob (Nod d p Red po w t1) (Nod d g Red go t2 u)))" by auto
    moreover have "fix_guard s4 p = Ok False"
      using fix_guard_at [of s4 d a Black ob "Nod d g Red go t2 u" k "Nod d p Red po w t1"] s(5) by simp
    moreover have "\<exists>n. node s1 p = Ok n \<and> parent n = a" using node_place [OF s1(3)] by simp
    ultimately show ?thesis
      using r p s1(1) e assms(3) same_nodes_trans [OF s1(2) s(4)]
      by (auto simp: fix_side_def a_def ob_def t1_def t2_def)
  qed
qed

text \<open>The loop ends and leaves the tree of \<open>afix\<close>.\<close>

lemma fix_loop_afix:
  assumes "linked s (fill k t)" "t \<noteq> Lf" "last_black k"
  shows "\<exists>s'. fix_loop s (rt t) = Some (Ok s') \<and> linked s' (afix k t) \<and> same_nodes s s'"
  using assms
proof (induction k t arbitrary: s rule: afix_induct)
  case (1 e p po w d g gc go u k t)
  have guard: "fix_guard s (rt t) = Ok True" using fix_guard_at [OF 1(2,3)] by simp
  note step = fix_step_at [OF 1(2,3)]
  show ?case
  proof (cases "hue u = Red")
    case True
    obtain s1 where s1: "fix_side d s (rt t) p g (rt u) = Ok (g, s1)" "same_nodes s s1"
      "linked s1 (fill k (Nod d g Red go (Nod e p Black po t w) (dye Black u)))"
      using fix_side_recolour [OF 1(2) True] by blast
    have "last_black k" using 1(4) by (cases k) auto
    with 1(1) [OF True s1(3)] obtain s2 where s2: "fix_loop s1 g = Some (Ok s2)" "same_nodes s1 s2"
      "linked s2 (afix k (Nod d g Red go (Nod e p Black po t w) (dye Black u)))" by auto
    show ?thesis using guard step s1(1) s2 True same_nodes_trans [OF s1(2) s2(2)]
      by (subst fix_loop.simps) simp
  next
    case False
    obtain cur s1 where s1: "fix_side d s (rt t) p g (rt u) = Ok (cur, s1)" "same_nodes s s1" "fix_guard s1 cur = Ok False"
      "linked s1 (afix ((e, p, Red, po, w) # (d, g, gc, go, u) # k) t)"
      using fix_side_rotate [OF 1(2,3) False] by blast
    have "fix_loop s1 cur = Some (Ok s1)" using s1(3) by (subst fix_loop.simps) simp
    then show ?thesis using guard step s1 by (subst fix_loop.simps) simp
  qed
next
  case (nil t)
  then have "fix_guard s (rt t) = Ok False" using root_place [of s "[]" t] by (simp add: fix_guard_def)
  with nil show ?case by (subst fix_loop.simps) simp
next
  case (inner d p v k t)
  obtain po w where v: "v = (po, w)" by (cases v)
  have "fix_guard s (rt t) = Ok False" using fix_guard_at [of s d p Black po w k t] inner v by simp
  with inner show ?case by (subst fix_loop.simps) simp
next
  case (single v t)
  obtain d p c po w where v: "v = (d, p, c, po, w)" by (cases v)
  have "fix_guard s (rt t) = Ok False" using fix_guard_at [of s d p c po w "[]" t] single v by simp
  with single show ?case by (subst fix_loop.simps) simp
qed

section \<open>Order, colours and black height\<close>

lemma objs_Nod: "objs (Nod d a c ob t u) = (case d of SL \<Rightarrow> objs t @ ob # objs u | SR \<Rightarrow> objs u @ ob # objs t)"
  by (cases d) (simp_all add: Nod_def)

lemma objs_sub: "t \<noteq> Lf \<Longrightarrow> objs t = objs (sub SL t) @ obj t # objs (sub SR t)"
  by (cases t) simp_all

lemma objs_afix: "t \<noteq> Lf \<Longrightarrow> objs (afix k t) = objs (fill k t)"
proof (induction k t rule: afix_induct)
  case (1 e p po w d g gc go u k t)
  then show ?case
    by (cases d; cases e) (auto simp: objs_fill objs_Nod objs_sub)
qed auto

lemma addrs_afix: "t \<noteq> Lf \<Longrightarrow> set (addrs (afix k t)) = set (addrs (fill k t))"
proof (induction k t rule: afix_induct)
  case (1 e p po w d g gc go u k t)
  have "set (addrs t) = insert (rt t) (set (addrs (sub d t)) \<union> set (addrs (sub (opp d) t)))"
    using 1 by (cases t; cases d) auto
  with 1 show ?case by auto
qed auto

fun bh :: "tree \<Rightarrow> nat" where
  "bh Lf = 0"
| "bh (Nd a c ob l r) = bh l + (if c = Black then 1 else 0)"

fun invh :: "tree \<Rightarrow> bool" where
  "invh Lf \<longleftrightarrow> True"
| "invh (Nd a c ob l r) \<longleftrightarrow> bh l = bh r \<and> invh l \<and> invh r"

fun invc :: "tree \<Rightarrow> bool" where
  "invc Lf \<longleftrightarrow> True"
| "invc (Nd a c ob l r) \<longleftrightarrow> (c = Red \<longrightarrow> hue l = Black \<and> hue r = Black) \<and> invc l \<and> invc r"

definition rb_ok :: "tree \<Rightarrow> bool" where
  "rb_ok t \<longleftrightarrow> invc t \<and> invh t \<and> hue t = Black"

lemma invh_Nod [simp]: "invh (Nod d a c ob t u) \<longleftrightarrow> bh t = bh u \<and> invh t \<and> invh u"
  by (cases d) (auto simp: Nod_def)

lemma bh_Nod [simp]: "bh t = bh u \<Longrightarrow> bh (Nod d a c ob t u) = bh t + (if c = Black then 1 else 0)"
  by (cases d) (auto simp: Nod_def)

lemma invc_Nod [simp]: "invc (Nod d a c ob t u) \<longleftrightarrow> (c = Red \<longrightarrow> hue t = Black \<and> hue u = Black) \<and> invc t \<and> invc u"
  by (cases d) (auto simp: Nod_def)

fun path_h :: "up list \<Rightarrow> nat \<Rightarrow> bool" where
  "path_h [] n \<longleftrightarrow> True"
| "path_h ((d, a, c, ob, u) # k) n \<longleftrightarrow> invh u \<and> bh u = n \<and> path_h k (n + (if c = Black then 1 else 0))"

fun path_c :: "up list \<Rightarrow> rb_color \<Rightarrow> bool" where
  "path_c [] c' \<longleftrightarrow> True"
| "path_c ((d, a, c, ob, u) # k) c' \<longleftrightarrow> (c = Red \<longrightarrow> c' = Black \<and> hue u = Black) \<and> invc u \<and> path_c k c"

lemma invh_fill: "invh (fill k t) \<longleftrightarrow> invh t \<and> path_h k (bh t)"
  by (induction k t rule: fill.induct) auto

lemma invc_fill: "invc (fill k t) \<longleftrightarrow> invc t \<and> path_c k (hue t)"
  by (induction k t rule: fill.induct) auto

lemma path_c_Black: "path_c k c \<Longrightarrow> path_c k Black"
  by (cases k) auto

lemma not_Red [simp]: "c \<noteq> Red \<longleftrightarrow> c = Black" "c \<noteq> Black \<longleftrightarrow> c = Red"
  by (cases c; simp)+

lemma dye_inv [simp]: "invh (dye c t) = invh t" "invc t \<Longrightarrow> invc (dye Black t)"
  by (cases t; simp)+

lemma bh_dye: "bh (dye Black t) = bh t + (if hue t = Red then 1 else 0)"
  by (cases t) auto

lemma sub_inv: "invc t \<Longrightarrow> invc (sub d t)" "invh t \<Longrightarrow> invh (sub d t)"
  "invc t \<Longrightarrow> hue t = Red \<Longrightarrow> hue (sub d t) = Black" "invh t \<Longrightarrow> hue t = Red \<Longrightarrow> bh (sub d t) = bh t"
  by (cases t; cases d; simp)+

text \<open>With a red subtree in a place whose only flaw may be a red node above, the fix-up gives a tree that is
  right but for the colour of its root.\<close>

lemma afix_inv:
  assumes "invc t" "invh t" "hue t = Red" "path_c k Black" "path_h k (bh t)" "last_black k"
  shows "invc (dye Black (afix k t)) \<and> invh (afix k t)"
  using assms
proof (induction k t rule: afix_induct)
  case (1 e p po w d g gc go u k t)
  from 1(5) have gc: "gc = Black" "hue w = Black" "invc w" "invc u" "path_c k Black" by auto
  from 1(6) gc have h: "invh w" "bh w = bh t" "invh u" "bh u = bh t" "path_h k (Suc (bh t))" by auto
  note s = sub_inv [of t]
  have k: "last_black k" using 1(7) by (cases k) auto
  show ?case
  proof (cases "hue u = Red")
    case True
    then have "invc (dye Black (afix k (Nod d g Red go (Nod e p Black po t w) (dye Black u)))) \<and>
        invh (afix k (Nod d g Red go (Nod e p Black po t w) (dye Black u)))"
      using 1(2-4) gc h k by (intro 1(1)) (auto simp: bh_dye, (cases u; simp)+)
    with True show ?thesis by simp
  next
    case False
    then show ?thesis
      using 1(2-4) gc h s k by (auto simp: invh_fill invc_fill intro!: dye_inv(2) path_c_Black)
  qed
next
  case (nil t)
  then show ?case by simp
next
  case (inner d p v k t)
  obtain po w where v: "v = (po, w)" by (cases v)
  show ?case using inner v by (auto simp: invh_fill invc_fill intro!: dye_inv(2))
next
  case (single v t)
  obtain d p c po w where v: "v = (d, p, c, po, w)" by (cases v)
  show ?case using single v by (auto intro!: dye_inv(2))
qed

section \<open>Trees in order\<close>

text \<open>Larger numbers are on the left. Numbers are below \<open>2 ^ 31\<close>, where the difference as an \<^verbatim>\<open>int\<close> has the right sign.\<close>

definition ordered :: "(nat \<Rightarrow> 32 word) \<Rightarrow> nat list \<Rightarrow> bool" where
  "ordered num xs \<longleftrightarrow> sorted_wrt (\<lambda>x y. num y < num x) xs"

definition small :: "(nat \<Rightarrow> 32 word) \<Rightarrow> nat \<Rightarrow> bool" where
  "small num x \<longleftrightarrow> uint (num x) < 2 ^ 31"

lemma COMP_NODES_small:
  assumes "small num x" "small num y"
  shows "COMP_NODES num x y = uint (num x) - uint (num y)"
proof -
  have r: "- (2 ^ 31) \<le> uint (num x) - uint (num y)" "uint (num x) - uint (num y) < 2 ^ 31"
    using assms uint_ge_0 [of "num x"] uint_ge_0 [of "num y"] unfolding small_def by linarith+
  have "COMP_NODES num x y = signed_take_bit 31 (uint (num x) - uint (num y))"
    unfolding COMP_NODES_def word_sub_wi sint_sbintrunc' by simp
  also have "\<dots> = uint (num x) - uint (num y)" by (rule signed_take_bit_int_eq_self [OF r])
  finally show ?thesis .
qed

lemma comp_cases:
  assumes "small num x" "small num y"
  shows "COMP_NODES num x y = 0 \<longleftrightarrow> num x = num y" "COMP_NODES num x y > 0 \<longleftrightarrow> num y < num x"
  using COMP_NODES_small [OF assms] by (simp_all add: word_uint_eq_iff word_less_def)

definition rep :: "(nat \<Rightarrow> 32 word) \<Rightarrow> rb_tree \<Rightarrow> tree \<Rightarrow> bool" where
  "rep num s t \<longleftrightarrow> linked s t \<and> dom (nodes s) = set (addrs t) \<and> isize s = int (length (addrs t)) \<and>
     ordered num (objs t) \<and> (\<forall>x \<in> set (objs t). small num x) \<and> hue t = Black"

text \<open>The object belongs at the place: it is between the objects before and after it.\<close>

definition between :: "(nat \<Rightarrow> 32 word) \<Rightarrow> nat \<Rightarrow> up list \<Rightarrow> bool" where
  "between num x k \<longleftrightarrow> (\<forall>y \<in> set (before k). num x < num y) \<and> (\<forall>y \<in> set (after k). num y < num x)"

lemma between_left:
  assumes "between num x k" "num ob < num x" "\<forall>y \<in> set (objs u). num y < num ob"
  shows "between num x ((SL, a, c, ob, u) # k)"
proof -
  have "num y < num x" if "y \<in> set (objs u)" for y using assms(2,3) that less_trans by blast
  with assms(1,2) show ?thesis unfolding between_def by (simp add: ball_Un)
qed

lemma between_right:
  assumes "between num x k" "num x < num ob" "\<forall>y \<in> set (objs u). num ob < num y"
  shows "between num x ((SR, a, c, ob, u) # k)"
proof -
  have "num x < num y" if "y \<in> set (objs u)" for y using assms(2,3) that less_trans by blast
  with assms(1,2) show ?thesis unfolding between_def by (simp add: ball_Un)
qed

lemma link_new_linked:
  assumes "linked s (fill ((d, a, c, ob, u) # k) Lf)" "nodes s p = Some (rec SL x Red 0 0 0)" "p \<noteq> 0"
    and "p \<notin> set (addrs (fill ((d, a, c, ob, u) # k) Lf))"
  shows "\<exists>s'. link_new s d a p = Ok s' \<and> same_nodes s s' \<and> linked s' (fill ((d, a, c, ob, u) # k) (Nd p Red x Lf Lf))"
proof -
  let ?h = "(nodes s)(a \<mapsto> rec d ob c (upper k 0) p (rt u), p \<mapsto> rec SL x Red a 0 0)"
  have "link_new s d a p = Ok (s\<lparr>nodes := ?h\<rparr>)"
    using assms by (auto simp: link_new_def upd_def linked_def tree_at_fill)
  moreover have "linked (s\<lparr>nodes := ?h\<rparr>) (fill ((d, a, c, ob, u) # k) (Nd p Red x Lf Lf))"
    using assms by (auto simp: linked_def tree_at_fill rt_fill)
  moreover have "dom ?h = dom (nodes s)" using assms by (auto simp: linked_def tree_at_fill)
  ultimately show ?thesis by (auto simp: same_nodes_def)
qed

lemma ordered_mid: "ordered num (xs @ x # ys) \<longleftrightarrow>
    ordered num xs \<and> ordered num ys \<and> (\<forall>y \<in> set xs. num x < num y) \<and> (\<forall>y \<in> set ys. num y < num x) \<and>
    (\<forall>y \<in> set xs. \<forall>z \<in> set ys. num z < num y)"
  by (auto simp: ordered_def sorted_wrt_append)

text \<open>The search for the place of a new object.\<close>

lemma insert_loop_at:
  assumes "linked s (fill k t)" "t \<noteq> Lf" "ordered num (objs t)" "between num x k" "small num x"
    and "\<forall>y \<in> set (objs t). small num y" "nodes s p = Some (rec SL x Red 0 0 0)" "p \<noteq> 0" "p \<notin> set (addrs (fill k t))"
  shows "if \<exists>y \<in> set (objs t). num y = num x then insert_loop num x p s (rt t) = Some (Ok (False, s))
    else \<exists>k' s'. insert_loop num x p s (rt t) = Some (Ok (True, s')) \<and> same_nodes s s' \<and>
      linked s' (fill k' (Nd p Red x Lf Lf)) \<and> fill k' Lf = fill k t \<and> k' \<noteq> [] \<and> between num x k'"
  using assms
proof (induction t arbitrary: k)
  case (Nd a c ob l r)
  have n: "node s a = Ok (rec SL ob c (upper k 0) (rt l) (rt r))"
    using linked_node [of s k SL a c ob l r] Nd.prems(1) by (simp add: Nd_as_Nod)
  have cmp: "COMP_NODES num x ob = 0 \<longleftrightarrow> num x = num ob" "COMP_NODES num x ob > 0 \<longleftrightarrow> num ob < num x"
    using comp_cases [of num x ob] Nd.prems(5,6) by auto
  have ord: "ordered num (objs l)" "ordered num (objs r)" "\<forall>y \<in> set (objs l). num ob < num y" "\<forall>y \<in> set (objs r). num y < num ob"
    using Nd.prems(3) by (auto simp: ordered_mid)
  show ?case
  proof (cases "num x = num ob")
    case True
    then show ?thesis using n cmp by (subst insert_loop.simps) simp
  next
    case False
    define d where "d = (if num ob < num x then SL else SR)"
    define t' u where "t' = (if d = SL then l else r)" and "u = (if d = SL then r else l)"
    have T: "Nd a c ob l r = Nod d a c ob t' u" by (cases d) (simp_all add: Nod_def t'_def u_def)
    have nq: "num ob < num x \<or> num x < num ob" using False by (metis less_linear)
    have oth: "\<not> (\<exists>y \<in> set (objs u). num y = num x)"
      using ord(3,4) nq by (cases "num ob < num x") (simp_all add: u_def d_def, (metis less_asym)+)
    have btw: "between num x ((d, a, c, ob, u) # k)"
      using between_left [of num x k ob r a c] between_right [of num x k ob l a c] Nd.prems(4) False ord(3,4) nq
      by (cases "num ob < num x") (simp_all add: d_def u_def)
    have lk: "linked s (fill ((d, a, c, ob, u) # k) t')" using Nd.prems(1) by (simp add: T)
    have step: "insert_loop num x p s a = (if t' = Lf then Some (bind_outcome (link_new s d a p) (\<lambda>s1. Ok (True, s1)))
        else insert_loop num x p s (rt t'))"
      using n cmp False rt_zero [OF linked_sub [OF lk]]
      by (subst insert_loop.simps) (auto simp: d_def t'_def rec_left_right Let_def)
    have any: "(\<exists>y \<in> set (objs (Nd a c ob l r)). num y = num x) \<longleftrightarrow> (\<exists>y \<in> set (objs t'). num y = num x)"
      using oth False by (auto simp: t'_def u_def)
    show ?thesis
    proof (cases "t' = Lf")
      case True
      then show ?thesis
        using link_new_linked [of s d a c ob u k p x] lk Nd.prems(7-9) step any btw T
        by (auto intro!: exI [of _ "(d, a, c, ob, u) # k"])
    next
      case False
      have sm: "\<forall>y \<in> set (objs t'). small num y" and ordt: "ordered num (objs t')" and pn: "p \<notin> set (addrs (fill ((d, a, c, ob, u) # k) t'))"
        using Nd.prems(6,9) ord(1,2) unfolding T by (auto simp: t'_def objs_Nod split: side.splits)
      have "if \<exists>y \<in> set (objs t'). num y = num x then insert_loop num x p s (rt t') = Some (Ok (False, s))
        else \<exists>k' s'. insert_loop num x p s (rt t') = Some (Ok (True, s')) \<and> same_nodes s s' \<and>
          linked s' (fill k' (Nd p Red x Lf Lf)) \<and> fill k' Lf = fill ((d, a, c, ob, u) # k) t' \<and> k' \<noteq> [] \<and> between num x k'"
      proof (cases "d = SL")
        case True
        then have l: "t' = l" by (simp add: t'_def)
        show ?thesis using lk False ordt btw sm pn unfolding l by (intro Nd.IH(1) Nd.prems(5,7,8))
      next
        case f: False
        then have r: "t' = r" by (simp add: t'_def)
        show ?thesis using lk False ordt btw sm pn unfolding r by (intro Nd.IH(2) Nd.prems(5,7,8))
      qed
      then show ?thesis using step any False T by (simp split: if_split_asm)
    qed
  qed
qed simp

lemma last_black_hue: "k \<noteq> [] \<Longrightarrow> last_black k \<longleftrightarrow> hue (fill k t) = Black"
proof (induction k arbitrary: t rule: last_black.induct)
  case (3 x y k)
  obtain d a c ob u where "x = (d, a, c, ob, u)" by (cases x)
  with 3 show ?case by simp
qed auto

lemma insert_fixup_linked:
  assumes "linked s (fill k (Nd p Red x Lf Lf))" "last_black k"
  shows "\<exists>s'. rbtree_insert_fixup s p = Some (Ok s') \<and> same_nodes s s' \<and> linked s' (dye Black (afix k (Nd p Red x Lf Lf)))"
proof -
  let ?t = "Nd p Red x Lf Lf"
  have red: "red_at s p = Ok True" using red_at_tree [OF linked_sub [OF assms(1)]] by simp
  from fix_loop_afix [OF assms(1) _ assms(2)] obtain s1 where
    s1: "fix_loop s p = Some (Ok s1)" "linked s1 (fill [] (afix k ?t))" "same_nodes s s1" by auto
  have ne: "afix k ?t \<noteq> Lf" using objs_afix [of ?t k] by (auto simp: objs_fill)
  from paint_linked [OF s1(2) ne, of Black] obtain s2 where
    "paint Black s1 (rt (afix k ?t)) = Ok s2" "linked s2 (dye Black (afix k ?t))" "same_nodes s1 s2" by auto
  moreover have "root s1 = rt (afix k ?t)" using s1(2) by (simp add: linked_def)
  ultimately show ?thesis using red s1 same_nodes_trans by (auto simp: rbtree_insert_fixup_def)
qed

text \<open>The list of the objects with a new one at its place.\<close>

definition ins_num :: "(nat \<Rightarrow> 32 word) \<Rightarrow> nat \<Rightarrow> nat list \<Rightarrow> nat list" where
  "ins_num num x xs = filter (\<lambda>y. num x < num y) xs @ x # filter (\<lambda>y. num y < num x) xs"

lemma ins_num_between:
  assumes "between num x k"
  shows "ins_num num x (before k @ after k) = before k @ x # after k"
proof -
  have "filter (\<lambda>y. num x < num y) (before k) = before k" "filter (\<lambda>y. num x < num y) (after k) = []"
    "filter (\<lambda>y. num y < num x) (before k) = []" "filter (\<lambda>y. num y < num x) (after k) = after k"
    using assms unfolding between_def filter_id_conv filter_empty_conv by (meson less_asym)+
  then show ?thesis by (simp add: ins_num_def)
qed

lemma dye_black_hue [simp]: "hue (dye Black t) = Black" by (cases t) simp_all

lemma rbtree_insert_rep:
  assumes "rep num s t" "small num x" "p \<noteq> 0" "nodes s p = None" "\<forall>y \<in> set (objs t). num y \<noteq> num x"
  shows "\<exists>s' t'. rbtree_insert num p x s = Some (Ok (p, s')) \<and> rep num s' t' \<and> objs t' = ins_num num x (objs t) \<and>
    dom (nodes s') = insert p (dom (nodes s)) \<and> (rb_ok t \<longrightarrow> rb_ok t')"
proof (cases "t = Lf")
  case True
  let ?s = "(rbnode_construct p x Black s)\<lparr>root := p, isize := 1\<rparr>"
  have "rep num ?s (Nd p Black x Lf Lf)" "rbtree_insert num p x s = Some (Ok (p, ?s))"
    using assms True by (auto simp: rep_def linked_def rbnode_construct_def rec_def ordered_def rbtree_insert_def first_node_def)
  with True show ?thesis by (auto simp: ins_num_def rb_ok_def rbnode_construct_def)
next
  case False
  let ?n = "Nd p Red x Lf Lf" and ?s = "rbnode_construct p x Red s"
  have L: "linked s t" "dom (nodes s) = set (addrs t)" "ordered num (objs t)" "isize s = int (length (addrs t))" "hue t = Black"
    and sm: "\<forall>y \<in> set (objs t). small num y" using assms(1) by (auto simp: rep_def)
  have p: "p \<notin> set (addrs (fill [] t))" using assms(4) L(2) by auto
  then have l1: "linked ?s (fill [] t)" using L(1) by (simp add: linked_def rbnode_construct_def)
  have new: "nodes ?s p = Some (rec SL x Red 0 0 0)" by (simp add: rbnode_construct_def rec_def)
  have "between num x []" by (simp add: between_def)
  from insert_loop_at [OF l1 False L(3) this assms(2) sm new assms(3) p] assms(5) obtain k s1 where
    k: "insert_loop num x p ?s (rt t) = Some (Ok (True, s1))" "same_nodes ?s s1" "linked s1 (fill k ?n)" "fill k Lf = t"
      "k \<noteq> []" "between num x k" by auto
  have lb: "last_black k" using last_black_hue [OF k(5), of Lf] L(5) k(4) by simp
  from k(3) have "linked (s1\<lparr>isize := isize s1 + 1\<rparr>) (fill k ?n)" by (simp add: linked_def)
  from insert_fixup_linked [OF this lb] obtain s2 where
    s2: "rbtree_insert_fixup (s1\<lparr>isize := isize s1 + 1\<rparr>) p = Some (Ok s2)" "same_nodes (s1\<lparr>isize := isize s1 + 1\<rparr>) s2"
      "linked s2 (dye Black (afix k ?n))" by auto
  let ?t = "dye Black (afix k ?n)"
  have objs: "objs t = before k @ after k" using k(4) objs_fill [of k Lf] by simp
  have objs': "objs ?t = before k @ x # after k" by (simp add: objs_afix objs_fill)
  have ad: "set (addrs ?t) = insert p (set (addrs t))" using k(4) by (auto simp: addrs_afix)
  have dom: "dom (nodes s2) = insert p (dom (nodes s))"
    using s2(2) k(2) by (simp add: same_nodes_def rbnode_construct_def)
  have "isize s2 = isize s + 1" using s2(2) k(2) by (simp add: same_nodes_def rbnode_construct_def)
  moreover have "length (addrs ?t) = Suc (length (addrs t))" using objs objs' by (simp flip: length_objs)
  moreover have "ordered num (objs ?t)" using L(3) k(6) unfolding objs objs' ordered_mid between_def
    by (simp add: ordered_def sorted_wrt_append)
  ultimately have "rep num s2 ?t"
    using s2(3) dom ad L(2,4) sm assms(2) objs objs' by (auto simp: rep_def)
  moreover have "rb_ok ?t" if "rb_ok t"
    using that afix_inv [of ?n k] lb k(4) by (auto simp: rb_ok_def invc_fill invh_fill)
  moreover have "rbtree_insert num p x s = Some (Ok (p, s2))"
    using k(1) s2(1) assms(3) False L(1) rt_zero [of "nodes s" 0 t]
    by (simp add: rbtree_insert_def added_def linked_def rbnode_construct_def)
  ultimately show ?thesis using objs' objs ins_num_between [OF k(6)] dom by auto
qed

lemma rbtree_insert_dup:
  assumes "rep num s t" "small num x" "p \<noteq> 0" "nodes s p = None" "\<exists>y \<in> set (objs t). num y = num x"
  shows "rbtree_insert num p x s = Some (Ok (0, s))"
proof -
  let ?s = "rbnode_construct p x Red s"
  have L: "linked s t" "dom (nodes s) = set (addrs t)" "ordered num (objs t)"
    and sm: "\<forall>y \<in> set (objs t). small num y" using assms(1) by (auto simp: rep_def)
  have ne: "t \<noteq> Lf" using assms(5) by auto
  have p: "p \<notin> set (addrs (fill [] t))" using assms(4) L(2) by auto
  then have l1: "linked ?s (fill [] t)" using L(1) by (simp add: linked_def rbnode_construct_def)
  have new: "nodes ?s p = Some (rec SL x Red 0 0 0)" by (simp add: rbnode_construct_def rec_def)
  have "between num x []" by (simp add: between_def)
  from insert_loop_at [OF l1 ne L(3) this assms(2) sm new assms(3) p] assms(5)
  have "insert_loop num x p ?s (rt t) = Some (Ok (False, ?s))" by auto
  moreover have "free_node ?s p = Ok s" using assms(4) by (simp add: free_node_def rbnode_construct_def fun_upd_idem)
  ultimately show ?thesis
    using assms(3) ne L(1) rt_zero [of "nodes s" 0 t] by (simp add: rbtree_insert_def linked_def)
qed

section \<open>Search\<close>

text \<open>The node at an address of the tree has an object of the same number.\<close>

definition held_at :: "(nat \<Rightarrow> 32 word) \<Rightarrow> nat \<Rightarrow> nat \<Rightarrow> tree \<Rightarrow> bool" where
  "held_at num x a t \<longleftrightarrow> (\<exists>k c ob l r. t = fill k (Nd a c ob l r) \<and> num ob = num x)"

lemma held_at_root: "num ob = num x \<Longrightarrow> held_at num x a (Nd a c ob l r)"
  unfolding held_at_def by (metis fill.simps(1))

lemma held_at_sub:
  assumes "held_at num x a t"
  shows "held_at num x a (Nd b c ob t u)" "held_at num x a (Nd b c ob u t)"
proof -
  obtain k c' ob' l r where t: "t = fill k (Nd a c' ob' l r)" "num ob' = num x" using assms by (auto simp: held_at_def)
  have "Nd b c ob t u = fill (k @ [(SL, b, c, ob, u)]) (Nd a c' ob' l r)"
    "Nd b c ob u t = fill (k @ [(SR, b, c, ob, u)]) (Nd a c' ob' l r)" using t(1) by (simp_all add: Nod_def)
  with t(2) show "held_at num x a (Nd b c ob t u)" "held_at num x a (Nd b c ob u t)" unfolding held_at_def by blast+
qed

lemma find_loop_at:
  assumes "tree_at (nodes s) b t" "ordered num (objs t)" "small num x" "\<forall>y \<in> set (objs t). small num y"
  shows "\<exists>a. find_loop num x s (rt t) = Some (Ok a) \<and>
    (if \<exists>y \<in> set (objs t). num y = num x then held_at num x a t else a = 0)"
  using assms
proof (induction t arbitrary: b)
  case Lf
  show ?case by (subst find_loop.simps) simp
next
  case (Nd a c ob l r)
  have n: "node s a = Ok (rec SL ob c b (rt l) (rt r))" "a \<noteq> 0" using Nd.prems(1) by (simp_all add: node_def)
  have cmp: "COMP_NODES num x ob = 0 \<longleftrightarrow> num x = num ob" "COMP_NODES num x ob > 0 \<longleftrightarrow> num ob < num x"
    using comp_cases [of num x ob] Nd.prems(3,4) by auto
  have ord: "ordered num (objs l)" "ordered num (objs r)" "\<forall>y \<in> set (objs l). num ob < num y" "\<forall>y \<in> set (objs r). num y < num ob"
    using Nd.prems(2) by (auto simp: ordered_mid)
  consider "num x = num ob" | "num ob < num x" | "num x < num ob" by (metis less_linear)
  then show ?case
  proof cases
    case 1
    have "find_loop num x s a = Some (Ok a)" using 1 n cmp by (subst find_loop.simps) simp
    then show ?thesis using 1 held_at_root [of num ob x a c l r] by simp
  next
    case 2
    from Nd.IH(1) [of a] Nd.prems ord obtain q where q: "find_loop num x s (rt l) = Some (Ok q)"
      "if \<exists>y \<in> set (objs l). num y = num x then held_at num x q l else q = 0" by auto
    have "find_loop num x s a = Some (Ok q)" using 2 n cmp q(1) by (subst find_loop.simps) auto
    moreover have "(\<exists>y \<in> set (objs (Nd a c ob l r)). num y = num x) \<longleftrightarrow> (\<exists>y \<in> set (objs l). num y = num x)"
      using 2 ord(4) by (simp add: bex_Un) (metis less_asym less_irrefl)
    ultimately show ?thesis using q(2) held_at_sub(1) by (simp split: if_split_asm)
  next
    case 3
    from Nd.IH(2) [of a] Nd.prems ord obtain q where q: "find_loop num x s (rt r) = Some (Ok q)"
      "if \<exists>y \<in> set (objs r). num y = num x then held_at num x q r else q = 0" by auto
    have "\<not> num ob < num x" "num x \<noteq> num ob" using 3 less_asym by auto
    then have "find_loop num x s a = Some (Ok q)" using n cmp q(1) by (subst find_loop.simps) (simp add: rec_left_right)
    moreover have "(\<exists>y \<in> set (objs (Nd a c ob l r)). num y = num x) \<longleftrightarrow> (\<exists>y \<in> set (objs r). num y = num x)"
      using 3 ord(3) by (simp add: bex_Un) (metis less_asym less_irrefl)
    ultimately show ?thesis using q(2) held_at_sub(2) by (simp split: if_split_asm)
  qed
qed

lemma rbtree_find_rep:
  assumes "rep num s t" "small num x"
  shows "\<exists>a. rbtree_find num x s = Some (Ok a) \<and> (if \<exists>y \<in> set (objs t). num y = num x then held_at num x a t else a = 0)"
  using find_loop_at [of s 0 t num x] assms by (auto simp: rep_def linked_def rbtree_find_def)

end
