(* ===== verification/Ffsb_Remove.thy ===== *)
theory Ffsb_Remove
  imports Ffsb_Insert
begin

text \<open>
  Removal from the trees of \<^verbatim>\<open>rbt.c\<close>: the exchange with the successor, the cut_node and the fix-up keep the
  links and the order of the rest, whatever the colours of the tree are.
\<close>

section \<open>The fix-up keeps the order\<close>

definition alike :: "tree \<Rightarrow> tree \<Rightarrow> bool" where
  "alike t u \<longleftrightarrow> objs t = objs u \<and> set (addrs t) = set (addrs u)"

lemma alike_refl [simp]: "alike t t" by (simp add: alike_def)

lemma alike_trans: "alike t u \<Longrightarrow> alike u v \<Longrightarrow> alike t v" by (simp add: alike_def)

lemma alike_fill: "alike t u \<Longrightarrow> alike (fill k t) (fill k u)" by (simp add: alike_def objs_fill)

lemma alike_rotate: "alike (Nod d x c ob A (Nod d y c' ob' B C)) (Nod d y e' ob' (Nod d x e ob A B) C)"
  by (cases d) (auto simp: alike_def objs_Nod)

lemma alike_dye: "alike (Nod d x c ob A B) (Nod d x c' ob A B)" "alike (Nod d x c ob A B) (Nod d x c' ob A (dye e B))"
  by (cases d; auto simp: alike_def objs_Nod)+

text \<open>The end of a step: all is done, or the node above goes on.\<close>

definition stepped :: "up list \<Rightarrow> tree \<Rightarrow> nat \<Rightarrow> rb_tree \<Rightarrow> nat \<Rightarrow> rb_tree \<Rightarrow> bool" where
  "stepped k t p s cur s' \<longleftrightarrow> same_nodes s s' \<and>
     (cur = root s' \<and> (\<exists>t'. linked s' t' \<and> alike (fill k t) t') \<or>
      cur = p \<and> (\<exists>t'. linked s' (fill k t') \<and> alike t t' \<and> rt t' = p \<and> t' \<noteq> Lf \<and> hue t' = hue t))"

lemma parent_step_at:
  assumes "linked s (fill ((d, p, c, po, u) # k) t)" "t \<noteq> Lf"
  shows "\<exists>cur s'. parent_step s (rt t) = Ok (cur, s') \<and> same_nodes s s' \<and>
    (if c = Red then cur = root s' \<and> linked s' (fill k (Nod d p Black po t u)) else cur = p \<and> s' = s)"
proof -
  obtain n where n: "node s (rt t) = Ok n" "parent n = p" using node_place [OF assms] by blast
  have pn: "node s p = Ok (rec d po c (upper k 0) (rt t) (rt u))" using linked_node [of s k] assms(1) by simp
  show ?thesis
  proof (cases "c = Red")
    case True
    obtain s1 where "paint Black s p = Ok s1" "linked s1 (fill k (Nod d p Black po t u))" "same_nodes s s1"
      using paint_linked [of s k "Nod d p c po t u" Black] assms(1) by auto
    with True n pn show ?thesis by (auto simp: parent_step_def)
  next
    case False
    with n pn show ?thesis by (auto simp: parent_step_def)
  qed
qed

lemma light_rotate_outer:
  assumes "linked s (fill ((d, p, c, po, Nod d a b ob v w) # k) t)" "t \<noteq> Lf" "hue w = Red"
  shows "\<exists>s'. light_rotate d s (rt t) a = Ok (root s', s') \<and> same_nodes s s' \<and>
    linked s' (fill k (Nod d a c ob (Nod d p Black po t v) (dye Black w)))"
proof -
  have w: "w \<noteq> Lf" using assms(3) by auto
  let ?k = "(opp d, p, c, po, t) # k"
  have l0: "linked s (fill ((opp d, a, b, ob, v) # ?k) w)" using assms(1) by (simp add: side_simps)
  have an: "node s a = Ok (rec d ob b p (rt v) (rt w))"
    using linked_node [of s ?k d a b ob v w] assms(1) by (simp add: side_simps)
  have r: "red_at s (rt w) = Ok True" using red_at_tree [OF linked_sub [OF l0]] assms(3) by simp
  obtain s1 where s1: "paint Black s (rt w) = Ok s1" "same_nodes s s1"
    "linked s1 (fill ((d, p, c, po, Nod d a b ob v (dye Black w)) # k) t)"
    using paint_linked [OF l0 w, of Black] by (auto simp: side_simps)
  obtain n1 where n1: "node s1 (rt t) = Ok n1" "parent n1 = p" using node_place [OF s1(3) assms(2)] by blast
  from s1(3) have "linked s1 (fill k (Nod d p c po t (Nod d a b ob v (dye Black w))))" by simp
  from rotate_linked [OF this] obtain s2 where s2: "rotate_to d s1 p = Ok s2" "same_nodes s1 s2"
    "linked s2 (fill ((d, p, c, po, v) # (d, a, b, ob, dye Black w) # k) t)" by auto
  obtain n2 where n2: "node s2 (rt t) = Ok n2" "parent n2 = p" using node_place [OF s2(3) assms(2)] by blast
  have pn: "node s2 p = Ok (rec d po c a (rt t) (rt v))"
    using linked_node [of s2 "(d, a, b, ob, dye Black w) # k" d p c po t v] s2(3) by simp
  have a: "a \<noteq> 0" using assms(1) by (simp add: linked_def tree_at_fill)
  obtain s3 where s3: "paint c s2 a = Ok s3" "same_nodes s2 s3"
    "linked s3 (fill ((d, a, c, ob, dye Black w) # k) (Nod d p c po t v))"
    using paint_linked [of s2 k "Nod d a b ob (Nod d p c po t v) (dye Black w)" c] s2(3) by auto
  from paint_linked [OF this(3), of Black] obtain s4 where s4: "paint Black s3 p = Ok s4" "same_nodes s3 s4"
    "linked s4 (fill k (Nod d a c ob (Nod d p Black po t v) (dye Black w)))" by auto
  have "light_rotate d s (rt t) a = Ok (root s4, s4)"
    using an r s1(1) n1 s2(1) n2 pn a s3(1) s4(1) by (simp add: light_rotate_def)
  with s4(3) show ?thesis
    using same_nodes_trans [OF s1(2) same_nodes_trans [OF s2(2) same_nodes_trans [OF s3(2) s4(2)]]] by blast
qed

text \<open>
  With the inner child red the second rotation undoes the first one: it turns the new sibling instead of the
  parent. The colour of the parent then goes to the node above it.
\<close>

lemma light_rotate_inner:
  assumes "linked s (fill ((d, p, c, po, Nod d a b ob (Nod d y e yo v1 v2) w) # k) t)" "t \<noteq> Lf" "hue w \<noteq> Red"
  shows "\<exists>s' k'. light_rotate d s (rt t) a = Ok (root s', s') \<and> same_nodes s s' \<and>
    linked s' (fill k' (Nod d p Black po t (Nod d a b ob (Nod d y e yo v1 v2) w))) \<and>
    (\<forall>t. alike (fill k t) (fill k' t))"
proof -
  let ?k = "(opp d, p, c, po, t) # k" and ?v = "Nod d y e yo v1 v2"
  have l0: "linked s (fill ?k (Nod (opp d) a b ob w (Nod (opp d) y e yo v2 v1)))" using assms(1) by (simp add: side_simps)
  have an: "node s a = Ok (rec d ob b p y (rt w))"
    using linked_node [of s ?k d a b ob ?v w] assms(1) by (simp add: side_simps)
  have r: "red_at s (rt w) = Ok False"
    using red_at_tree [OF linked_sibling(2) [of s ?k d a b ob ?v w]] assms(1,3) by (simp add: side_simps)
  from rotate_linked [OF l0] obtain s1 where s1: "rotate_to (opp d) s a = Ok s1" "same_nodes s s1"
    "linked s1 (fill ((d, p, c, po, Nod d y e yo v1 (Nod d a b ob v2 w)) # k) t)" by (auto simp: side_simps)
  obtain n1 where n1: "node s1 (rt t) = Ok n1" "parent n1 = p" using node_place [OF s1(3) assms(2)] by blast
  have pn1: "node s1 p = Ok (rec d po c (upper k 0) (rt t) y)" using linked_node [of s1 k d p] s1(3) by simp
  from s1(3) have "linked s1 (fill ?k (Nod d y e yo v1 (Nod d a b ob v2 w)))" by (simp add: side_simps)
  from rotate_linked [OF this] obtain s2 where s2: "rotate_to d s1 y = Ok s2" "same_nodes s1 s2"
    "linked s2 (fill ((d, p, c, po, Nod d a b ob ?v w) # k) t)" by (auto simp: side_simps)
  obtain n2 where n2: "node s2 (rt t) = Ok n2" "parent n2 = p" using node_place [OF s2(3) assms(2)] by blast
  have pn2: "node s2 p = Ok (rec d po c (upper k 0) (rt t) a)" using linked_node [of s2 k d p] s2(3) by simp
  have "\<exists>s3 k'. (if upper k 0 \<noteq> 0 then paint c s2 (upper k 0) else Ok s2) = Ok s3 \<and> same_nodes s2 s3 \<and>
    linked s3 (fill k' (Nod d p c po t (Nod d a b ob ?v w))) \<and> (\<forall>t. alike (fill k t) (fill k' t))"
  proof (cases k)
    case Nil
    then show ?thesis using s2(3) by (intro exI [of _ s2] exI [of _ "[]"]) simp
  next
    case (Cons x k2)
    obtain f g gc go gu where x: "x = (f, g, gc, go, gu)" by (cases x)
    let ?T = "Nod d p c po t (Nod d a b ob ?v w)"
    have g: "g \<noteq> 0" using s2(3) Cons x by (simp add: linked_def tree_at_fill)
    obtain s3 where "paint c s2 g = Ok s3" "same_nodes s2 s3" "linked s3 (fill ((f, g, c, go, gu) # k2) ?T)"
      using paint_linked [of s2 k2 "Nod f g gc go ?T gu" c] s2(3) Cons x by auto
    moreover have "alike (fill k t) (fill ((f, g, c, go, gu) # k2) t)" for t
      using alike_fill [OF alike_dye(1)] Cons x by simp
    ultimately show ?thesis using Cons x g by (auto intro!: exI [of _ "(f, g, c, go, gu) # k2"])
  qed
  then obtain s3 k' where s3: "(if upper k 0 \<noteq> 0 then paint c s2 (upper k 0) else Ok s2) = Ok s3" "same_nodes s2 s3"
    "linked s3 (fill k' (Nod d p c po t (Nod d a b ob ?v w)))" "\<forall>t. alike (fill k t) (fill k' t)" by blast
  from paint_linked [OF this(3), of Black] obtain s4 where s4: "paint Black s3 p = Ok s4" "same_nodes s3 s4"
    "linked s4 (fill k' (Nod d p Black po t (Nod d a b ob ?v w)))" by auto
  have "light_rotate d s (rt t) a = Ok (root s4, s4)"
    using an r s1(1) n1 pn1 s2(1) n2 pn2 s3(1) s4(1) by (cases "upper k 0 = 0") (simp_all add: light_rotate_def del: bind_outcome_Ok_conv)
  with s4(3) s3(4) show ?thesis
    using same_nodes_trans [OF s1(2) same_nodes_trans [OF s2(2) same_nodes_trans [OF s3(2) s4(2)]]] by blast
qed

lemma black_kids_at:
  assumes "tree_at (nodes s) q u"
  shows "black_kids s (rt u) = Ok (u \<noteq> Lf \<and> hue (sub SL u) \<noteq> Red \<and> hue (sub SR u) \<noteq> Red)"
proof (cases u)
  case (Nd a c ob l r)
  then have "node s a = Ok (rec SL ob c q (rt l) (rt r))" "tree_at (nodes s) a l" "tree_at (nodes s) a r" "a \<noteq> 0"
    using assms by (simp_all add: node_def)
  with red_at_tree [OF this(2)] red_at_tree [OF this(3)] Nd show ?thesis by (simp add: black_kids_def rec_left_right)
qed (simp add: black_kids_def)

lemma parent_step_done:
  assumes "linked s (fill ((d, p, c, po, u) # k) t)" "t \<noteq> Lf" "alike (Nod d p c po t v) (Nod d p c po t u)"
  shows "\<exists>cur s'. parent_step s (rt t) = Ok (cur, s') \<and> stepped k (Nod d p c po t v) p s cur s' \<and> (cur = root s' \<or> c = Black)"
proof -
  obtain cur s' where s': "parent_step s (rt t) = Ok (cur, s')" "same_nodes s s'"
    "if c = Red then cur = root s' \<and> linked s' (fill k (Nod d p Black po t u)) else cur = p \<and> s' = s"
    using parent_step_at [OF assms(1,2)] by blast
  have "stepped k (Nod d p c po t v) p s cur s'"
  proof (cases "c = Red")
    case True
    with s' show ?thesis
      using alike_fill [OF alike_trans [OF assms(3) alike_dye(1)], of k Black] by (auto simp: stepped_def)
  next
    case False
    with s' assms(1,3) show ?thesis unfolding stepped_def by (auto intro!: exI [of _ "Nod d p c po t u"])
  qed
  with s'(1,3) show ?thesis by (auto split: if_splits)
qed

lemma light_rest_at:
  assumes "linked s (fill ((d, p, c, po, u) # k) t)" "t \<noteq> Lf"
  shows "\<exists>cur s'. light_rest d s (rt t) (rt u) = Ok (cur, s') \<and> stepped k (Nod d p c po t u) p s cur s' \<and>
    (cur = root s' \<or> c = Black)"
proof -
  have tu: "tree_at (nodes s) p u" using linked_sibling(2) [of s k d p] assms(1) by simp
  note bk = black_kids_at [OF tu]
  consider (black) "u \<noteq> Lf" "hue (sub SL u) \<noteq> Red" "hue (sub SR u) \<noteq> Red" | (none) "u = Lf" |
    (red) "u \<noteq> Lf" "hue (sub SL u) = Red \<or> hue (sub SR u) = Red" by blast
  then show ?thesis
  proof cases
    case black
    have "linked s (fill ((opp d, p, c, po, t) # k) u)" using assms(1) by (simp add: side_simps)
    from paint_linked [OF this black(1), of Red] obtain s1 where s1: "paint Red s (rt u) = Ok s1" "same_nodes s s1"
      "linked s1 (fill ((d, p, c, po, dye Red u) # k) t)" by (auto simp: side_simps)
    obtain cur s' where s': "parent_step s1 (rt t) = Ok (cur, s')" "stepped k (Nod d p c po t u) p s1 cur s'"
      "cur = root s' \<or> c = Black"
      using parent_step_done [OF s1(3) assms(2) alike_dye(2)] by blast
    then have "stepped k (Nod d p c po t u) p s cur s'" using same_nodes_trans [OF s1(2)] by (auto simp: stepped_def)
    with s'(1,3) s1(1) bk black show ?thesis by (simp add: light_rest_def)
  next
    case none
    with parent_step_done [OF assms alike_refl] bk show ?thesis by (simp add: light_rest_def)
  next
    case red
    define a b ob v w where "a = rt u" and "b = hue u" and "ob = obj u" and "v = sub d u" and "w = sub (opp d) u"
    have u: "u = Nod d a b ob v w" using Nod_sub [OF red(1), of d] by (simp add: a_def b_def ob_def v_def w_def)
    have a: "rt u = a" "a \<noteq> 0" using u tu by auto
    have rest: "light_rest d s (rt t) (rt u) = light_rotate d s (rt t) a"
      using bk red a by (auto simp: light_rest_def)
    show ?thesis
    proof (cases "hue w = Red")
      case True
      obtain s' where s': "light_rotate d s (rt t) a = Ok (root s', s')" "same_nodes s s'"
        "linked s' (fill k (Nod d a c ob (Nod d p Black po t v) (dye Black w)))"
        using light_rotate_outer [of s d p c po a b ob v w k t] assms True u by auto
      have "alike (Nod d p c po t u) (Nod d a c ob (Nod d p Black po t v) (dye Black w))"
        unfolding u by (rule alike_trans [OF alike_rotate [of d p c po t a b ob v w c Black] alike_dye(2)])
      with s' rest show ?thesis using alike_fill by (auto simp: stepped_def)
    next
      case False
      then have "hue v = Red" using red(2) by (cases d) (auto simp: v_def w_def)
      then obtain y yo v1 v2 where v: "v = Nod d y Red yo v1 v2" using tree_as_Nod [of v d] by (cases v) fastforce+
      obtain s' k' where s': "light_rotate d s (rt t) a = Ok (root s', s')" "same_nodes s s'"
        "linked s' (fill k' (Nod d p Black po t u))" "\<forall>t. alike (fill k t) (fill k' t)"
        using light_rotate_inner [of s d p c po a b ob y Red yo v1 v2 w k t] assms False u v by auto
      have "alike (fill k (Nod d p c po t u)) (fill k' (Nod d p Black po t u))"
        using alike_trans [OF alike_fill [OF alike_dye(1)]] s'(4) by blast
      with s' rest show ?thesis by (auto simp: stepped_def)
    qed
  qed
qed

lemma light_side_at:
  assumes "linked s (fill ((d, p, c, po, u) # k) t)" "t \<noteq> Lf"
  shows "\<exists>cur s'. light_side d s (rt t) = Ok (cur, s') \<and> stepped k (Nod d p c po t u) p s cur s' \<and> (cur = root s' \<or> c = Black)"
proof -
  obtain n where n: "node s (rt t) = Ok n" "parent n = p" using node_place [OF assms] by blast
  have pn: "node s p = Ok (rec d po c (upper k 0) (rt t) (rt u))" using linked_node [of s k] assms(1) by simp
  have r: "red_at s (rt u) = Ok (hue u = Red)" using red_at_tree [OF linked_sibling(2) [of s k d p]] assms(1) by simp
  show ?thesis
  proof (cases "hue u = Red")
    case False
    then have "light_side d s (rt t) = light_rest d s (rt t) (rt u)"
      using n pn r by (simp add: light_side_def del: bind_outcome_Ok_conv)
    with light_rest_at [OF assms] show ?thesis by simp
  next
    case True
    then obtain a ob v w where u: "u = Nod d a Red ob v w" using tree_as_Nod [of u d] by (cases u) fastforce+
    have "linked s (fill ((opp d, p, c, po, t) # k) u)" using assms(1) by (simp add: side_simps)
    from paint_linked [OF this, of Black] u obtain s1 where s1: "paint Black s (rt u) = Ok s1" "same_nodes s s1"
      "linked s1 (fill k (Nod d p c po t (Nod d a Black ob v w)))" by (auto simp: side_simps)
    from paint_linked [OF s1(3), of Red] obtain s2 where s2: "paint Red s1 p = Ok s2" "same_nodes s1 s2"
      "linked s2 (fill k (Nod d p Red po t (Nod d a Black ob v w)))" by auto
    from rotate_linked [OF s2(3)] obtain s3 where s3: "rotate_to d s2 p = Ok s3" "same_nodes s2 s3"
      "linked s3 (fill ((d, p, Red, po, v) # (d, a, Black, ob, w) # k) t)" by auto
    obtain n3 where n3: "node s3 (rt t) = Ok n3" "parent n3 = p" using node_place [OF s3(3) assms(2)] by blast
    have pn3: "node s3 p = Ok (rec d po Red a (rt t) (rt v))"
      using linked_node [of s3 "(d, a, Black, ob, w) # k" d p Red po t v] s3(3) by simp
    have eq: "light_side d s (rt t) = light_rest d s3 (rt t) (rt v)"
      using n pn r True s1(1) s2(1) s3(1) n3 pn3 by (simp add: light_side_def del: bind_outcome_Ok_conv)
    obtain cur s' where s': "light_rest d s3 (rt t) (rt v) = Ok (cur, s')" "cur = root s'"
      "stepped ((d, a, Black, ob, w) # k) (Nod d p Red po t v) p s3 cur s'"
      using light_rest_at [OF s3(3) assms(2)] by auto
    have "linked s' (fill ((d, a, Black, ob, w) # k) t') \<Longrightarrow> rt t' \<noteq> root s'" if "t' \<noteq> Lf" for t'
      using root_place [of s' "(d, a, Black, ob, w) # k" t'] that by simp
    with s'(2,3) obtain t' where t': "linked s' t'" "alike (fill ((d, a, Black, ob, w) # k) (Nod d p Red po t v)) t'"
      unfolding stepped_def by metis
    have "alike (fill k (Nod d p c po t u)) (fill ((d, a, Black, ob, w) # k) (Nod d p Red po t v))"
      using alike_fill [OF alike_rotate [of d p c po t a Red ob v w Black Red]] u by simp
    then have "alike (fill k (Nod d p c po t u)) t'" using t'(2) alike_trans by blast
    moreover have "same_nodes s s'" using s'(3) same_nodes_trans [OF s1(2) same_nodes_trans [OF s2(2) same_nodes_trans [OF s3(2)]]]
      by (simp add: stepped_def)
    ultimately show ?thesis using eq s'(1,2) t'(1) by (auto simp: stepped_def)
  qed
qed

lemma light_step_at:
  assumes "linked s (fill ((d, p, c, po, u) # k) t)" "t \<noteq> Lf"
  shows "light_step s (rt t) = light_side d s (rt t)"
proof -
  obtain n where n: "node s (rt t) = Ok n" "parent n = p" using node_place [OF assms] by blast
  have pn: "node s p = Ok (rec d po c (upper k 0) (rt t) (rt u))" using linked_node [of s k] assms(1) by simp
  have "rt t \<noteq> rt u" using assms(1) rt_in [OF assms(2)] rt_in [of u] linked_sub [OF assms(1)] rt_zero
    by (cases "u = Lf") (auto simp: linked_def)
  with n pn show ?thesis by (cases d) (auto simp: light_step_def rec_left_right)
qed

text \<open>The loop ends; the colour of the root is as before, or the root is where it ended.\<close>

lemma light_loop_ends:
  assumes "linked s (fill k t)" "t \<noteq> Lf"
  shows "\<exists>cur s' T. light_loop s (rt t) = Some (Ok (cur, s')) \<and> same_nodes s s' \<and> linked s' T \<and> alike (fill k t) T \<and>
    cur \<in> set (addrs T) \<and> (cur = root s' \<or> k \<noteq> [] \<and> hue T = hue (fill k t))"
  using assms
proof (induction k arbitrary: s t)
  case Nil
  then show ?case using rt_in by (subst light_loop.simps) (auto simp: linked_def intro!: exI [of _ t])
next
  case (Cons x k)
  obtain d p c po u where x: "x = (d, p, c, po, u)" by (cases x)
  have nr: "rt t \<noteq> root s" using root_place [OF Cons.prems] by simp
  obtain n where n: "node s (rt t) = Ok n" "color n = hue t"
    using linked_sub [OF Cons.prems(1)] Cons.prems(2) by (cases t) (auto simp: node_def)
  show ?case
  proof (cases "hue t = Black")
    case False
    then have "light_loop s (rt t) = Some (Ok (rt t, s))" using nr n by (subst light_loop.simps) simp
    then show ?thesis using Cons.prems rt_in [OF Cons.prems(2)] by (auto intro!: exI [of _ "fill (x # k) t"])
  next
    case True
    have l: "linked s (fill ((d, p, c, po, u) # k) t)" using Cons.prems(1) x by simp
    obtain cur s1 where s1: "light_side d s (rt t) = Ok (cur, s1)" "stepped k (Nod d p c po t u) p s cur s1"
      "cur = root s1 \<or> c = Black" using light_side_at [OF l Cons.prems(2)] by blast
    have eq: "light_loop s (rt t) = light_loop s1 cur"
      using nr n True light_step_at [OF l Cons.prems(2)] s1(1) by (subst light_loop.simps) simp
    from s1(2) consider (fin) T where "cur = root s1" "linked s1 T" "alike (fill k (Nod d p c po t u)) T" |
      (up) t' where "cur = p" "linked s1 (fill k t')" "alike (Nod d p c po t u) t'" "rt t' = p" "t' \<noteq> Lf" "hue t' = c"
      by (auto simp: stepped_def)
    then show ?thesis
    proof cases
      case fin
      have "T \<noteq> Lf" using fin(3) by (auto simp: alike_def objs_fill objs_Nod split: side.splits)
      then have "cur \<in> set (addrs T)" using fin(1,2) rt_in by (auto simp: linked_def)
      moreover have "light_loop s1 cur = Some (Ok (cur, s1))" using fin(1) by (subst light_loop.simps) simp
      ultimately show ?thesis using eq fin s1(2) x by (auto simp: stepped_def)
    next
      case up
      obtain cur' s' T where T: "light_loop s1 p = Some (Ok (cur', s'))" "same_nodes s1 s'" "linked s' T" "alike (fill k t') T"
        "cur' \<in> set (addrs T)" "cur' = root s' \<or> k \<noteq> [] \<and> hue T = hue (fill k t')"
        using Cons.IH [OF up(2,5)] up(4) by auto
      have "alike (fill (x # k) t) T" using alike_trans [OF alike_fill [OF up(3)] T(4)] x by simp
      moreover have "hue (fill k t') = hue (fill (x # k) t)"
        using up(6) x last_black_hue [of k] by (cases "k = []") (auto, (metis not_Red(2))+)
      ultimately show ?thesis
        using eq up(1) T s1(2) same_nodes_trans by (auto simp: stepped_def)
    qed
  qed
qed

section \<open>The exchange with the successor\<close>

lemma end_loop_at:
  assumes "linked s (fill k t)" "t \<noteq> Lf"
  shows "\<exists>ks a c ob u. t = fill ks (Nod d a c ob Lf u) \<and> end_loop d s (rt t) = Some (Ok a) \<and> list_all (\<lambda>x. fst x = d) ks"
  using assms
proof (induction t arbitrary: k)
  case (Nd a c ob l r)
  define t' u where "t' = (if d = SL then l else r)" and "u = (if d = SL then r else l)"
  have T: "Nd a c ob l r = Nod d a c ob t' u" by (cases d) (simp_all add: Nod_def t'_def u_def)
  have n: "node s a = Ok (rec d ob c (upper k 0) (rt t') (rt u))" using linked_node [of s k d a] Nd.prems(1) T by simp
  have lk: "linked s (fill ((d, a, c, ob, u) # k) t')" using Nd.prems(1) T by simp
  show ?case
  proof (cases "t' = Lf")
    case True
    then have "end_loop d s a = Some (Ok a)" using n by (subst end_loop.simps) simp
    then show ?thesis unfolding T True by (intro exI [of _ "[]"]) auto
  next
    case False
    have "\<exists>ks b c' ob' v. t' = fill ks (Nod d b c' ob' Lf v) \<and> end_loop d s (rt t') = Some (Ok b) \<and> list_all (\<lambda>x. fst x = d) ks"
      using Nd.IH [of "(d, a, c, ob, u) # k"] lk False by (cases d) (auto simp: t'_def)
    then obtain ks b c' ob' v where t': "t' = fill ks (Nod d b c' ob' Lf v)" "end_loop d s (rt t') = Some (Ok b)"
      "list_all (\<lambda>x. fst x = d) ks" by blast
    have "end_loop d s a = Some (Ok b)" using n t'(2) rt_zero [OF linked_sub [OF lk]] False by (subst end_loop.simps) simp
    then show ?thesis unfolding T using t' by (intro exI [of _ "ks @ [(d, a, c, ob, u)]"]) auto
  qed
qed simp

lemma swap_linked_next:
  assumes "linked s (fill k (Nd n c ob l (Nd m b mo Lf r)))"
  shows "\<exists>s'. swap_with s n m = Ok s' \<and> same_nodes s s' \<and> linked s' (fill k (Nd m c mo l (Nd n b ob Lf r)))"
proof -
  let ?h = "nodes s" and ?P = "upper k 0"
  define h2 where "h2 = ?h(m \<mapsto> rec SL mo c ?P (rt l) n, n \<mapsto> rec SL ob b m 0 (rt r))"
  define h5 where "h5 = hang h2 r n"
  define h6 where "h6 = plug h5 k m"
  define h7 where "h7 = hang h6 l m"
  have L: "path_at ?h 0 k n" "n \<noteq> 0" "m \<noteq> 0" "?h n = Some (rec SL ob c ?P (rt l) m)"
    "?h m = Some (rec SL mo b n 0 (rt r))" "tree_at ?h n l" "tree_at ?h m r"
    using assms by (auto simp: linked_def tree_at_fill)
  have N: "distinct (caddrs k)" "distinct (addrs l)" "distinct (addrs r)" "n \<noteq> m" "n \<notin> set (caddrs k)" "m \<notin> set (caddrs k)"
    "n \<notin> set (addrs l)" "m \<notin> set (addrs l)" "n \<notin> set (addrs r)" "m \<notin> set (addrs r)" "set (addrs l) \<inter> set (addrs r) = {}"
    "set (addrs r) \<inter> set (addrs l) = {}" "set (caddrs k) \<inter> set (addrs l) = {}" "set (caddrs k) \<inter> set (addrs r) = {}"
    using assms by (auto simp: linked_def)
  have T: "tree_at h2 m r" "path_at h5 0 k n" "tree_at h6 n l" using L N by (simp_all add: h2_def h5_def h6_def)
  define q where "q = (if k = [] then m else root s)"
  have v: "h2 n = Some (rec SL ob b m 0 (rt r))" "h2 m = Some (rec SL mo c ?P (rt l) n)" "h5 n = h2 n" "h5 m = h2 m"
    "h6 n = h2 n" "h6 m = h2 m" "h7 n = h2 n" "h7 m = h2 m"
    using N by (simp_all add: h2_def h5_def h6_def h7_def)
  have e1: "set_parent (s\<lparr>nodes := h2\<rparr>) (rt r) n = Ok (s\<lparr>nodes := h5\<rparr>)"
    using set_parent_hang [of "s\<lparr>nodes := h2\<rparr>" m r n] T by (simp add: h5_def)
  have e2: "relink (s\<lparr>nodes := h5\<rparr>) ?P n m = Ok (s\<lparr>nodes := h6, root := q\<rparr>)"
    using relink_plug [of "s\<lparr>nodes := h5\<rparr>" k n m] T N L by (simp add: h6_def q_def)
  have e3: "set_parent (s\<lparr>nodes := h6, root := q\<rparr>) (rt l) m = Ok (s\<lparr>nodes := h7, root := q\<rparr>)"
    using set_parent_hang [of "s\<lparr>nodes := h6, root := q\<rparr>" n l m] T by (simp add: h7_def)
  have e4: "set_parent (s\<lparr>nodes := h7, root := q\<rparr>) n m = Ok (s\<lparr>nodes := h7, root := q\<rparr>)"
    using v L(2) by (simp add: set_parent_def upd_def fun_upd_idem)
  have e0: "upd s m (\<lambda>x. x\<lparr>parent := ?P, left := rt l, right := n, color := c\<rparr>) =
      Ok (s\<lparr>nodes := ?h(m \<mapsto> rec SL mo c ?P (rt l) n)\<rparr>)"
    "upd (s\<lparr>nodes := ?h(m \<mapsto> rec SL mo c ?P (rt l) n)\<rparr>) n (\<lambda>x. x\<lparr>parent := m, left := 0, right := rt r, color := b\<rparr>) =
      Ok (s\<lparr>nodes := h2\<rparr>)"
    using L N by (simp_all add: upd_def h2_def)
  have "node s n = Ok (rec SL ob c ?P (rt l) m)" "node s m = Ok (rec SL mo b n 0 (rt r))"
    "set_parent (s\<lparr>nodes := h2\<rparr>) 0 n = Ok (s\<lparr>nodes := h2\<rparr>)"
    using L by (simp_all add: node_def set_parent_def)
  then have "swap_with s n m = Ok (s\<lparr>nodes := h7, root := q\<rparr>)"
    using e0 e1 e2 e3 e4 v by (simp add: swap_with_def Let_def node_def rec_left_right del: bind_outcome_Ok_conv)
  moreover have "linked (s\<lparr>nodes := h7, root := q\<rparr>) (fill k (Nd m c mo l (Nd n b ob Lf r)))"
    using L N T v assms by (auto simp: linked_def tree_at_fill rt_fill q_def h2_def h5_def h6_def h7_def)
  moreover have "dom h7 = dom ?h" using L by (auto simp: h2_def h5_def h6_def h7_def)
  ultimately show ?thesis by (auto simp: same_nodes_def)
qed

lemma swap_linked_far:
  assumes "linked s (fill k (Nd n c ob l (fill ks (Nd m b mo Lf r))))" "ks \<noteq> []"
  shows "\<exists>s'. swap_with s n m = Ok s' \<and> same_nodes s s' \<and> linked s' (fill k (Nd m c mo l (fill ks (Nd n b ob Lf r))))"
proof -
  let ?h = "nodes s" and ?P = "upper k 0" and ?q = "fst (snd (last ks))" and ?U = "upper ks n"
  define h2 where "h2 = ?h(m \<mapsto> rec SL mo c ?P (rt l) ?q, n \<mapsto> rec SL ob b ?U 0 (rt r))"
  define h3 where "h3 = plug h2 ks n"
  define h5 where "h5 = hang h3 r n"
  define h6 where "h6 = plug h5 k m"
  define h7 where "h7 = hang h6 l m"
  define h8 where "h8 = rebase h7 ks m"
  have L: "path_at ?h 0 k n" "n \<noteq> 0" "m \<noteq> 0" "?h n = Some (rec SL ob c ?P (rt l) ?q)" "path_at ?h n ks m"
    "?h m = Some (rec SL mo b ?U 0 (rt r))" "tree_at ?h n l" "tree_at ?h m r"
    using assms by (auto simp: linked_def tree_at_fill rt_fill)
  have N: "distinct (caddrs k)" "distinct (caddrs ks)" "distinct (addrs l)" "distinct (addrs r)" "n \<noteq> m" "n \<notin> set (caddrs k)"
    "m \<notin> set (caddrs k)" "n \<notin> set (caddrs ks)" "m \<notin> set (caddrs ks)"
    "n \<notin> set (addrs l)" "m \<notin> set (addrs l)" "n \<notin> set (addrs r)" "m \<notin> set (addrs r)" "set (addrs l) \<inter> set (addrs r) = {}"
    "set (addrs r) \<inter> set (addrs l) = {}" "set (caddrs k) \<inter> set (addrs l) = {}" "set (caddrs k) \<inter> set (addrs r) = {}"
    "set (caddrs ks) \<inter> set (addrs l) = {}" "set (caddrs ks) \<inter> set (addrs r) = {}" "set (caddrs ks) \<inter> set (caddrs k) = {}"
    "set (caddrs k) \<inter> set (caddrs ks) = {}"
    using assms by (auto simp: linked_def)
  have "0 \<notin> set (caddrs ks)"
    using tree_at_null [of ?h 0 "fill k (Nd n c ob l (fill ks (Nd m b mo Lf r)))"] assms(1) by (simp add: linked_def)
  then have q: "?q \<noteq> m" "?q \<noteq> n" "?q \<noteq> 0" using last_in [OF assms(2)] N(8,9) by metis+
  have T: "path_at h2 n ks m" "tree_at h3 m r" "path_at h5 0 k n" "tree_at h6 n l" "path_at h7 n ks n"
    using L N by (simp_all add: h2_def h3_def h5_def h6_def h7_def)
  define z where "z = (if k = [] then m else root s)"
  have v: "h2 n = Some (rec SL ob b ?U 0 (rt r))" "h2 m = Some (rec SL mo c ?P (rt l) ?q)" "h3 n = h2 n" "h3 m = h2 m"
    "h5 n = h2 n" "h5 m = h2 m" "h6 n = h2 n" "h6 m = h2 m" "h7 n = h2 n" "h7 m = h2 m" "h8 n = h2 n" "h8 m = h2 m"
    using N by (simp_all add: h2_def h3_def h5_def h6_def h7_def h8_def rebase_other)
  have e1: "replace_child (s\<lparr>nodes := h2\<rparr>) ?U m n = Ok (s\<lparr>nodes := h3\<rparr>)"
    using replace_child_plug [of "s\<lparr>nodes := h2\<rparr>" n ks m n] T(1) N L assms(2) by (simp add: h3_def)
  have e2: "set_parent (s\<lparr>nodes := h3\<rparr>) (rt r) n = Ok (s\<lparr>nodes := h5\<rparr>)"
    using set_parent_hang [of "s\<lparr>nodes := h3\<rparr>" m r n] T by (simp add: h5_def)
  have e3: "relink (s\<lparr>nodes := h5\<rparr>) ?P n m = Ok (s\<lparr>nodes := h6, root := z\<rparr>)"
    using relink_plug [of "s\<lparr>nodes := h5\<rparr>" k n m] T N L by (simp add: h6_def z_def)
  have e4: "set_parent (s\<lparr>nodes := h6, root := z\<rparr>) (rt l) m = Ok (s\<lparr>nodes := h7, root := z\<rparr>)"
    using set_parent_hang [of "s\<lparr>nodes := h6, root := z\<rparr>" n l m] T by (simp add: h7_def)
  have "\<exists>x. h7 ?q = Some x" by (rule path_last [OF T(5) assms(2)])
  then have e5: "set_parent (s\<lparr>nodes := h7, root := z\<rparr>) ?q m = Ok (s\<lparr>nodes := h8, root := z\<rparr>)"
    using q assms(2) by (auto simp: set_parent_def upd_def h8_def rebase_def)
  have e0: "upd s m (\<lambda>x. x\<lparr>parent := ?P, left := rt l, right := ?q, color := c\<rparr>) =
      Ok (s\<lparr>nodes := ?h(m \<mapsto> rec SL mo c ?P (rt l) ?q)\<rparr>)"
    "upd (s\<lparr>nodes := ?h(m \<mapsto> rec SL mo c ?P (rt l) ?q)\<rparr>) n (\<lambda>x. x\<lparr>parent := ?U, left := 0, right := rt r, color := b\<rparr>) =
      Ok (s\<lparr>nodes := h2\<rparr>)"
    using L N by (simp_all add: upd_def h2_def)
  have "node s n = Ok (rec SL ob c ?P (rt l) ?q)" "node s m = Ok (rec SL mo b ?U 0 (rt r))"
    "set_parent (s\<lparr>nodes := h3\<rparr>) 0 n = Ok (s\<lparr>nodes := h3\<rparr>)"
    using L by (simp_all add: node_def set_parent_def)
  then have "swap_with s n m = Ok (s\<lparr>nodes := h8, root := z\<rparr>)"
    using e0 e1 e2 e3 e4 e5 v q by (simp add: swap_with_def Let_def node_def rec_left_right del: bind_outcome_Ok_conv)
  moreover have "linked (s\<lparr>nodes := h8, root := z\<rparr>) (fill k (Nd m c mo l (fill ks (Nd n b ob Lf r))))"
  proof -
    have "path_at h8 m ks n" using path_at_rebase [OF T(5) N(2)] by (simp add: h8_def)
    moreover have "upper ks m = ?U" using assms(2) by (cases ks) auto
    moreover have "path_at h8 0 k m" "tree_at h8 m l" "tree_at h8 n r"
      using L N T by (simp_all add: h8_def rebase_path rebase_tree h2_def h3_def h5_def h6_def h7_def)
    ultimately show ?thesis using L N v assms
      by (auto simp: linked_def tree_at_fill rt_fill z_def)
  qed
  moreover have "dom h8 = dom ?h" using L by (auto simp: h2_def h3_def h5_def h6_def h7_def h8_def)
  ultimately show ?thesis by (auto simp: same_nodes_def)
qed

section \<open>Taking a node out\<close>

lemma cut_node_linked:
  assumes "linked s (fill k (Nd n c ob l r))" "l = Lf \<or> r = Lf" "ch = (if l \<noteq> Lf then l else r)"
  shows "\<exists>s'. cut_node s n = Ok (rt ch, s') \<and> same_nodes s s' \<and> linked s' (fill k ch) \<and> nodes s' n = nodes s n"
proof -
  let ?h = "nodes s"
  define h1 where "h1 = hang ?h ch (upper k 0)"
  have L: "path_at ?h 0 k n" "n \<noteq> 0" "?h n = Some (rec SL ob c (upper k 0) (rt l) (rt r))" "tree_at ?h n l" "tree_at ?h n ch"
    using assms by (auto simp: linked_def tree_at_fill)
  have N: "distinct (caddrs k)" "distinct (addrs ch)" "n \<notin> set (caddrs k)" "n \<notin> set (addrs ch)" "set (caddrs k) \<inter> set (addrs ch) = {}"
    using assms by (auto simp: linked_def)
  have v: "h1 n = ?h n" "path_at h1 0 k n" using L N by (simp_all add: h1_def)
  have e1: "set_parent s (rt ch) (upper k 0) = Ok (s\<lparr>nodes := h1\<rparr>)" using set_parent_hang [OF L(5)] by (simp add: h1_def)
  define q where "q = (if k = [] then rt ch else root s)"
  have e2: "relink (s\<lparr>nodes := h1\<rparr>) (upper k 0) n (rt ch) = Ok (s\<lparr>nodes := plug h1 k (rt ch), root := q\<rparr>)"
    using relink_plug [of "s\<lparr>nodes := h1\<rparr>" k n "rt ch"] v N L by (simp add: q_def)
  have ch: "rt ch = (if rt l \<noteq> 0 then rt l else rt r)" using assms(3) rt_zero [OF L(4)] by simp
  have "cut_node s n = Ok (rt ch, s\<lparr>nodes := plug h1 k (rt ch), root := q\<rparr>)"
    using e1 e2 v L by (cases "rt l = 0") (simp_all add: cut_node_def node_def ch rec_left_right Let_def del: bind_outcome_Ok_conv)
  moreover have "linked (s\<lparr>nodes := plug h1 k (rt ch), root := q\<rparr>) (fill k ch)"
    using L N v assms(1) by (auto simp: linked_def tree_at_fill rt_fill q_def h1_def)
  ultimately show ?thesis using v N by (auto simp: same_nodes_def h1_def)
qed

lemma focus: "a \<in> set (addrs t) \<Longrightarrow> \<exists>k u. t = fill k u \<and> rt u = a \<and> u \<noteq> Lf"
proof (induction t)
  case (Nd b c ob l r)
  have up: "\<exists>k u. Nd b c ob l r = fill k u \<and> rt u = a \<and> u \<noteq> Lf"
    if "l = fill k u \<or> r = fill k u" "rt u = a" "u \<noteq> Lf" for k u
  proof -
    from that(1) have "Nd b c ob l r = fill (k @ [(SL, b, c, ob, r)]) u \<or> Nd b c ob l r = fill (k @ [(SR, b, c, ob, l)]) u"
      by (auto simp: Nod_def)
    with that(2,3) show ?thesis by blast
  qed
  from Nd.prems consider "a \<in> set (addrs l)" | "a \<in> set (addrs r)" | "a = b" by auto
  then show ?case
  proof cases
    case 3
    then show ?thesis by (intro exI [of _ "[]"] exI [of _ "Nd b c ob l r"]) simp
  qed (use Nd.IH up in blast)+
qed simp

lemma hue_fill: "k \<noteq> [] \<Longrightarrow> hue (fill k t) = hue (fill k u)"
  using last_black_hue [of k t] last_black_hue [of k u] by (metis not_Red(2))

lemma remove_fixup_linked:
  assumes "linked s (fill k t)" "t \<noteq> Lf" "k \<noteq> [] \<Longrightarrow> hue (fill k t) = Black"
  shows "\<exists>s' t'. rbtree_remove_fixup s (rt t) = Some (Ok s') \<and> same_nodes s s' \<and> linked s' t' \<and> alike (fill k t) t' \<and> hue t' = Black"
proof -
  obtain cur s1 T where s1: "light_loop s (rt t) = Some (Ok (cur, s1))" "same_nodes s s1" "linked s1 T" "alike (fill k t) T"
    "cur \<in> set (addrs T)" "cur = root s1 \<or> k \<noteq> [] \<and> hue T = hue (fill k t)"
    using light_loop_ends [OF assms(1,2)] by blast
  obtain k' u where T: "T = fill k' u" "rt u = cur" "u \<noteq> Lf" using focus [OF s1(5)] by blast
  from s1(3) T(1) have "linked s1 (fill k' u)" by simp
  from paint_linked [OF this T(3), of Black] T(2) obtain s2 where
    s2: "paint Black s1 cur = Ok s2" "linked s2 (fill k' (dye Black u))" "same_nodes s1 s2" by auto
  have "alike T (fill k' (dye Black u))" unfolding T(1) by (rule alike_fill) (simp add: alike_def)
  then have "alike (fill k t) (fill k' (dye Black u))" using s1(4) alike_trans by blast
  moreover have "hue (fill k' (dye Black u)) = Black"
  proof (cases "k' = []")
    case False
    then have "cur \<noteq> root s1" using root_place [of s1 k' u] s1(3) T by simp
    then show ?thesis using s1(6) assms(3) hue_fill [OF False, of "dye Black u" u] T(1) by simp
  qed simp
  moreover have "rbtree_remove_fixup s (rt t) = Some (Ok s2)" using s1(1) s2(1) by (simp add: rbtree_remove_fixup_def)
  ultimately show ?thesis using s2 same_nodes_trans [OF s1(2)] by blast
qed

lemma take_out_linked:
  assumes "linked s (fill k (Nd n c ob l r))" "l = Lf \<or> r = Lf" "ch = (if l \<noteq> Lf then l else r)"
    and "hue (fill k (Nd n c ob l r)) = Black" "k \<noteq> [] \<or> ch \<noteq> Lf"
  shows "\<exists>s' t'. take_out s n = Some (Ok s') \<and> linked s' t' \<and> alike (fill k ch) t' \<and> hue t' = Black \<and>
    dom (nodes s') = dom (nodes s) - {n} \<and> isize s' = isize s - 1 \<and> (c = Red \<or> ch = Lf \<longrightarrow> t' = fill k ch)"
proof -
  obtain s1 where s1: "cut_node s n = Ok (rt ch, s1)" "same_nodes s s1" "linked s1 (fill k ch)" "nodes s1 n = nodes s n"
    using cut_node_linked [OF assms(1-3)] by blast
  have n: "node s1 n = Ok (rec SL ob c (upper k 0) (rt l) (rt r))" using s1(4) assms(1) by (simp add: node_def linked_def tree_at_fill)
  have hk: "hue (fill k ch) = Black" if "k \<noteq> []" using hue_fill [OF that, of ch "Nd n c ob l r"] assms(4) by simp
  have "\<exists>s2 t'. (if c = Black \<and> rt ch \<noteq> 0 then rbtree_remove_fixup s1 (rt ch) else Some (Ok s1)) = Some (Ok s2) \<and>
    same_nodes s1 s2 \<and> linked s2 t' \<and> alike (fill k ch) t' \<and> hue t' = Black \<and> (c = Red \<or> ch = Lf \<longrightarrow> t' = fill k ch)"
  proof (cases "c = Black \<and> ch \<noteq> Lf")
    case True
    then have "rt ch \<noteq> 0" using rt_zero [OF linked_sub [OF s1(3)]] by simp
    with remove_fixup_linked [OF s1(3) _ hk] True show ?thesis by auto
  next
    case False
    have "hue (fill k ch) = Black" using hk assms(4,5) False by (cases "k = []") auto
    with False s1(3) show ?thesis by auto
  qed
  then obtain s2 t' where s2: "(if c = Black \<and> rt ch \<noteq> 0 then rbtree_remove_fixup s1 (rt ch) else Some (Ok s1)) = Some (Ok s2)"
    "same_nodes s1 s2" "linked s2 t'" "alike (fill k ch) t'" "hue t' = Black" "c = Red \<or> ch = Lf \<longrightarrow> t' = fill k ch" by blast
  have "n \<notin> set (addrs (fill k ch))" using assms(1,3) by (auto simp: linked_def)
  then have nt: "n \<notin> set (addrs t')" using s2(4) unfolding alike_def by simp blast
  have "n \<in> dom (nodes s)" using assms(1) by (auto simp: linked_def tree_at_fill)
  then have "\<exists>x. nodes s2 n = Some x" using s2(2) s1(2) by (auto simp: same_nodes_def)
  then have f: "free_node s2 n = Ok (s2\<lparr>nodes := (nodes s2)(n := None)\<rparr>)" by (auto simp: free_node_def)
  let ?s = "s2\<lparr>nodes := (nodes s2)(n := None), isize := isize s2 - 1\<rparr>"
  have "take_out s n = Some (Ok ?s)" using s1(1) n s2(1) f by (auto simp: take_out_def split: if_split_asm)
  moreover have "linked ?s t'" using s2(3) nt by (simp add: linked_def)
  ultimately show ?thesis using s2 s1(2) by (auto simp: same_nodes_def)
qed

section \<open>Removal of an object\<close>

lemma ordered_distinct_nums:
  assumes "ordered num (xs @ x # ys)"
  shows "filter (\<lambda>y. num y \<noteq> num x) (xs @ x # ys) = xs @ ys"
proof -
  have "\<forall>y \<in> set xs \<union> set ys. num y \<noteq> num x" using assms unfolding ordered_mid by (metis Un_iff less_irrefl)
  then have "filter (\<lambda>y. num y \<noteq> num x) xs = xs" "filter (\<lambda>y. num y \<noteq> num x) ys = ys" by (auto intro: filter_True)
  then show ?thesis by simp
qed

definition lone :: "up list \<Rightarrow> nat \<Rightarrow> rb_color \<Rightarrow> nat \<Rightarrow> tree \<Rightarrow> tree \<Rightarrow> tree \<Rightarrow> bool" where
  "lone k n c ob l r ch = ((l = Lf \<or> r = Lf) \<and> ch = (if l \<noteq> Lf then l else r) \<and>
    hue (fill k (Nd n c ob l r)) = Black \<and> (k \<noteq> [] \<or> ch \<noteq> Lf))"

lemma one_child_linked:
  assumes L: "linked s (fill k (Nd n c ob l r))" "hue (fill k (Nd n c ob l r)) = Black" "k \<noteq> [] \<or> l \<noteq> Lf \<or> r \<noteq> Lf"
  shows "\<exists>s' K b l' r' ch. one_child s n (rec SL ob c (upper k 0) (rt l) (rt r)) = Some (Ok s') \<and> same_nodes s s' \<and>
    linked s' (fill K (Nd n b ob l' r')) \<and> lone K n b ob l' r' ch \<and>
    objs (fill K ch) = before k @ objs l @ objs r @ after k \<and>
    set (addrs (fill K (Nd n b ob l' r'))) = set (addrs (fill k (Nd n c ob l r))) \<and>
    (l = Lf \<and> r = Lf \<longrightarrow> fill K ch = fill k Lf \<and> ch = Lf)"
proof -
  have z: "rt l \<noteq> 0 \<longleftrightarrow> l \<noteq> Lf" "rt r \<noteq> 0 \<longleftrightarrow> r \<noteq> Lf"
    using linked_sibling [of s k SL n c ob l r] L(1) by (auto simp: Nd_as_Nod dest: rt_zero)
  show ?thesis
  proof (cases "l \<noteq> Lf \<and> r \<noteq> Lf")
    case False
    with L z show ?thesis
      by (intro exI [of _ s] exI [of _ k] exI [of _ c] exI [of _ l] exI [of _ r] exI [of _ "if l \<noteq> Lf then l else r"])
        (auto simp: one_child_def lone_def rec_left_right objs_fill)
  next
    case True
    have "linked s (fill ((SR, n, c, ob, l) # k) r)" using L(1) by (simp add: Nod_def)
    from end_loop_at [OF this, of SL] True obtain ks m b mo u where
      m: "r = fill ks (Nd m b mo Lf u)" "end_loop SL s (rt r) = Some (Ok m)" "list_all (\<lambda>x. fst x = SL) ks" by (auto simp: Nod_def)
    have "\<exists>s1. swap_with s n m = Ok s1 \<and> same_nodes s s1 \<and> linked s1 (fill k (Nd m c mo l (fill ks (Nd n b ob Lf u))))"
      using swap_linked_far [of s k n c ob l ks m b mo u] swap_linked_next [of s k n c ob l m b mo u] L(1) m(1)
      by (cases "ks = []") auto
    then obtain s1 where s1: "swap_with s n m = Ok s1" "same_nodes s s1"
      "linked s1 (fill (ks @ (SR, m, c, mo, l) # k) (Nd n b ob Lf u))" by (auto simp: Nod_def)
    have bk: "before ks = []" using m(3) by (induction ks rule: before.induct) auto
    have hue: "hue (fill (ks @ (SR, m, c, mo, l) # k) (Nd n b ob Lf u)) = Black"
      using L(2) hue_fill [of k "Nd n c ob l r" "Nd m c mo l (fill ks (Nd n b ob Lf u))"] by (cases "k = []") (auto simp: Nod_def)
    have ob: "objs (fill (ks @ (SR, m, c, mo, l) # k) u) = before k @ objs l @ objs r @ after k"
      using bk by (simp add: objs_fill objs_Nod m(1))
    show ?thesis using True z s1 hue ob m
      by (intro exI [of _ s1] exI [of _ "ks @ (SR, m, c, mo, l) # k"] exI [of _ b] exI [of _ Lf] exI [of _ u] exI [of _ u])
        (auto simp: one_child_def lone_def rec_left_right rbnode_minimum_def)
  qed
qed

lemma remove_at_rep:
  assumes "rep num s (fill k (Nd n c ob l r))" "k \<noteq> [] \<or> l \<noteq> Lf \<or> r \<noteq> Lf"
  shows "\<exists>s' t'. rbtree_remove_at d s n = Some (Ok ([], s')) \<and> rep num s' t' \<and>
    objs t' = filter (\<lambda>y. num y \<noteq> num ob) (objs (fill k (Nd n c ob l r))) \<and> dom (nodes s') = dom (nodes s) - {n} \<and>
    (l = Lf \<and> r = Lf \<longrightarrow> t' = fill k Lf)"
proof -
  let ?t = "fill k (Nd n c ob l r)"
  have L: "linked s ?t" "dom (nodes s) = set (addrs ?t)" "isize s = int (length (addrs ?t))" "ordered num (objs ?t)"
    "\<forall>x \<in> set (objs ?t). small num x" "hue ?t = Black" using assms(1) by (auto simp: rep_def)
  have nn: "node s n = Ok (rec SL ob c (upper k 0) (rt l) (rt r))"
    using linked_node [of s k SL n c ob l r] L(1) by (simp add: Nd_as_Nod)
  obtain s1 K b tl tr ch where s1: "one_child s n (rec SL ob c (upper k 0) (rt l) (rt r)) = Some (Ok s1)"
    "same_nodes s s1" "linked s1 (fill K (Nd n b ob tl tr))" "lone K n b ob tl tr ch"
    "objs (fill K ch) = before k @ objs l @ objs r @ after k"
    "set (addrs (fill K (Nd n b ob tl tr))) = set (addrs ?t)" "l = Lf \<and> r = Lf \<longrightarrow> fill K ch = fill k Lf \<and> ch = Lf"
    using one_child_linked [OF L(1,6) assms(2)] by blast
  obtain s' t' where s': "take_out s1 n = Some (Ok s')" "linked s' t'" "alike (fill K ch) t'" "hue t' = Black"
    "dom (nodes s') = dom (nodes s1) - {n}" "isize s' = isize s1 - 1" "b = Red \<or> ch = Lf \<longrightarrow> t' = fill K ch"
    using take_out_linked [OF s1(3)] s1(4) unfolding lone_def by blast
  have "isize s \<noteq> 1" using assms(2) by (cases l; cases r; cases k) (auto simp: L(3))
  then have "rbtree_remove_at d s n = Some (Ok ([], s'))"
    using nn s1(1) s'(1) by (simp add: rbtree_remove_at_def)
  moreover have ob: "objs t' = filter (\<lambda>y. num y \<noteq> num ob) (objs ?t)"
    using s'(3) s1(5) ordered_distinct_nums [of num "before k @ objs l" ob "objs r @ after k"] L(4)
    by (simp add: alike_def objs_fill)
  moreover have "rep num s' t'"
  proof -
    have "set (addrs (fill K (Nd n b ob tl tr))) = insert n (set (addrs (fill K ch)))" "n \<notin> set (addrs (fill K ch))"
      using s1(3,4) by (auto simp: linked_def lone_def)
    then have "set (addrs t') = set (addrs ?t) - {n}" using s'(3) s1(6) unfolding alike_def by (metis Diff_insert_absorb)
    then have "dom (nodes s') = set (addrs t')" using s'(5) s1(2) L(2) by (simp add: same_nodes_def)
    moreover have "isize s' = int (length (addrs t'))"
      using s'(3,6) s1(2,5) L(3) by (simp add: same_nodes_def alike_def objs_fill flip: length_objs)
    moreover have "ordered num (objs t')" using L(4) unfolding ob ordered_def by (rule sorted_wrt_filter)
    ultimately show ?thesis using s'(2,4) L(5) ob by (auto simp: rep_def)
  qed
  ultimately show ?thesis using s'(5,7) s1(2,7) by (auto simp: same_nodes_def)
qed

lemma addrs_Nil [simp]: "addrs t = [] \<longleftrightarrow> t = Lf" by (cases t) simp_all

lemma single_tree: "length (addrs t) = 1 \<Longrightarrow> \<exists>a c ob. t = Nd a c ob Lf Lf"
  by (cases t) simp_all

text \<open>With one object in the tree, whatever is asked for, the tree is emptied.\<close>

lemma remove_at_single:
  assumes "rep num s t" "length (addrs t) = 1"
  shows "\<exists>s'. rbtree_remove_at d s p = Some (Ok (if d then objs t else [], s')) \<and> rep num s' Lf"
proof -
  obtain a c ob where t: "t = Nd a c ob Lf Lf" using single_tree [OF assms(2)] by blast
  have h: "root s = a" "a \<noteq> 0" "nodes s a = Some (rec SL ob c 0 0 0)" "dom (nodes s) = {a}" "isize s = 1"
    using assms(1) t by (auto simp: rep_def linked_def)
  have "rbnode_destruct d s a = Some (Ok (if d then [ob] else [], s\<lparr>nodes := (nodes s)(a := None)\<rparr>))"
    by (subst rbnode_destruct.simps, subst (1 2) rbnode_destruct.simps) (simp add: h node_def free_node_def rec_left_right)
  moreover have "rep num (s\<lparr>nodes := (nodes s)(a := None), root := 0, isize := 0\<rparr>) Lf"
    using h(4) by (auto simp: rep_def linked_def ordered_def)
  ultimately show ?thesis using h t by (simp add: rbtree_remove_at_def)
qed

lemma remove_rep:
  assumes "rep num s t" "small num x" "\<exists>y \<in> set (objs t). num y = num x"
  shows "\<exists>s' t' ds. rbtree_remove num d x s = Some (Ok (ds, s')) \<and> rep num s' t' \<and>
    objs t' = filter (\<lambda>y. num y \<noteq> num x) (objs t) \<and> ds = (if d \<and> length (objs t) = 1 then objs t else []) \<and>
    dom (nodes s') \<subseteq> dom (nodes s)"
proof -
  obtain a k c ob l r where a: "rbtree_find num x s = Some (Ok a)" "t = fill k (Nd a c ob l r)" "num ob = num x"
    using rbtree_find_rep [OF assms(1,2)] assms(3) by (auto simp: held_at_def)
  show ?thesis
  proof (cases "k \<noteq> [] \<or> l \<noteq> Lf \<or> r \<noteq> Lf")
    case True
    then have "length (objs t) \<noteq> 1" using a(2) by (cases l; cases r; cases k) auto
    with remove_at_rep [of num s k a c ob l r d] True assms(1) a show ?thesis by (auto simp: rbtree_remove_def)
  next
    case False
    with a have "length (addrs t) = 1" "objs t = [ob]" by auto
    with remove_at_single [OF assms(1), of d a] a show ?thesis by (auto simp: rbtree_remove_def rep_def)
  qed
qed

section \<open>Properties\<close>

text \<open>Three objects whose numbers are their addresses, in a tree with the top node in the middle.\<close>

definition demo_tree :: "rb_color \<Rightarrow> tree" where
  "demo_tree c = Nd 2 Black 12 (Nd 3 c 13 Lf Lf) (Nd 1 c 11 Lf Lf)"

definition demo_store :: "rb_color \<Rightarrow> rb_tree" where
  "demo_store c =
     \<lparr>nodes = [2 \<mapsto> \<lparr>object = 12, color = Black, parent = 0, right = 1, left = 3\<rparr>,
        3 \<mapsto> \<lparr>object = 13, color = c, parent = 2, right = 0, left = 0\<rparr>,
        1 \<mapsto> \<lparr>object = 11, color = c, parent = 2, right = 0, left = 0\<rparr>],
      root = 2, isize = 3\<rparr>"

lemma demo_tree_rep: "rep of_nat (demo_store c) (demo_tree c)" "rb_ok (demo_tree c)"
  by (auto simp: rep_def linked_def demo_tree_def demo_store_def rec_def ordered_def small_def rb_ok_def)

text \<open>
  C7: Inserting into a red-black tree ends without a fault: if the number is there already, the tree is left
  unchanged and NULL is returned; otherwise the object is at its place in the order of the numbers, the
  pointers, the parents and the count are right, and the tree is a red-black tree again.
\<close>

theorem rbtree_insert_balanced:
  assumes "rep num s t" "rb_ok t" "small num x" "p \<noteq> 0" "nodes s p = None"
  shows "if \<exists>y \<in> set (objs t). num y = num x then rbtree_insert num p x s = Some (Ok (0, s))
    else \<exists>s' t'. rbtree_insert num p x s = Some (Ok (p, s')) \<and> rep num s' t' \<and> objs t' = ins_num num x (objs t) \<and> rb_ok t'"
  using rbtree_insert_rep [OF assms(1,3-5)] rbtree_insert_dup [OF assms(1,3-5)] assms(2) by auto

theorem rbtree_insert_balanced_witness:
  "\<exists>s' t'. rbtree_insert of_nat 9 14 (demo_store Red) = Some (Ok (9, s')) \<and> rep of_nat s' t' \<and>
    objs t' = ins_num of_nat 14 (objs (demo_tree Red)) \<and> rb_ok t'"
  using rbtree_insert_balanced [OF demo_tree_rep [of Red], of 14 9] by (simp add: small_def demo_store_def demo_tree_def)

text \<open>
  C8: Removing an object whose number is in the tree ends without a fault, and the tree has then the other
  objects in the same order, with right pointers, parents and count. The destructor is called
  only if it was the last object.
\<close>

theorem rbtree_remove_object:
  assumes "rep num s t" "small num x" "\<exists>y \<in> set (objs t). num y = num x"
  shows "\<exists>s' t'. rbtree_remove num d x s = Some (Ok (if d \<and> length (objs t) = 1 then objs t else [], s')) \<and>
    rep num s' t' \<and> objs t' = filter (\<lambda>y. num y \<noteq> num x) (objs t)"
  using remove_rep [OF assms, of d] by blast

theorem rbtree_remove_object_witness:
  "\<exists>s' t'. rbtree_remove of_nat True 12 (demo_store Red) = Some (Ok ([], s')) \<and> rep of_nat s' t' \<and> objs t' = [13, 11]"
  using rbtree_remove_object [OF demo_tree_rep(1) [of Red], of 12 True] by (simp add: small_def demo_tree_def)

text \<open>
  C34: Removing an object whose number is not in the tree dereferences NULL; if the tree has one object, that
  one is removed instead.
\<close>

theorem rbtree_remove_missing:
  assumes "rep num s t" "small num x" "\<not> (\<exists>y \<in> set (objs t). num y = num x)"
  shows "if length (objs t) = 1 then \<exists>s'. rbtree_remove num d x s = Some (Ok (if d then objs t else [], s')) \<and> rep num s' Lf
    else rbtree_remove num d x s = Some Fault"
proof -
  have f: "rbtree_find num x s = Some (Ok 0)" using rbtree_find_rep [OF assms(1,2)] assms(3) by auto
  show ?thesis
  proof (cases "length (objs t) = 1")
    case True
    with remove_at_single [OF assms(1), of d 0] f show ?thesis by (simp add: rbtree_remove_def)
  next
    case False
    have "nodes s 0 = None" using assms(1) tree_at_null unfolding rep_def linked_def by (metis domIff)
    with False f assms(1) show ?thesis by (simp add: rbtree_remove_def rbtree_remove_at_def rep_def node_def)
  qed
qed

theorem rbtree_remove_missing_witness: "rbtree_remove of_nat False 20 (demo_store Red) = Some Fault"
  using rbtree_remove_missing [OF demo_tree_rep(1) [of Red], of 20 False] by (simp add: small_def demo_tree_def)

text \<open>
  C33: After a leaf is removed from a red-black tree it is one still exactly if the leaf was red: a black leaf has no
  child to run the fix-up on, and the black heights stay unequal.
\<close>

theorem rbtree_remove_leaf:
  assumes "rep num s (fill k (Nd n c ob Lf Lf))" "k \<noteq> []" "rb_ok (fill k (Nd n c ob Lf Lf))"
  shows "\<exists>s' t'. rbtree_remove_at d s n = Some (Ok ([], s')) \<and> rep num s' t' \<and> (rb_ok t' \<longleftrightarrow> c = Red)"
proof -
  have "rb_ok (fill k Lf) \<longleftrightarrow> c = Red"
  proof (cases c)
    case Red
    then show ?thesis using assms(2,3) hue_fill [OF assms(2), of Lf "Nd n c ob Lf Lf"] path_c_Black
      by (auto simp: rb_ok_def invh_fill invc_fill)
  next
    case Black
    have "\<not> path_h k 0" using assms(2,3) Black by (cases "(k, 0::nat)" rule: path_h.cases) (auto simp: rb_ok_def invh_fill)
    then show ?thesis using Black by (simp add: rb_ok_def invh_fill)
  qed
  with remove_at_rep [OF assms(1), of d] assms(2) show ?thesis by auto
qed

theorem rbtree_remove_leaf_witness:
  "\<exists>s' t'. rbtree_remove_at False (demo_store Black) 3 = Some (Ok ([], s')) \<and> rep of_nat s' t' \<and> \<not> rb_ok t'"
proof -
  have e: "demo_tree Black = fill [(SL, 2, Black, 12, Nd 1 Black 11 Lf Lf)] (Nd 3 Black 13 Lf Lf)" by (simp add: demo_tree_def Nod_def)
  show ?thesis using rbtree_remove_leaf [OF demo_tree_rep(1) [of Black, unfolded e] _ demo_tree_rep(2) [of Black, unfolded e], of False] by simp
qed

end
