(* ===== verification/Ffsb_Cirlist.thy ===== *)
theory Ffsb_Cirlist
  imports Ffsb_Rbt
begin

text \<open>
  The circular doubly linked lists of the benchmark ffsb, \<^verbatim>\<open>utils/ffsb-6.0-rc2/cirlist.c\<close>: a store of
  nodes by address with a count and a head pointer. The list is used as a queue of deleted files.
  A failed \<^verbatim>\<open>assert\<close> and an access to a node that is not allocated are faults; what \<^verbatim>\<open>malloc\<close> returns
  is an argument. The list is shown to implement a queue, and what a queue gives its clients is
  proved once for the interface.
\<close>

section \<open>The model\<close>

record cnode =
  cobj :: nat
  cnext :: nat
  cprev :: nat

record cirlist =
  cl_count :: int
  cl_head :: nat
  cl_nodes :: "nat \<rightharpoonup> cnode"

definition cl_at :: "cirlist \<Rightarrow> nat \<Rightarrow> cnode outcome" where
  "cl_at cl p = (case cl_nodes cl p of None \<Rightarrow> Fault | Some n \<Rightarrow> Ok n)"

definition cl_upd :: "cirlist \<Rightarrow> nat \<Rightarrow> (cnode \<Rightarrow> cnode) \<Rightarrow> cirlist outcome" where
  "cl_upd cl p f = (case cl_nodes cl p of None \<Rightarrow> Fault | Some n \<Rightarrow> Ok (cl\<lparr>cl_nodes := (cl_nodes cl)(p \<mapsto> f n)\<rparr>))"

definition init_cirlist :: "cirlist \<Rightarrow> cirlist" where
  "init_cirlist cl = cl\<lparr>cl_count := 0, cl_head := 0\<rparr>"

definition cl_empty :: "cirlist \<Rightarrow> bool" where
  "cl_empty cl \<longleftrightarrow> cl_count cl = 0"

definition cl_insert_tail :: "nat \<Rightarrow> nat \<Rightarrow> cirlist \<Rightarrow> cirlist outcome" where
  "cl_insert_tail new x cl0 =
     (if new = 0 then Fault
      else let cl = cl0\<lparr>cl_nodes := (cl_nodes cl0)(new \<mapsto> \<lparr>cobj = x, cnext = 0, cprev = 0\<rparr>)\<rparr>; hd = cl_head cl
      in if cl_count cl = 0
         then if hd \<noteq> 0 then Fault
              else bind_outcome (cl_upd cl new (\<lambda>n. n\<lparr>cnext := new, cprev := new\<rparr>)) (\<lambda>c1.
                     Ok (c1\<lparr>cl_head := new, cl_count := 1\<rparr>))
         else bind_outcome (cl_at cl hd) (\<lambda>h.
              bind_outcome
                (if cl_count cl = 1
                 then if cnext h \<noteq> hd \<or> cprev h \<noteq> hd then Fault
                      else bind_outcome (cl_upd cl hd (\<lambda>n. n\<lparr>cnext := new, cprev := new\<rparr>)) (\<lambda>c1.
                           cl_upd c1 new (\<lambda>n. n\<lparr>cnext := hd, cprev := hd\<rparr>))
                 else if cnext h = hd \<or> cprev h = hd then Fault
                      else bind_outcome (cl_upd cl new (\<lambda>n. n\<lparr>cnext := hd, cprev := cprev h\<rparr>)) (\<lambda>c1.
                           bind_outcome (cl_upd c1 (cprev h) (\<lambda>n. n\<lparr>cnext := new\<rparr>)) (\<lambda>c2.
                           cl_upd c2 hd (\<lambda>n. n\<lparr>cprev := new\<rparr>)))) (\<lambda>c.
              Ok (c\<lparr>cl_count := cl_count c + 1\<rparr>))))"

definition new_head :: "cirlist \<Rightarrow> cnode \<Rightarrow> cirlist outcome" where
  "new_head cl h =
     (if cl_count cl = 1
      then if cnext h \<noteq> cl_head cl \<or> cprev h \<noteq> cl_head cl then Fault else Ok (cl\<lparr>cl_head := 0, cl_count := 0\<rparr>)
      else if cl_count cl = 2
      then bind_outcome (cl_upd cl (cnext h) (\<lambda>n. n\<lparr>cnext := cnext h, cprev := cnext h\<rparr>)) (\<lambda>c1.
             Ok (c1\<lparr>cl_head := cnext h, cl_count := 1\<rparr>))
      else if cnext h = cl_head cl \<or> cprev h = cl_head cl then Fault
      else bind_outcome (cl_upd cl (cnext h) (\<lambda>n. n\<lparr>cprev := cprev h\<rparr>)) (\<lambda>c1.
           bind_outcome (cl_at c1 (cnext h)) (\<lambda>n1.
           bind_outcome (cl_upd c1 (cprev n1) (\<lambda>n. n\<lparr>cnext := cnext h\<rparr>)) (\<lambda>c2.
             Ok (c2\<lparr>cl_head := cnext h, cl_count := cl_count c2 - 1\<rparr>)))))"

text \<open>The object at the head, 0 if the list is empty; the node is overwritten and freed.\<close>

definition cl_remove_head :: "cirlist \<Rightarrow> (nat \<times> cirlist) outcome" where
  "cl_remove_head cl =
     (if cl_count cl = 0 then if cl_head cl \<noteq> 0 then Fault else Ok (0, cl)
      else bind_outcome (cl_at cl (cl_head cl)) (\<lambda>h.
           bind_outcome (new_head cl h) (\<lambda>c1.
           bind_outcome (cl_at c1 (cl_head cl)) (\<lambda>old.
             Ok (cobj old, c1\<lparr>cl_nodes := (cl_nodes c1)(cl_head cl := None)\<rparr>)))))"

section \<open>Linked nodes\<close>

text \<open>The store links the nodes in this order, with \<open>p\<close> before the first and \<open>q\<close> after the last.\<close>

fun first_of :: "(nat \<times> nat) list \<Rightarrow> nat \<Rightarrow> nat" where
  "first_of [] q = q"
| "first_of ((a, x) # ps) q = a"

fun last_of :: "nat \<Rightarrow> (nat \<times> nat) list \<Rightarrow> nat" where
  "last_of p [] = p"
| "last_of p ((a, x) # ps) = last_of a ps"

fun seg :: "(nat \<rightharpoonup> cnode) \<Rightarrow> nat \<Rightarrow> (nat \<times> nat) list \<Rightarrow> nat \<Rightarrow> bool" where
  "seg h p [] q \<longleftrightarrow> True"
| "seg h p ((a, x) # ps) q \<longleftrightarrow>
     a \<noteq> 0 \<and> h a = Some \<lparr>cobj = x, cnext = first_of ps q, cprev = p\<rparr> \<and> seg h a ps q"

lemma first_of_append [simp]: "first_of (ps @ qs) q = first_of ps (first_of qs q)"
  by (cases ps rule: list.exhaust) auto

lemma last_of_append [simp]: "last_of p (ps @ qs) = last_of (last_of p ps) qs"
  by (induction p ps rule: last_of.induct) auto

lemma seg_append [simp]: "seg h p (ps @ qs) q \<longleftrightarrow> seg h p ps (first_of qs q) \<and> seg h (last_of p ps) qs q"
  by (induction h p ps q rule: seg.induct) auto

lemma seg_other [simp]: "a \<notin> fst ` set ps \<Longrightarrow> seg (h(a := v)) p ps q = seg h p ps q"
  by (induction h p ps q rule: seg.induct) auto

lemma last_of_in: "ps \<noteq> [] \<Longrightarrow> last_of p ps \<in> fst ` set ps"
  by (induction p ps rule: last_of.induct) force+

definition cl_rep :: "cirlist \<Rightarrow> (nat \<times> nat) list \<Rightarrow> bool" where
  "cl_rep cl ps \<longleftrightarrow> seg (cl_nodes cl) (last_of 0 ps) ps (first_of ps 0) \<and> distinct (map fst ps) \<and>
     dom (cl_nodes cl) = fst ` set ps \<and> cl_count cl = int (length ps) \<and> cl_head cl = first_of ps 0"

definition holds :: "cirlist \<Rightarrow> nat list \<Rightarrow> bool" where
  "holds cl xs \<longleftrightarrow> (\<exists>ps. cl_rep cl ps \<and> xs = map snd ps)"

lemma two_ends: "length ps \<ge> 2 \<Longrightarrow> \<exists>a x mid b y. ps = (a, x) # mid @ [(b, y)]"
  by (metis One_nat_def Suc_1 Suc_le_length_iff append_butlast_last_id list.size(3) not_less_eq_eq surj_pair zero_le)

lemma cl_insert_tail_rep:
  assumes "cl_rep cl ps" "new \<noteq> 0" "cl_nodes cl new = None"
  shows "\<exists>cl'. cl_insert_tail new x cl = Ok cl' \<and> cl_rep cl' (ps @ [(new, x)])"
proof -
  have R: "seg (cl_nodes cl) (last_of 0 ps) ps (first_of ps 0)" "distinct (map fst ps)" "dom (cl_nodes cl) = fst ` set ps"
    "cl_count cl = int (length ps)" "cl_head cl = first_of ps 0" using assms(1) by (auto simp: cl_rep_def)
  have n: "new \<notin> fst ` set ps" using assms(3) R(3) by (metis domIff)
  consider "ps = []" | a y where "ps = [(a, y)]" | a y mid b z where "ps = (a, y) # mid @ [(b, z)]"
    using two_ends [of ps] by (cases ps rule: remdups_adj.cases) auto
  then show ?thesis
  proof cases
    case 1
    with R assms(2) show ?thesis by (auto simp: cl_insert_tail_def cl_upd_def cl_rep_def Let_def)
  next
    case 2
    with R n assms(2) show ?thesis by (auto simp: cl_insert_tail_def cl_upd_def cl_at_def cl_rep_def Let_def)
  next
    case 3
    let ?m = "cl_nodes cl"
    have d: "a \<noteq> b" "new \<noteq> a" "new \<noteq> b" "a \<notin> fst ` set mid" "b \<notin> fst ` set mid" "new \<notin> fst ` set mid" using 3 R(2) n by auto
    have f: "first_of mid b \<noteq> a" using d by (cases mid) auto
    have h: "?m a = Some \<lparr>cobj = y, cnext = first_of mid b, cprev = b\<rparr>" "?m b = Some \<lparr>cobj = z, cnext = a, cprev = last_of a mid\<rparr>"
      "seg ?m a mid b" "a \<noteq> 0" "b \<noteq> 0" using R(1) 3 by auto
    have c: "cl_count cl \<noteq> 0" "cl_count cl \<noteq> 1" "cl_head cl = a" using R 3 by auto
    show ?thesis using 3 R d f h c assms(2)
      by (auto simp: cl_insert_tail_def cl_upd_def cl_at_def cl_rep_def Let_def fun_upd_twist)
  qed
qed

lemma cl_remove_head_rep:
  assumes "cl_rep cl ((a, x) # ps)"
  shows "\<exists>cl'. cl_remove_head cl = Ok (x, cl') \<and> cl_rep cl' ps \<and> cl_nodes cl' a = None"
proof -
  let ?m = "cl_nodes cl"
  have R: "seg ?m (last_of a ps) ((a, x) # ps) a" "distinct (a # map fst ps)" "dom ?m = insert a (fst ` set ps)"
    "cl_count cl = 1 + int (length ps)" "cl_head cl = a" using assms by (auto simp: cl_rep_def)
  consider "ps = []" | b y where "ps = [(b, y)]" | b y mid c z where "ps = (b, y) # mid @ [(c, z)]"
    using two_ends [of ps] by (cases ps rule: remdups_adj.cases) auto
  then show ?thesis
  proof cases
    case 1
    with R show ?thesis by (auto simp: cl_remove_head_def new_head_def cl_upd_def cl_at_def cl_rep_def simp del: dom_eq_empty_conv)
  next
    case 2
    with R show ?thesis by (auto simp: cl_remove_head_def new_head_def cl_upd_def cl_at_def cl_rep_def)
  next
    case 3
    have d: "b \<noteq> c" "a \<noteq> b" "a \<noteq> c" "a \<notin> fst ` set mid" "b \<notin> fst ` set mid" "c \<notin> fst ` set mid" using 3 R(2) by auto
    have h: "?m a = Some \<lparr>cobj = x, cnext = b, cprev = c\<rparr>" "?m b = Some \<lparr>cobj = y, cnext = first_of mid c, cprev = a\<rparr>"
      "?m c = Some \<lparr>cobj = z, cnext = a, cprev = last_of b mid\<rparr>" "seg ?m b mid c" "a \<noteq> 0" "b \<noteq> 0" "c \<noteq> 0" using R(1) 3 by auto
    have cc: "cl_count cl = 3 + int (length mid)" using R(4) 3 by simp
    show ?thesis using 3 R(3,5) R(2) d h cc
      by (auto simp: cl_remove_head_def new_head_def cl_upd_def cl_at_def cl_rep_def intro: rev_image_eqI)
  qed
qed

section \<open>Queues\<close>

primrec put_all :: "(nat \<Rightarrow> nat \<Rightarrow> 's \<Rightarrow> 's outcome) \<Rightarrow> (nat \<times> nat) list \<Rightarrow> 's \<Rightarrow> 's outcome" where
  "put_all put [] s = Ok s"
| "put_all put (px # ps) s = bind_outcome (put (fst px) (snd px) s) (put_all put ps)"

primrec get_all :: "('s \<Rightarrow> (nat \<times> 's) outcome) \<Rightarrow> nat \<Rightarrow> 's \<Rightarrow> (nat list \<times> 's) outcome" where
  "get_all get 0 s = Ok ([], s)"
| "get_all get (Suc n) s =
     bind_outcome (get s) (\<lambda>r. bind_outcome (get_all get n (snd r)) (\<lambda>q. Ok (fst r # fst q, snd q)))"

locale fifo =
  fixes has :: "'s \<Rightarrow> nat list \<Rightarrow> bool"
    and used :: "'s \<Rightarrow> nat set"
    and put :: "nat \<Rightarrow> nat \<Rightarrow> 's \<Rightarrow> 's outcome"
    and get :: "'s \<Rightarrow> (nat \<times> 's) outcome"
  assumes put_law: "has s xs \<Longrightarrow> p \<noteq> 0 \<Longrightarrow> p \<notin> used s \<Longrightarrow>
      \<exists>s'. put p x s = Ok s' \<and> has s' (xs @ [x]) \<and> used s' = insert p (used s)"
    and get_law: "has s (x # xs) \<Longrightarrow> \<exists>s'. get s = Ok (x, s') \<and> has s' xs \<and> used s' \<subseteq> used s"
begin

lemma get_all_has: "has s (xs @ ys) \<Longrightarrow> \<exists>s'. get_all get (length xs) s = Ok (xs, s') \<and> has s' ys"
proof (induction xs arbitrary: s)
  case (Cons x xs)
  then obtain s1 where s1: "get s = Ok (x, s1)" "has s1 (xs @ ys)" using get_law [of s x "xs @ ys"] by auto
  then obtain s2 where "get_all get (length xs) s1 = Ok (xs, s2)" "has s2 ys" using Cons.IH by blast
  with s1(1) show ?case by (simp del: bind_outcome_Ok_conv)
qed simp

lemma put_all_has:
  "has s xs \<Longrightarrow> distinct (map fst ps) \<Longrightarrow> 0 \<notin> fst ` set ps \<Longrightarrow> fst ` set ps \<inter> used s = {} \<Longrightarrow>
    \<exists>s'. put_all put ps s = Ok s' \<and> has s' (xs @ map snd ps)"
proof (induction ps arbitrary: s xs)
  case (Cons px ps)
  then obtain s1 where s1: "put (fst px) (snd px) s = Ok s1" "has s1 (xs @ [snd px])" "used s1 = insert (fst px) (used s)"
    using put_law [of s xs "fst px" "snd px"] by auto
  have "fst ` set ps \<inter> used s1 = {}" using Cons.prems s1(3) by auto
  with Cons.IH [OF s1(2)] Cons.prems s1(1) show ?case by (auto simp del: bind_outcome_Ok_conv)
qed simp

text \<open>What is put in comes out in the same order, after what was there.\<close>

lemma in_order:
  assumes "has s xs" "distinct (map fst ps)" "0 \<notin> fst ` set ps" "fst ` set ps \<inter> used s = {}"
  shows "\<exists>s' s''. put_all put ps s = Ok s' \<and> get_all get (length xs + length ps) s' = Ok (xs @ map snd ps, s'') \<and> has s'' []"
proof -
  obtain s' where s': "put_all put ps s = Ok s'" "has s' ((xs @ map snd ps) @ [])" using put_all_has [OF assms] by auto
  with get_all_has [OF s'(2)] show ?thesis by auto
qed

end

interpretation cq: fifo holds "\<lambda>cl. dom (cl_nodes cl)" cl_insert_tail cl_remove_head
proof
  fix s xs p x
  assume a: "holds s xs" "p \<noteq> 0" "p \<notin> dom (cl_nodes s)"
  then obtain ps where ps: "cl_rep s ps" "xs = map snd ps" by (auto simp: holds_def)
  obtain s' where s': "cl_insert_tail p x s = Ok s'" "cl_rep s' (ps @ [(p, x)])"
    using cl_insert_tail_rep [OF ps(1) a(2)] a(3) by (metis domIff)
  moreover have "holds s' (xs @ [x])" unfolding holds_def using s'(2) ps(2) by (intro exI [of _ "ps @ [(p, x)]"]) simp
  moreover have "dom (cl_nodes s') = insert p (dom (cl_nodes s))" using s'(2) ps(1) by (simp add: cl_rep_def)
  ultimately show "\<exists>s'. cl_insert_tail p x s = Ok s' \<and> holds s' (xs @ [x]) \<and> dom (cl_nodes s') = insert p (dom (cl_nodes s))"
    by blast
next
  fix s x xs
  assume "holds s (x # xs)"
  then obtain a ps where ps: "cl_rep s ((a, x) # ps)" "xs = map snd ps" by (auto simp: holds_def)
  from cl_remove_head_rep [OF ps(1)] ps show "\<exists>s'. cl_remove_head s = Ok (x, s') \<and> holds s' xs \<and> dom (cl_nodes s') \<subseteq> dom (cl_nodes s)"
    by (auto simp: holds_def cl_rep_def)
qed

lemma holds_empty [simp]: "holds cl xs \<Longrightarrow> cl_empty cl \<longleftrightarrow> xs = []"
  by (auto simp: holds_def cl_rep_def cl_empty_def)

lemma holds_count: "holds cl xs \<Longrightarrow> cl_count cl = int (length xs)"
  by (auto simp: holds_def cl_rep_def)

lemma holds_init: "cl_nodes cl = Map.empty \<Longrightarrow> holds (init_cirlist cl) []"
  by (simp add: holds_def cl_rep_def init_cirlist_def)

section \<open>Properties\<close>

text \<open>
  C25: The circular list is a queue: objects inserted at the tail of any list, in nodes that are new, come out at
  the head in the same order after those that were in it, and then the list is empty. No
  \<^verbatim>\<open>assert\<close> fails and no freed node is used.
\<close>

theorem cirlist_in_order:
  assumes "holds cl xs" "distinct (map fst ps)" "0 \<notin> fst ` set ps" "fst ` set ps \<inter> dom (cl_nodes cl) = {}"
  shows "\<exists>cl1 cl2. put_all cl_insert_tail ps cl = Ok cl1 \<and>
    get_all cl_remove_head (length xs + length ps) cl1 = Ok (xs @ map snd ps, cl2) \<and> holds cl2 []"
  by (rule cq.in_order [OF assms])

theorem cirlist_in_order_witness:
  "\<exists>cl1 cl2. put_all cl_insert_tail [(5, 50), (6, 60), (7, 70)] (init_cirlist \<lparr>cl_count = 9, cl_head = 9, cl_nodes = Map.empty\<rparr>) = Ok cl1 \<and>
    get_all cl_remove_head 3 cl1 = Ok ([50, 60, 70], cl2) \<and> holds cl2 []"
  using cirlist_in_order [OF holds_init, of "\<lparr>cl_count = 9, cl_head = 9, cl_nodes = Map.empty\<rparr>" "[(5, 50), (6, 60), (7, 70)]"]
  by (simp add: init_cirlist_def numeral_3_eq_3 del: bind_outcome_Ok_conv put_all.simps get_all.simps)

end
