(* ===== verification/Ffsb_Rwlock.thy ===== *)
theory Ffsb_Rwlock
  imports LTP_Prelude
begin

text \<open>
  The readers-writer lock of the benchmark ffsb, \<^verbatim>\<open>utils/ffsb-6.0-rc2/rwlock.c\<close>, with any number of
  threads, interleaved at every call of the thread library. \<^verbatim>\<open>n_readers\<close> is the number of readers, or
  negative with a writer; \<^verbatim>\<open>plock\<close> is the thread that has the mutex; each thread is at a point of the
  function that it runs. A wait gives the mutex up and sleeps; a sleeping thread may also wake on its
  own. The reading and the writing functions differ in their test and in what they do to the count.
\<close>

section \<open>The lock\<close>

datatype kind = Rd | Wr

datatype pc =
    Out
  | Enter kind | Testing kind | Asleep kind | Woken kind
  | Got kind | Holding kind
  | Leaving kind | Dropping kind | Notify kind
  | Asking kind | Trying kind
  | Quit | Refused

record rwlock =
  n_readers :: int
  plock :: "nat option"
  pcs :: "nat \<Rightarrow> pc"

definition init_rwlock :: rwlock where
  "init_rwlock = \<lparr>n_readers = 0, plock = None, pcs = (\<lambda>t. Out)\<rparr>"

text \<open>When the loop of a locking function ends, and what it and the unlocking function do to the count.\<close>

fun may_take :: "kind \<Rightarrow> int \<Rightarrow> bool" where
  "may_take Rd n \<longleftrightarrow> n \<ge> 0"
| "may_take Wr n \<longleftrightarrow> n = 0"

fun take_it :: "kind \<Rightarrow> int \<Rightarrow> int" where
  "take_it Rd n = n + 1"
| "take_it Wr n = - 1"

fun give_it :: "kind \<Rightarrow> int \<Rightarrow> int" where
  "give_it Rd n = n - 1"
| "give_it Wr n = 0"

definition go :: "nat \<Rightarrow> pc \<Rightarrow> rwlock \<Rightarrow> rwlock" where
  "go t p s = s\<lparr>pcs := (pcs s)(t := p)\<rparr>"

fun wake :: "pc \<Rightarrow> pc" where
  "wake (Asleep k) = Woken k"
| "wake p = p"

inductive rw_lock :: "kind \<Rightarrow> nat \<Rightarrow> rwlock \<Rightarrow> rwlock \<Rightarrow> bool" for k t s where
  mutex: "pcs s t = Enter k \<Longrightarrow> plock s = None \<Longrightarrow> rw_lock k t s (go t (Testing k) s\<lparr>plock := Some t\<rparr>)"
| wait: "pcs s t = Testing k \<Longrightarrow> \<not> may_take k (n_readers s) \<Longrightarrow> rw_lock k t s (go t (Asleep k) s\<lparr>plock := None\<rparr>)"
| again: "pcs s t = Woken k \<Longrightarrow> plock s = None \<Longrightarrow> rw_lock k t s (go t (Testing k) s\<lparr>plock := Some t\<rparr>)"
| take: "pcs s t = Testing k \<Longrightarrow> may_take k (n_readers s) \<Longrightarrow>
    rw_lock k t s (go t (Got k) s\<lparr>n_readers := take_it k (n_readers s)\<rparr>)"
| return: "pcs s t = Got k \<Longrightarrow> rw_lock k t s (go t (Holding k) s\<lparr>plock := None\<rparr>)"

text \<open>A reader that leaves wakes one sleeping thread, a writer wakes all.\<close>

inductive rw_unlock :: "kind \<Rightarrow> nat \<Rightarrow> rwlock \<Rightarrow> rwlock \<Rightarrow> bool" for k t s where
  mutex: "pcs s t = Leaving k \<Longrightarrow> plock s = None \<Longrightarrow> rw_unlock k t s (go t (Dropping k) s\<lparr>plock := Some t\<rparr>)"
| drop: "pcs s t = Dropping k \<Longrightarrow> rw_unlock k t s (go t (Notify k) s\<lparr>n_readers := give_it k (n_readers s)\<rparr>)"
| signal: "pcs s t = Notify k \<Longrightarrow> k = Rd \<Longrightarrow> pcs s u = Asleep k' \<Longrightarrow> rw_unlock k t s (go t Quit (go u (Woken k') s))"
| nobody: "pcs s t = Notify k \<Longrightarrow> k = Rd \<Longrightarrow> \<forall>u k'. pcs s u \<noteq> Asleep k' \<Longrightarrow> rw_unlock k t s (go t Quit s)"
| broadcast: "pcs s t = Notify k \<Longrightarrow> k = Wr \<Longrightarrow> rw_unlock k t s (go t Quit (s\<lparr>pcs := wake \<circ> pcs s\<rparr>))"
| return: "pcs s t = Quit \<Longrightarrow> rw_unlock k t s (go t Out s\<lparr>plock := None\<rparr>)"

inductive rw_trylock :: "kind \<Rightarrow> nat \<Rightarrow> rwlock \<Rightarrow> rwlock \<Rightarrow> bool" for k t s where
  mutex: "pcs s t = Asking k \<Longrightarrow> plock s = None \<Longrightarrow> rw_trylock k t s (go t (Trying k) s\<lparr>plock := Some t\<rparr>)"
| take: "pcs s t = Trying k \<Longrightarrow> may_take k (n_readers s) \<Longrightarrow>
    rw_trylock k t s (go t (Got k) s\<lparr>n_readers := take_it k (n_readers s)\<rparr>)"
| refuse: "pcs s t = Trying k \<Longrightarrow> \<not> may_take k (n_readers s) \<Longrightarrow> rw_trylock k t s (go t Refused s)"
| return: "pcs s t = Got k \<Longrightarrow> rw_trylock k t s (go t (Holding k) s\<lparr>plock := None\<rparr>)"
| failed: "pcs s t = Refused \<Longrightarrow> rw_trylock k t s (go t Out s\<lparr>plock := None\<rparr>)"

text \<open>The steps inside the functions, and the calls of the threads with the wakings on their own.\<close>

definition rw_inner :: "rwlock \<Rightarrow> rwlock \<Rightarrow> bool" where
  "rw_inner s s' \<longleftrightarrow> (\<exists>k t. rw_lock k t s s' \<or> rw_unlock k t s s' \<or> rw_trylock k t s s')"

inductive rw_outer :: "rwlock \<Rightarrow> rwlock \<Rightarrow> bool" for s where
  lock: "pcs s t = Out \<Longrightarrow> rw_outer s (go t (Enter k) s)"
| trylock: "pcs s t = Out \<Longrightarrow> rw_outer s (go t (Asking k) s)"
| unlock: "pcs s t = Holding k \<Longrightarrow> rw_outer s (go t (Leaving k) s)"
| spurious: "pcs s t = Asleep k \<Longrightarrow> rw_outer s (go t (Woken k) s)"

inductive rw_reachable :: "rwlock \<Rightarrow> bool" where
  start: "rw_reachable init_rwlock"
| inner: "rw_reachable s \<Longrightarrow> rw_inner s s' \<Longrightarrow> rw_reachable s'"
| outer: "rw_reachable s \<Longrightarrow> rw_outer s s' \<Longrightarrow> rw_reachable s'"

lemma rw_innerI: "rw_lock k t s s' \<Longrightarrow> rw_inner s s'" "rw_unlock k t s s' \<Longrightarrow> rw_inner s s'" "rw_trylock k t s s' \<Longrightarrow> rw_inner s s'"
  unfolding rw_inner_def by blast+

section \<open>The invariant\<close>

fun has_lock :: "pc \<Rightarrow> kind option" where
  "has_lock (Got k) = Some k"
| "has_lock (Holding k) = Some k"
| "has_lock (Leaving k) = Some k"
| "has_lock (Dropping k) = Some k"
| "has_lock p = None"

fun has_mutex :: "pc \<Rightarrow> bool" where
  "has_mutex (Testing k) = True"
| "has_mutex (Got k) = True"
| "has_mutex (Dropping k) = True"
| "has_mutex (Notify k) = True"
| "has_mutex (Trying k) = True"
| "has_mutex Quit = True"
| "has_mutex Refused = True"
| "has_mutex p = False"

fun active :: "pc \<Rightarrow> bool" where
  "active (Testing k) = True"
| "active (Woken k) = True"
| "active (Notify k) = True"
| "active p = False"

definition held :: "kind \<Rightarrow> rwlock \<Rightarrow> nat set" where
  "held k s = {t. has_lock (pcs s t) = Some k}"

definition count_ok :: "rwlock \<Rightarrow> bool" where
  "count_ok s \<longleftrightarrow> finite (held Rd s) \<and>
     (if held Wr s = {} then n_readers s = int (card (held Rd s))
      else n_readers s = - 1 \<and> held Rd s = {} \<and> (\<exists>t. held Wr s = {t}))"

definition mutex_ok :: "rwlock \<Rightarrow> bool" where
  "mutex_ok s \<longleftrightarrow> (\<forall>t. has_mutex (pcs s t) \<longleftrightarrow> plock s = Some t)"

definition sleep_ok :: "rwlock \<Rightarrow> bool" where
  "sleep_ok s \<longleftrightarrow> ((\<exists>t k. pcs s t = Asleep k) \<longrightarrow> n_readers s \<noteq> 0 \<or> (\<exists>u. active (pcs s u)))"

lemma go_simps [simp]:
  "n_readers (go t p s) = n_readers s" "plock (go t p s) = plock s" "pcs (go t p s) = (pcs s)(t := p)"
  by (simp_all add: go_def)

lemma held_go [simp]: "held k (go t p s) = (if has_lock p = Some k then insert t (held k s) else held k s - {t})"
  by (auto simp: held_def)

lemma wake_simps [simp]: "has_lock (wake p) = has_lock p" "has_mutex (wake p) = has_mutex p"
  by (cases p; simp)+

lemma held_upd [simp]: "held k (s\<lparr>plock := x\<rparr>) = held k s" "held k (s\<lparr>n_readers := n\<rparr>) = held k s"
  "held k (s\<lparr>pcs := wake \<circ> pcs s\<rparr>) = held k s"
  by (auto simp: held_def)

lemma count_ok_upd [simp]: "count_ok (s\<lparr>plock := x\<rparr>) = count_ok s" "count_ok (s\<lparr>pcs := wake \<circ> pcs s\<rparr>) = count_ok s"
  by (simp_all add: count_ok_def)

lemma count_ok_go:
  assumes "count_ok s" "has_lock p = has_lock (pcs s t)"
  shows "count_ok (go t p s)"
proof -
  have "held k (go t p s) = held k s" for k using assms(2) by (auto simp: held_def)
  then show ?thesis using assms(1) by (simp add: count_ok_def del: held_go)
qed

lemma count_ok_take:
  assumes "count_ok s" "may_take k (n_readers s)" "has_lock (pcs s t) = None"
  shows "count_ok (go t (Got k) s\<lparr>n_readers := take_it k (n_readers s)\<rparr>)"
proof -
  have t: "t \<notin> held k' s" for k' using assms(3) by (simp add: held_def)
  have w: "held Wr s = {}" using assms(1,2) by (cases k) (auto simp: count_ok_def split: if_split_asm)
  show ?thesis
  proof (cases k)
    case Rd
    with assms(1) w t show ?thesis by (auto simp: count_ok_def)
  next
    case Wr
    with assms(1,2) w have "held Rd s = {}" by (auto simp: count_ok_def)
    with Wr w show ?thesis by (simp add: count_ok_def)
  qed
qed

lemma count_ok_give:
  assumes "count_ok s" "pcs s t = Dropping k"
  shows "count_ok (go t (Notify k) s\<lparr>n_readers := give_it k (n_readers s)\<rparr>)"
proof -
  have t: "t \<in> held k s" using assms(2) by (simp add: held_def)
  show ?thesis
  proof (cases k)
    case Rd
    then have "held Wr s = {}" using assms(1) t by (auto simp: count_ok_def split: if_split_asm)
    moreover from this have "card (held Rd s) \<noteq> 0" using assms(1) Rd t by (auto simp: count_ok_def)
    ultimately show ?thesis using assms(1) Rd t by (simp add: count_ok_def of_nat_diff)
  next
    case Wr
    then show ?thesis using assms(1) t by (auto simp: count_ok_def split: if_split_asm)
  qed
qed

lemma count_ok_inner: "rw_inner s s' \<Longrightarrow> count_ok s \<Longrightarrow> count_ok s'"
  unfolding rw_inner_def
  by (elim exE disjE; elim rw_lock.cases rw_unlock.cases rw_trylock.cases)
    (auto intro!: count_ok_go count_ok_take count_ok_give)

lemma count_ok_outer: "rw_outer s s' \<Longrightarrow> count_ok s \<Longrightarrow> count_ok s'"
  by (erule rw_outer.cases) (auto intro!: count_ok_go)

lemma mutex_ok_upd [simp]: "mutex_ok (s\<lparr>n_readers := n\<rparr>) = mutex_ok s" "mutex_ok (s\<lparr>pcs := wake \<circ> pcs s\<rparr>) = mutex_ok s"
  by (simp_all add: mutex_ok_def)

lemma mutex_ok_go:
  "mutex_ok s \<Longrightarrow> has_mutex p = has_mutex (pcs s t) \<Longrightarrow> mutex_ok (go t p s)"
  "mutex_ok s \<Longrightarrow> plock s = None \<Longrightarrow> has_mutex p \<Longrightarrow> mutex_ok (go t p s\<lparr>plock := Some t\<rparr>)"
  "mutex_ok s \<Longrightarrow> has_mutex (pcs s t) \<Longrightarrow> \<not> has_mutex p \<Longrightarrow> mutex_ok (go t p s\<lparr>plock := None\<rparr>)"
  by (auto simp: mutex_ok_def)

lemma mutex_ok_inner: "rw_inner s s' \<Longrightarrow> mutex_ok s \<Longrightarrow> mutex_ok s'"
  unfolding rw_inner_def
  by (elim exE disjE; elim rw_lock.cases rw_unlock.cases rw_trylock.cases) (auto intro!: mutex_ok_go)

lemma mutex_ok_outer: "rw_outer s s' \<Longrightarrow> mutex_ok s \<Longrightarrow> mutex_ok s'"
  by (erule rw_outer.cases) (auto intro!: mutex_ok_go)

lemma sleep_ok_upd [simp]: "sleep_ok (s\<lparr>plock := x\<rparr>) = sleep_ok s"
  by (simp add: sleep_ok_def)

lemma sleep_ok_go: "sleep_ok s \<Longrightarrow> active (pcs s t) \<longrightarrow> active p \<Longrightarrow> \<forall>k. p \<noteq> Asleep k \<Longrightarrow> sleep_ok (go t p s)"
  unfolding sleep_ok_def by simp metis

lemma sleep_ok_busy: "n_readers s \<noteq> 0 \<or> active (pcs s t) \<Longrightarrow> sleep_ok s"
  by (auto simp: sleep_ok_def)

lemma sleep_ok_none: "\<forall>t k. pcs s t \<noteq> Asleep k \<Longrightarrow> sleep_ok s"
  by (simp add: sleep_ok_def)

lemma may_take_0: "\<not> may_take k n \<Longrightarrow> n \<noteq> 0" "may_take k n \<Longrightarrow> take_it k n \<noteq> 0"
  by (cases k; auto)+

lemma wake_Asleep [simp]: "wake p \<noteq> Asleep k"
  by (cases p) simp_all

lemma sleep_ok_inner:
  assumes "rw_inner s s'" "sleep_ok s"
  shows "sleep_ok s'"
proof -
  from assms(1) obtain k t where "rw_lock k t s s' \<or> rw_unlock k t s s' \<or> rw_trylock k t s s'" by (auto simp: rw_inner_def)
  then show ?thesis
  proof (elim disjE)
    assume "rw_lock k t s s'"
    then show ?thesis using assms(2)
      by cases (auto intro!: sleep_ok_go simp: sleep_ok_busy may_take_0)
  next
    assume "rw_unlock k t s s'"
    then show ?thesis
    proof cases
      case drop
      then show ?thesis by (intro sleep_ok_busy [of _ t]) simp
    next
      case (signal u k')
      then show ?thesis by (intro sleep_ok_busy [of _ u]) auto
    next
      case nobody
      then show ?thesis by (intro sleep_ok_none) simp
    next
      case broadcast
      then show ?thesis by (intro sleep_ok_none) simp
    qed (use assms(2) in \<open>auto intro!: sleep_ok_go\<close>)
  next
    assume "rw_trylock k t s s'"
    then show ?thesis using assms(2)
      by cases (auto intro!: sleep_ok_go simp: sleep_ok_busy may_take_0)
  qed
qed

lemma sleep_ok_outer: "rw_outer s s' \<Longrightarrow> sleep_ok s \<Longrightarrow> sleep_ok s'"
  by (erule rw_outer.cases) (auto intro!: sleep_ok_go)

lemma rw_invariant: "rw_reachable s \<Longrightarrow> count_ok s \<and> mutex_ok s \<and> sleep_ok s"
proof (induction rule: rw_reachable.induct)
  case start
  show ?case by (simp add: init_rwlock_def count_ok_def mutex_ok_def sleep_ok_def held_def)
qed (use count_ok_inner mutex_ok_inner sleep_ok_inner count_ok_outer mutex_ok_outer sleep_ok_outer in blast)+

section \<open>Progress\<close>

lemma mutex_owner_moves:
  assumes "has_mutex (pcs s t)"
  shows "\<exists>s'. rw_inner s s'"
proof (cases "pcs s t")
  case (Testing k)
  then show ?thesis unfolding rw_inner_def by (metis rw_lock.wait rw_lock.take)
next
  case (Got k)
  then show ?thesis unfolding rw_inner_def by (metis rw_lock.return)
next
  case (Dropping k)
  then show ?thesis unfolding rw_inner_def by (metis rw_unlock.drop)
next
  case (Notify k)
  then show ?thesis unfolding rw_inner_def by (cases k) (metis rw_unlock.signal rw_unlock.nobody, metis rw_unlock.broadcast)
next
  case (Trying k)
  then show ?thesis unfolding rw_inner_def by (metis rw_trylock.take rw_trylock.refuse)
next
  case Quit
  then show ?thesis unfolding rw_inner_def by (metis rw_unlock.return)
next
  case Refused
  then show ?thesis unfolding rw_inner_def by (metis rw_trylock.failed)
qed (use assms in simp_all)

lemma contender_moves:
  assumes "plock s = None" "pcs s t \<in> {Enter k, Woken k, Leaving k, Asking k}"
  shows "\<exists>s'. rw_inner s s'"
  using assms unfolding rw_inner_def
  by (metis (no_types, lifting) insertE singletonD rw_lock.mutex rw_lock.again rw_unlock.mutex rw_trylock.mutex)

section \<open>Properties\<close>

text \<open>
  C9: In every state that any number of threads can reach, in any interleaving, a thread that holds the lock for
  writing is the only one that holds it, the count is then -1, and otherwise it is the number of readers.
\<close>

theorem rwlock_excludes:
  assumes "rw_reachable s"
  shows "(\<forall>t u k. pcs s t = Holding Wr \<and> pcs s u = Holding k \<longrightarrow> u = t \<and> n_readers s = - 1) \<and>
    ((\<forall>t. has_lock (pcs s t) \<noteq> Some Wr) \<longrightarrow> n_readers s = int (card {t. has_lock (pcs s t) = Some Rd}))"
proof -
  have c: "count_ok s" using rw_invariant [OF assms] by blast
  have h: "t \<in> held k s" if "pcs s t = Holding k" for t k using that by (simp add: held_def)
  have "u = t \<and> n_readers s = - 1" if "pcs s t = Holding Wr" "pcs s u = Holding k" for t u k
    using c h [OF that(1)] h [OF that(2)] by (cases k) (auto simp: count_ok_def split: if_split_asm)
  moreover have "n_readers s = int (card (held Rd s))" if "\<forall>t. has_lock (pcs s t) \<noteq> Some Wr"
    using c that by (simp add: count_ok_def held_def)
  ultimately show ?thesis by (auto simp: held_def)
qed

definition demo_writer :: rwlock where
  "demo_writer = \<lparr>n_readers = - 1, plock = None, pcs = (\<lambda>t. Out)(7 := Holding Wr)\<rparr>"

lemma demo_writer_reachable: "rw_reachable demo_writer"
proof -
  have "rw_reachable (go 7 (Enter Wr) init_rwlock)"
    by (rule rw_reachable.outer [OF rw_reachable.start rw_outer.lock]) (simp add: init_rwlock_def)
  then have "rw_reachable (go 7 (Testing Wr) (go 7 (Enter Wr) init_rwlock)\<lparr>plock := Some 7\<rparr>)" (is "rw_reachable ?s2")
    by (rule rw_reachable.inner [OF _ rw_innerI(1) [OF rw_lock.mutex]]) (simp_all add: init_rwlock_def)
  then have "rw_reachable (go 7 (Got Wr) ?s2\<lparr>n_readers := take_it Wr (n_readers ?s2)\<rparr>)" (is "rw_reachable ?s3")
    by (rule rw_reachable.inner [OF _ rw_innerI(1) [OF rw_lock.take]]) (simp_all add: init_rwlock_def)
  then have "rw_reachable (go 7 (Holding Wr) ?s3\<lparr>plock := None\<rparr>)"
    by (rule rw_reachable.inner [OF _ rw_innerI(1) [OF rw_lock.return]]) simp
  moreover have "go 7 (Holding Wr) ?s3\<lparr>plock := None\<rparr> = demo_writer" by (simp add: go_def init_rwlock_def demo_writer_def)
  ultimately show ?thesis by simp
qed

theorem rwlock_excludes_witness:
  "pcs demo_writer 7 = Holding Wr \<and> n_readers demo_writer = - 1 \<and> {u. \<exists>k. pcs demo_writer u = Holding k} = {7}"
proof -
  have "pcs demo_writer 7 = Holding Wr" by (simp add: demo_writer_def)
  with rwlock_excludes [OF demo_writer_reachable] show ?thesis by blast
qed

text \<open>
  C17: No wake-up is lost: in a reachable state where some thread is inside a function of the lock and no thread holds it,
  some thread can go on inside, without a new call and without a wake-up by chance. In particular the
  threads are never all asleep.
\<close>

theorem rwlock_progress:
  assumes "rw_reachable s" "pcs s t \<noteq> Out" "\<forall>u k. pcs s u \<noteq> Holding k"
  shows "\<exists>s'. rw_inner s s'"
proof (rule ccontr)
  assume no: "\<nexists>s'. rw_inner s s'"
  have I: "count_ok s" "mutex_ok s" "sleep_ok s" using rw_invariant [OF assms(1)] by blast+
  have m: "\<not> has_mutex (pcs s u)" for u using mutex_owner_moves no by blast
  then have "plock s = None" using I(2) by (metis mutex_ok_def not_None_eq)
  then have c: "pcs s u \<notin> {Enter k, Woken k, Leaving k, Asking k}" for u k using contender_moves no by blast
  have o: "pcs s u = Out \<or> (\<exists>k. pcs s u = Asleep k)" for u using m [of u] c [of u] assms(3) by (cases "pcs s u") auto
  have "held k s = {}" for k unfolding held_def using o by (metis (mono_tags, lifting) Collect_empty_eq has_lock.simps(5,8) option.distinct(1))
  then have "n_readers s = 0" using I(1) by (simp add: count_ok_def)
  moreover have "\<not> active (pcs s u)" for u using o [of u] by auto
  moreover have "\<exists>k. pcs s t = Asleep k" using o [of t] assms(2) by blast
  ultimately show False using I(3) unfolding sleep_ok_def by blast
qed

theorem rwlock_progress_witness: "\<exists>s'. rw_inner (go 7 (Leaving Wr) demo_writer) s'"
proof -
  have "rw_reachable (go 7 (Leaving Wr) demo_writer)"
    by (rule rw_reachable.outer [OF demo_writer_reachable rw_outer.unlock [of _ _ Wr]]) (simp add: demo_writer_def)
  from rwlock_progress [OF this, of 7] show ?thesis by (simp add: demo_writer_def)
qed

end
