(* ===== verification/Ffsb_Rand.thy ===== *)
theory Ffsb_Rand
  imports LTP_Prelude
begin

text \<open>
  The random numbers of the benchmark ffsb, \<^verbatim>\<open>utils/ffsb-6.0-rc2/rand.c\<close>: a buffer of random bytes that
  is filled once and then read round and round. What \<^verbatim>\<open>read\<close> gives and the numbers of the fall-back
  generator are arguments; an index outside the buffer is a fault. The host is little-endian and
  \<^verbatim>\<open>unsigned long\<close> has 64 bits.
\<close>

unbundle bit_operations_syntax

section \<open>The buffer\<close>

record randdata =
  rd_size :: int
  mt :: "8 word list"
  mti :: int

definition mt_set :: "8 word list \<Rightarrow> int \<Rightarrow> int \<Rightarrow> 8 word list outcome" where
  "mt_set b i v = (if 0 \<le> i \<and> nat i < length b then Ok (b[nat i := word_of_int (v AND 511)]) else Fault)"

text \<open>The loop of the fall-back generator, four bytes from each of its numbers.\<close>

function fallback :: "int \<Rightarrow> (nat \<Rightarrow> int) \<Rightarrow> int \<Rightarrow> 8 word list \<Rightarrow> 8 word list outcome" where
  "fallback sz rs i b =
     (if i < sz then
        let r = rs 0
        in if r = 0 then Fault
           else bind_outcome (mt_set b i (drop_bit 24 r)) (\<lambda>b1.
                bind_outcome (mt_set b1 (i + 1) (drop_bit 16 r)) (\<lambda>b2.
                bind_outcome (mt_set b2 (i + 2) (drop_bit 8 r)) (\<lambda>b3.
                bind_outcome (mt_set b3 (i + 3) r) (\<lambda>b4. fallback sz (\<lambda>k. rs (Suc k)) (i + 4) b4))))
      else Ok b)"
  by pat_completeness auto
termination by (relation "measure (\<lambda>(sz, rs, i, b). nat (sz - i))") auto

declare fallback.simps [simp del]

text \<open>\<open>got\<close> and \<open>bs\<close> are what \<^verbatim>\<open>read\<close> returns and the bytes it puts in the buffer.\<close>

definition sgenrand :: "int \<Rightarrow> 8 word list \<Rightarrow> (nat \<Rightarrow> int) \<Rightarrow> randdata \<Rightarrow> randdata outcome" where
  "sgenrand got bs rs s =
     (let b = take (length (mt s)) bs @ drop (length bs) (mt s)
      in bind_outcome (if got \<noteq> rd_size s then fallback (rd_size s) rs got b else Ok b) (\<lambda>b1.
           Ok (s\<lparr>mt := b1, mti := 0\<rparr>)))"

definition AVG_ITR_RNDBTS :: int where "AVG_ITR_RNDBTS = 2"
definition MAX_RANDBUF_SIZE :: int where "MAX_RANDBUF_SIZE = 10 * 1024"
definition MIN_RANDBUF_SIZE :: int where "MIN_RANDBUF_SIZE = 1024"

definition buf_size :: "32 word \<Rightarrow> int" where
  "buf_size iter =
     (if iter = 0 then MIN_RANDBUF_SIZE * AVG_ITR_RNDBTS
      else if uint iter > MAX_RANDBUF_SIZE then MAX_RANDBUF_SIZE * AVG_ITR_RNDBTS
      else uint iter * AVG_ITR_RNDBTS)"

text \<open>The descriptor of the random device, \<open>randfd\<close>, and what \<^verbatim>\<open>open\<close> returns, \<open>fd\<close>.\<close>

definition init_random :: "int \<Rightarrow> int \<Rightarrow> int \<Rightarrow> 8 word list \<Rightarrow> (nat \<Rightarrow> int) \<Rightarrow> 32 word \<Rightarrow> (int \<times> randdata) outcome" where
  "init_random randfd fd got bs rs iter =
     (let s = \<lparr>rd_size = buf_size iter, mt = replicate (nat (buf_size iter)) 0, mti = 0\<rparr>;
          randfd' = (if randfd < 0 then fd else randfd)
      in if randfd' < 0 then Exit 1
         else bind_outcome (sgenrand got bs rs s) (\<lambda>s1. Ok (randfd', s1)))"

section \<open>Numbers\<close>

definition genrand8 :: "randdata \<Rightarrow> (8 word \<times> randdata) outcome" where
  "genrand8 s =
     (let i = (if mti s \<ge> rd_size s then 0 else mti s)
      in if 0 \<le> i \<and> nat i < length (mt s) then Ok (mt s ! nat i, s\<lparr>mti := i + 1\<rparr>) else Fault)"

primrec genbytes :: "nat \<Rightarrow> randdata \<Rightarrow> (8 word list \<times> randdata) outcome" where
  "genbytes 0 s = Ok ([], s)"
| "genbytes (Suc n) s =
     bind_outcome (genrand8 s) (\<lambda>r. bind_outcome (genbytes n (snd r)) (\<lambda>q. Ok (fst r # fst q, snd q)))"

text \<open>The number with these bytes, the least significant first; missing ones are 0.\<close>

primrec from_bytes :: "8 word list \<Rightarrow> 32 word" where
  "from_bytes [] = 0"
| "from_bytes (b # bs) = ucast b + 256 * from_bytes bs"

definition genrand32 :: "randdata \<Rightarrow> (32 word \<times> randdata) outcome" where
  "genrand32 s = bind_outcome (genbytes 4 s) (\<lambda>r. Ok (from_bytes (fst r), snd r))"

definition num_bytes :: "32 word \<Rightarrow> nat" where
  "num_bytes m = (if drop_bit 8 m = 0 then 1 else if drop_bit 16 m = 0 then 2 else if drop_bit 24 m = 0 then 3 else 4)"

definition getrandom :: "randdata \<Rightarrow> 32 word \<Rightarrow> (32 word \<times> randdata) outcome" where
  "getrandom s m =
     (if m = 0 \<or> m = 1 then Ok (0, s)
      else bind_outcome (genbytes (num_bytes m) s) (\<lambda>r. Ok (from_bytes (fst r) mod m, snd r)))"

definition getllrandom :: "randdata \<Rightarrow> 64 word \<Rightarrow> (64 word \<times> randdata) outcome" where
  "getllrandom s m =
     (if m = 0 then Ok (0, s)
      else if m < - 1 then bind_outcome (getrandom s (ucast m)) (\<lambda>r. Ok (ucast (fst r), snd r))
      else bind_outcome (genrand32 s) (\<lambda>high.
           bind_outcome (genrand32 (snd high)) (\<lambda>low.
             let result = push_bit 32 (ucast (fst high)) OR ucast (fst low) :: 64 word
             in if result = 0 then Fault else Ok (result mod m, snd low))))"

section \<open>The buffer stays in order\<close>

definition filled :: "randdata \<Rightarrow> bool" where
  "filled s \<longleftrightarrow> 0 < rd_size s \<and> int (length (mt s)) = rd_size s \<and> 0 \<le> mti s \<and> mti s \<le> rd_size s"

lemma genrand8_filled:
  assumes "filled s"
  shows "\<exists>b s'. genrand8 s = Ok (b, s') \<and> filled s' \<and> mt s' = mt s \<and> b \<in> set (mt s)"
proof -
  let ?i = "if mti s \<ge> rd_size s then 0 else mti s"
  have "0 \<le> ?i" "nat ?i < length (mt s)" "?i < rd_size s" using assms by (auto simp: filled_def)
  then show ?thesis using assms by (auto simp: genrand8_def filled_def Let_def)
qed

lemma genbytes_filled:
  "filled s \<Longrightarrow> \<exists>bs s'. genbytes n s = Ok (bs, s') \<and> filled s' \<and> mt s' = mt s \<and> length bs = n \<and> set bs \<subseteq> set (mt s)"
proof (induction n arbitrary: s)
  case (Suc n)
  obtain b s1 where s1: "genrand8 s = Ok (b, s1)" "filled s1" "mt s1 = mt s" "b \<in> set (mt s)"
    using genrand8_filled [OF Suc.prems] by blast
  obtain bs s2 where "genbytes n s1 = Ok (bs, s2)" "filled s2" "mt s2 = mt s1" "length bs = n" "set bs \<subseteq> set (mt s1)"
    using Suc.IH [OF s1(2)] by blast
  with s1 show ?case by (simp del: bind_outcome_Ok_conv)
qed simp

lemma getrandom_filled:
  assumes "filled s"
  shows "\<exists>r s'. getrandom s m = Ok (r, s') \<and> filled s' \<and> mt s' = mt s \<and> (if m = 0 then r = 0 else r < m)"
proof (cases "m = 0 \<or> m = 1")
  case True
  with assms show ?thesis by (auto simp: getrandom_def)
next
  case False
  then have "from_bytes bs mod m < m" for bs by (simp add: word_mod_less_divisor word_gt_0)
  with False genbytes_filled [OF assms, of "num_bytes m"] show ?thesis by (auto simp: getrandom_def simp del: bind_outcome_Ok_conv)
qed

section \<open>Filling the buffer\<close>

lemma mt_set_in: "0 \<le> i \<Longrightarrow> i < int (length b) \<Longrightarrow> \<exists>b'. mt_set b i v = Ok b' \<and> length b' = length b"
  by (auto simp: mt_set_def nat_less_iff)

lemma mt_set_out: "i < 0 \<or> i \<ge> int (length b) \<Longrightarrow> mt_set b i v = Fault"
  by (auto simp: mt_set_def)

text \<open>Four bytes at a time fit only when a multiple of four is missing.\<close>

lemma fallback_fits:
  assumes "0 \<le> i" "int (length b) = i + 4 * int k" "\<forall>j. rs j \<noteq> 0"
  shows "\<exists>b'. fallback (int (length b)) rs i b = Ok b' \<and> length b' = length b"
  using assms
proof (induction k arbitrary: i b rs)
  case 0
  then show ?case by (subst fallback.simps) simp
next
  case (Suc k)
  let ?r = "rs 0"
  obtain b1 where b1: "mt_set b i (drop_bit 24 ?r) = Ok b1" "length b1 = length b" using mt_set_in [of "i" b "drop_bit 24 ?r"] Suc.prems by auto
  obtain b2 where b2: "mt_set b1 (i + 1) (drop_bit 16 ?r) = Ok b2" "length b2 = length b" using mt_set_in [of "i + 1" b1 "drop_bit 16 ?r"] Suc.prems b1 by auto
  obtain b3 where b3: "mt_set b2 (i + 2) (drop_bit 8 ?r) = Ok b3" "length b3 = length b" using mt_set_in [of "i + 2" b2 "drop_bit 8 ?r"] Suc.prems b2 by auto
  obtain b4 where b4: "mt_set b3 (i + 3) ?r = Ok b4" "length b4 = length b" using mt_set_in [of "i + 3" b3 "?r"] Suc.prems b3 by auto
  obtain b' where b': "fallback (int (length b4)) (\<lambda>k. rs (Suc k)) (i + 4) b4 = Ok b'" "length b' = length b4"
    using Suc.IH [of "i + 4" b4 "\<lambda>k. rs (Suc k)"] Suc.prems b4 by auto
  have "fallback (int (length b)) rs i b = Ok b'"
    using Suc.prems(2,3) b1 b2 b3 b4 b' by (subst fallback.simps) (simp add: Let_def del: bind_outcome_Ok_conv)
  with b' b4 show ?case by simp
qed

lemma mt_set_Ok: "mt_set b i v = Ok b' \<Longrightarrow> 0 \<le> i \<and> i < int (length b) \<and> length b' = length b"
  by (auto simp: mt_set_def nat_less_iff split: if_split_asm)

lemma fallback_Ok:
  "fallback sz rs i b = Ok b' \<Longrightarrow> int (length b) = sz \<Longrightarrow> i \<le> sz \<Longrightarrow> 4 dvd (sz - i)"
proof (induction sz rs i b arbitrary: b' rule: fallback.induct)
  case (1 sz rs i b)
  show ?case
  proof (cases "i < sz")
    case True
    with "1.prems"(1) obtain b1 b2 b3 b4 where rs: "rs 0 \<noteq> 0" "mt_set b i (drop_bit 24 (rs 0)) = Ok b1"
      "mt_set b1 (i + 1) (drop_bit 16 (rs 0)) = Ok b2" "mt_set b2 (i + 2) (drop_bit 8 (rs 0)) = Ok b3" "mt_set b3 (i + 3) (rs 0) = Ok b4"
      "fallback sz (\<lambda>k. rs (Suc k)) (i + 4) b4 = Ok b'"
      by (subst (asm) fallback.simps) (auto simp: Let_def split: if_split_asm)
    have l: "length b4 = length b" "i + 3 < int (length b)" using rs(2-5)[THEN mt_set_Ok] by simp_all
    have "4 dvd (sz - (i + 4))" using "1.IH" [OF True refl rs(1,6)] l "1.prems"(2) by simp
    then show ?thesis by presburger
  qed (use "1.prems" in simp)
qed

lemma sgenrand_filled:
  assumes "0 < rd_size s" "int (length (mt s)) = rd_size s" "got = int (length bs)" "got \<le> rd_size s"
    and "4 dvd (rd_size s - got)" "\<forall>j. rs j \<noteq> 0"
  shows "\<exists>s'. sgenrand got bs rs s = Ok s' \<and> filled s'"
proof (cases "got = rd_size s")
  case True
  with assms show ?thesis by (simp add: sgenrand_def filled_def)
next
  case False
  let ?b = "take (length (mt s)) bs @ drop (length bs) (mt s)"
  have l: "int (length ?b) = rd_size s" using assms(2-4) by auto
  obtain k where k: "rd_size s - got = 4 * k" using assms(5) by auto
  then have "0 \<le> k" using assms(4) by simp
  then have "\<exists>b'. fallback (int (length ?b)) rs got ?b = Ok b' \<and> length b' = length ?b"
    using k l assms(3,6) by (intro fallback_fits [of _ _ "nat k"]) auto
  then show ?thesis using False l assms(1) by (auto simp: sgenrand_def filled_def simp del: bind_outcome_Ok_conv)
qed

text \<open>A failed or odd \<^verbatim>\<open>read\<close> makes the fall-back write outside the buffer.\<close>

lemma sgenrand_overrun:
  assumes "int (length (mt s)) = rd_size s" "0 < rd_size s" "got = - 1 \<and> bs = [] \<or> got = int (length bs) \<and> got < rd_size s \<and> \<not> 4 dvd (rd_size s - got)"
  shows "\<not> (\<exists>s'. sgenrand got bs rs s = Ok s')"
proof
  let ?b = "take (length (mt s)) bs @ drop (length bs) (mt s)"
  assume "\<exists>s'. sgenrand got bs rs s = Ok s'"
  moreover have "got \<noteq> rd_size s" using assms by auto
  ultimately obtain b' where b': "fallback (rd_size s) rs got ?b = Ok b'" by (auto simp: sgenrand_def)
  have l: "int (length ?b) = rd_size s" using assms by auto
  show False
  proof (cases "got = - 1")
    case True
    with b' assms(2) show False by (subst (asm) fallback.simps) (auto simp: mt_set_out Let_def split: if_split_asm)
  next
    case False
    with fallback_Ok [OF b' l] assms(3) show False by auto
  qed
qed

section \<open>Large ranges\<close>

lemma uint_ucast32: "uint (ucast (m :: 64 word) :: 32 word) = uint m mod 2 ^ 32"
  by (simp add: unsigned_ucast_eq take_bit_eq_mod)

section \<open>Properties\<close>

text \<open>
  C35: For a range below \<^verbatim>\<open>ULONG_MAX\<close> the 64-bit generator returns a number below the range, but never one of \<open>2 ^ 32\<close> or
  more, and always 0 if the range is a multiple of \<open>2 ^ 32\<close>. The buffer is read only inside and not changed.
\<close>

theorem getllrandom_32_bits:
  assumes "filled s" "m \<noteq> 0" "m < - 1"
  shows "\<exists>r s'. getllrandom s m = Ok (r, s') \<and> filled s' \<and> mt s' = mt s \<and> r < m \<and> uint r < 2 ^ 32 \<and> (2 ^ 32 dvd uint m \<longrightarrow> r = 0)"
proof -
  let ?m = "ucast m :: 32 word"
  obtain q s' where q: "getrandom s ?m = Ok (q, s')" "filled s'" "mt s' = mt s" "if ?m = 0 then q = 0 else q < ?m"
    using getrandom_filled [OF assms(1)] by blast
  have b: "uint q < 2 ^ 32" using uint_lt2p [of q] by simp
  then have u: "uint (ucast q :: 64 word) = uint q" by (simp add: unsigned_ucast_eq take_bit_eq_mod)
  have "uint q < uint m"
  proof (cases "?m = 0")
    case True
    have "uint q = 0" "uint m \<noteq> 0" using True q(4) assms(2) by (simp_all add: uint_0_iff)
    then show ?thesis using uint_ge_0 [of m] by linarith
  next
    case False
    then have "uint q < uint m mod 2 ^ 32" using q(4) by (simp add: word_less_def uint_ucast32)
    also have "\<dots> \<le> uint m" by (simp add: zmod_le_nonneg_dividend)
    finally show ?thesis .
  qed
  moreover have "q = 0" if "2 ^ 32 dvd uint m"
  proof -
    have "?m = 0" using that unfolding word_uint_eq_iff uint_ucast32 by (simp add: dvd_eq_mod_eq_0)
    with q(4) show ?thesis by simp
  qed
  moreover have "getllrandom s m = Ok (ucast q, s')" using assms q(1) by (simp add: getllrandom_def del: bind_outcome_Ok_conv)
  ultimately show ?thesis using q(2,3) u b by (auto simp: word_less_def)
qed

definition demo_rand :: randdata where
  "demo_rand = \<lparr>rd_size = 4, mt = [1, 2, 3, 4], mti = 0\<rparr>"

lemma demo_rand_filled: "filled demo_rand"
  by (simp add: filled_def demo_rand_def)

theorem getllrandom_32_bits_witness: "\<exists>s'. getllrandom demo_rand 4294967296 = Ok (0, s')"
  using getllrandom_32_bits [OF demo_rand_filled, of 4294967296] by auto

end
