(* ===== verification/Ffsb_Filelist.thy ===== *)
theory Ffsb_Filelist
  imports Ffsb_Remove Ffsb_Cirlist Ffsb_Rwlock Ffsb_Rand
begin

text \<open>
  The list of files of the benchmark ffsb, \<^verbatim>\<open>utils/ffsb-6.0-rc2/filelist.c\<close>: the existing files in a
  red-black tree by their number, the deleted ones in a queue of holes whose numbers and names are
  used again, and the directories. The file structures are in a store by address. A call runs under
  the lock of the list; a lock is here the count of its readers, and a call that has to wait for one
  gives \<open>None\<close>, as does a search that never ends. What \<^verbatim>\<open>malloc\<close>, \<^verbatim>\<open>mkdir\<close>, \<^verbatim>\<open>readdir\<close> and the
  validation callback answer are arguments.
\<close>

section \<open>The model\<close>

record ffsb_file =
  fname :: "cstr option"
  fsize :: "64 word"
  flock :: int
  fnum :: "32 word"

record benchfiles =
  basedir :: cstr
  basename :: cstr
  numsubdirs :: "32 word"
  files :: rb_tree
  dirs :: rb_tree
  holes :: cirlist
  dholes :: cirlist
  fileslock :: int
  listsize :: "32 word"
  fstore :: "nat \<rightharpoonup> ffsb_file"

definition FILENAME_MAX :: nat where "FILENAME_MAX = 4096"
definition SUBDIRNAME_BASE :: cstr where "SUBDIRNAME_BASE = ''dir''"
definition FILENAME_BASE :: cstr where "FILENAME_BASE = ''file''"

definition fnums :: "benchfiles \<Rightarrow> nat \<Rightarrow> 32 word" where
  "fnums b p = (case fstore b p of None \<Rightarrow> 0 | Some f \<Rightarrow> fnum f)"

definition file_at :: "benchfiles \<Rightarrow> nat \<Rightarrow> ffsb_file outcome" where
  "file_at b p = (case fstore b p of None \<Rightarrow> Fault | Some f \<Rightarrow> Ok f)"

definition acquire :: "kind \<Rightarrow> int \<Rightarrow> int outcome option" where
  "acquire k n = (if may_take k n then Some (Ok (take_it k n)) else None)"

definition set_lock :: "nat \<Rightarrow> int \<Rightarrow> benchfiles \<Rightarrow> benchfiles" where
  "set_lock p l b = b\<lparr>fstore := (fstore b)(p := map_option (\<lambda>f. f\<lparr>flock := l\<rparr>) (fstore b p))\<rparr>"

definition lock_file :: "kind \<Rightarrow> nat \<Rightarrow> benchfiles \<Rightarrow> benchfiles outcome option" where
  "lock_file k p b =
     obind (Some (file_at b p)) (\<lambda>f. obind (acquire k (flock f)) (\<lambda>l. Some (Ok (set_lock p l b))))"

text \<open>The error number of \<^verbatim>\<open>mkdir\<close>, if it fails.\<close>

definition make_dir :: "(cstr \<Rightarrow> int option) \<Rightarrow> cstr \<Rightarrow> unit outcome" where
  "make_dir mk path = (case mk path of Some e \<Rightarrow> if e \<noteq> EEXIST then Exit 1 else Ok () | None \<Rightarrow> Ok ())"

fun make_dirs :: "(cstr \<Rightarrow> int option) \<Rightarrow> cstr list \<Rightarrow> unit outcome" where
  "make_dirs mk [] = Ok ()"
| "make_dirs mk (d # ds) = bind_outcome (make_dir mk d) (\<lambda>_. make_dirs mk ds)"

definition subdir_name :: "benchfiles \<Rightarrow> int \<Rightarrow> cstr" where
  "subdir_name b i = snprintf FILENAME_MAX (basedir b @ ''/'' @ basename b @ SUBDIRNAME_BASE @ dec_int i)"

definition build_dirs :: "(cstr \<Rightarrow> int option) \<Rightarrow> benchfiles \<Rightarrow> unit outcome" where
  "build_dirs mk b =
     bind_outcome (make_dir mk (basedir b)) (\<lambda>_.
       make_dirs mk (map (\<lambda>i. subdir_name b (int i)) [0..<unat (numsubdirs b)]))"

definition init_filelist :: "(cstr \<Rightarrow> int option) \<Rightarrow> cstr \<Rightarrow> cstr \<Rightarrow> 32 word \<Rightarrow> bool \<Rightarrow> benchfiles outcome" where
  "init_filelist mk bdir bname numsub builddirs =
     (let cl = init_cirlist \<lparr>cl_count = 0, cl_head = 0, cl_nodes = Map.empty\<rparr>;
          b = \<lparr>basedir = bdir, basename = bname, numsubdirs = numsub, files = rbtree_construct, dirs = rbtree_construct,
               holes = cl, dholes = cl, fileslock = n_readers init_rwlock, listsize = 0, fstore = Map.empty\<rparr>
      in bind_outcome (if builddirs then build_dirs mk b else Ok ()) (\<lambda>_. Ok b))"

text \<open>Freeing a file, with its name.\<close>

definition file_destructor :: "nat \<Rightarrow> benchfiles \<Rightarrow> benchfiles outcome" where
  "file_destructor p b = bind_outcome (file_at b p) (\<lambda>_. Ok (b\<lparr>fstore := (fstore b)(p := None)\<rparr>))"

fun destruct_all :: "nat list \<Rightarrow> benchfiles \<Rightarrow> benchfiles outcome" where
  "destruct_all [] b = Ok b"
| "destruct_all (p # ps) b = bind_outcome (file_destructor p b) (destruct_all ps)"

partial_function (option) drain_holes :: "benchfiles \<Rightarrow> benchfiles outcome option" where
  "drain_holes b =
     (if cl_empty (holes b) then Some (Ok b)
      else obind (Some (cl_remove_head (holes b))) (\<lambda>r.
           obind (Some (file_destructor (fst r) (b\<lparr>holes := snd r\<rparr>))) drain_holes))"

definition destroy_filelist :: "benchfiles \<Rightarrow> benchfiles outcome option" where
  "destroy_filelist b =
     obind (drain_holes b) (\<lambda>b1.
     obind (rbtree_clean True (files b1)) (\<lambda>r. Some (destruct_all (fst r) (b1\<lparr>files := snd r\<rparr>))))"

text \<open>The path of a new file: in the base directory, or in one of its subdirectories.\<close>

definition file_name :: "benchfiles \<Rightarrow> int \<Rightarrow> int \<Rightarrow> cstr" where
  "file_name b randdir filenum =
     snprintf FILENAME_MAX
       (if randdir = 0 then basedir b @ ''/'' @ basename b @ FILENAME_BASE @ dec_int filenum
        else basedir b @ ''/'' @ basename b @ SUBDIRNAME_BASE @ dec_int (randdir - 1) @ ''/'' @ basename b @
             FILENAME_BASE @ dec_int filenum)"

definition new_file :: "nat \<Rightarrow> ffsb_file \<Rightarrow> benchfiles \<Rightarrow> benchfiles outcome" where
  "new_file p f b = (if p = 0 then Fault else Ok (b\<lparr>fstore := (fstore b)(p \<mapsto> f)\<rparr>))"

definition upd_file :: "nat \<Rightarrow> (ffsb_file \<Rightarrow> ffsb_file) \<Rightarrow> benchfiles \<Rightarrow> benchfiles outcome" where
  "upd_file p g b = bind_outcome (file_at b p) (\<lambda>f. Ok (b\<lparr>fstore := (fstore b)(p \<mapsto> g f)\<rparr>))"

text \<open>Inserting into the tree of the files, and taking the lock of the file; \<open>nd\<close> is the new tree node.\<close>

definition enter_file :: "nat \<Rightarrow> nat \<Rightarrow> benchfiles \<Rightarrow> benchfiles outcome option" where
  "enter_file nd p b =
     obind (rbtree_insert (fnums b) nd p (files b)) (\<lambda>r. lock_file Wr p (b\<lparr>files := snd r\<rparr>))"

definition enter_dir :: "nat \<Rightarrow> nat \<Rightarrow> benchfiles \<Rightarrow> benchfiles outcome option" where
  "enter_dir nd p b =
     obind (rbtree_insert (fnums b) nd p (dirs b)) (\<lambda>r. lock_file Wr p (b\<lparr>dirs := snd r\<rparr>))"

definition release_list :: "kind \<Rightarrow> benchfiles \<Rightarrow> benchfiles" where
  "release_list k b = b\<lparr>fileslock := give_it k (fileslock b)\<rparr>"

text \<open>The number for a new file, and for a new directory.\<close>

definition next_num :: "nat \<Rightarrow> benchfiles \<Rightarrow> benchfiles outcome" where
  "next_num p b = upd_file p (\<lambda>f. f\<lparr>fnum := listsize b\<rparr>) (b\<lparr>listsize := listsize b + 1\<rparr>)"

definition next_dir :: "nat \<Rightarrow> benchfiles \<Rightarrow> benchfiles outcome" where
  "next_dir p b = upd_file p (\<lambda>f. f\<lparr>fnum := numsubdirs b\<rparr>) (b\<lparr>numsubdirs := numsubdirs b + 1\<rparr>)"

text \<open>The file, the old one if there is a hole; \<open>newp\<close> and \<open>nd\<close> are the new file and the new tree node.\<close>

definition add_file :: "nat \<Rightarrow> nat \<Rightarrow> 64 word \<Rightarrow> randdata \<Rightarrow> benchfiles \<Rightarrow> (nat \<times> randdata \<times> benchfiles) outcome option" where
  "add_file newp nd sz rd b =
     obind (Some (new_file newp \<lparr>fname = None, fsize = sz, flock = 0, fnum = 0\<rparr> b)) (\<lambda>b0.
     obind (acquire Wr (fileslock b0)) (\<lambda>l.
       let b1 = b0\<lparr>fileslock := l\<rparr>
       in if \<not> cl_empty (holes b1)
          then obind (Some (cl_remove_head (holes b1))) (\<lambda>r.
               obind (enter_file nd (fst r) (b1\<lparr>holes := snd r\<rparr>)) (\<lambda>b2.
                 let b3 = release_list Wr b2
                 in Some (Ok (fst r, rd, b3\<lparr>fstore := (fstore b3)(newp := None)\<rparr>))))
          else obind (Some (next_num newp b1)) (\<lambda>b2.
               obind (enter_file nd newp b2) (\<lambda>b3.
                 let b4 = release_list Wr b3
                 in obind (Some (getrandom rd (numsubdirs b4 + 1))) (\<lambda>r.
                    obind (Some (upd_file newp (\<lambda>f. f\<lparr>fname := Some (file_name b4 (sint (fst r)) (sint (listsize b1)))\<rparr>) b4)) (\<lambda>b5.
                      Some (Ok (newp, snd r, b5))))))))"

definition add_dir :: "nat \<Rightarrow> nat \<Rightarrow> benchfiles \<Rightarrow> (nat \<times> benchfiles) outcome option" where
  "add_dir newp nd b =
     obind (Some (new_file newp \<lparr>fname = None, fsize = 0, flock = 0, fnum = 0\<rparr> b)) (\<lambda>b0.
     obind (acquire Wr (fileslock b0)) (\<lambda>l.
       let b1 = b0\<lparr>fileslock := l\<rparr>
       in if \<not> cl_empty (dholes b1)
          then obind (Some (cl_remove_head (dholes b1))) (\<lambda>r.
               obind (enter_file nd (fst r) (b1\<lparr>dholes := snd r\<rparr>)) (\<lambda>b2.
                 let b3 = release_list Wr b2
                 in Some (Ok (fst r, b3\<lparr>fstore := (fstore b3)(newp := None)\<rparr>))))
          else obind (Some (next_dir newp b1)) (\<lambda>b2.
               obind (enter_dir nd newp b2) (\<lambda>b3.
                 let b4 = release_list Wr b3
                 in obind (Some (upd_file newp (\<lambda>f. f\<lparr>fname := Some (subdir_name b4 (sint (numsubdirs b1)))\<rparr>) b4)) (\<lambda>b5.
                      Some (Ok (newp, b5)))))))"

definition add_file_named :: "nat \<Rightarrow> nat \<Rightarrow> 64 word \<Rightarrow> cstr \<Rightarrow> benchfiles \<Rightarrow> (nat \<times> benchfiles) outcome option" where
  "add_file_named newp nd sz name b =
     obind (Some (new_file newp \<lparr>fname = Some name, fsize = sz, flock = 0, fnum = 0\<rparr> b)) (\<lambda>b0.
     obind (acquire Wr (fileslock b0)) (\<lambda>l.
     obind (Some (next_num newp (b0\<lparr>fileslock := l\<rparr>))) (\<lambda>b1.
     obind (enter_file nd newp b1) (\<lambda>b2. Some (Ok (newp, release_list Wr b2))))))"

definition remove_file :: "nat \<Rightarrow> nat \<Rightarrow> benchfiles \<Rightarrow> benchfiles outcome option" where
  "remove_file cn entry b =
     obind (acquire Wr (fileslock b)) (\<lambda>l.
     obind (rbtree_remove (fnums b) False entry (files b)) (\<lambda>r.
     obind (Some (cl_insert_tail cn entry (holes b))) (\<lambda>h.
       Some (Ok (release_list Wr (b\<lparr>fileslock := l, files := snd r, holes := h\<rparr>))))))"

text \<open>The file on the stack that carries the number looked for has the address 0 here.\<close>

partial_function (option) choose_loop :: "benchfiles \<Rightarrow> randdata \<Rightarrow> (nat \<times> randdata) outcome option" where
  "choose_loop b rd =
     obind (Some (getrandom rd (listsize b))) (\<lambda>r.
     obind (rbtree_find ((fnums b)(0 := fst r)) 0 (files b)) (\<lambda>cur.
       if cur = 0 then choose_loop b (snd r)
       else obind (Some (node (files b) cur)) (\<lambda>n. Some (Ok (object n, snd r)))))"

definition choose_file :: "benchfiles \<Rightarrow> randdata \<Rightarrow> (nat \<times> randdata) outcome option" where
  "choose_file b rd = (if listsize b = 0 then Some (Exit 0) else choose_loop b rd)"

text \<open>\<^verbatim>\<open>choose_file_reader\<close> and \<^verbatim>\<open>choose_file_writer\<close>\<close>

partial_function (option) choose_file_for :: "kind \<Rightarrow> benchfiles \<Rightarrow> randdata \<Rightarrow> (nat \<times> randdata \<times> benchfiles) outcome option" where
  "choose_file_for k b rd =
     obind (acquire Rd (fileslock b)) (\<lambda>l.
       let b1 = b\<lparr>fileslock := l\<rparr>
       in if word_of_int (cl_count (holes b1)) = listsize b1 then Some Fault
          else obind (choose_file b1 rd) (\<lambda>r.
               obind (Some (file_at b1 (fst r))) (\<lambda>f.
                 if may_take k (flock f)
                 then Some (Ok (fst r, snd r, release_list Rd (set_lock (fst r) (take_it k (flock f)) b1)))
                 else choose_file_for k (release_list Rd b1) (snd r))))"

definition unlock_file :: "kind \<Rightarrow> nat \<Rightarrow> benchfiles \<Rightarrow> benchfiles outcome" where
  "unlock_file k p b = upd_file p (\<lambda>f. f\<lparr>flock := give_it k (flock f)\<rparr>) b"

definition rename_file :: "nat \<Rightarrow> benchfiles \<Rightarrow> benchfiles outcome" where
  "rename_file p b =
     bind_outcome (file_at b p) (\<lambda>f.
       case fname f of None \<Rightarrow> Fault | Some n \<Rightarrow> upd_file p (\<lambda>f. f\<lparr>fname := Some (n @ ''a'')\<rparr>) b)"

text \<open>\<^verbatim>\<open>sscanf\<close> with one \<^verbatim>\<open>int\<close> to store: a second conversion has nowhere to go.\<close>

fun scan_fmt :: "cstr \<Rightarrow> cstr \<Rightarrow> int option outcome" where
  "scan_fmt [] s = Ok None"
| "scan_fmt (c # fmt) s =
     (if is_space c then scan_fmt fmt (dropWhile is_space s)
      else if c = CHR ''%'' then
        (if fmt = ''d'' then Ok (map_option (\<lambda>(neg, n, rest). int_of_scan neg n) (scan_number s)) else Fault)
      else case s of [] \<Rightarrow> Ok None | x # s' \<Rightarrow> if x = c then scan_fmt fmt s' else Ok None)"

definition validate_name :: "cstr \<Rightarrow> benchfiles \<Rightarrow> cstr \<Rightarrow> int outcome" where
  "validate_name kind_base b name =
     (let fmt = basename b @ kind_base @ ''%d''
      in if FILENAME_MAX \<le> length fmt then Ok (- 1)
         else bind_outcome (scan_fmt fmt name) (\<lambda>v. Ok (case v of None \<Rightarrow> - 1 | Some i \<Rightarrow> i)))"

definition validate_filename :: "benchfiles \<Rightarrow> cstr \<Rightarrow> int outcome" where
  "validate_filename = validate_name FILENAME_BASE"

definition validate_dirname :: "benchfiles \<Rightarrow> cstr \<Rightarrow> int outcome" where
  "validate_dirname = validate_name SUBDIRNAME_BASE"

text \<open>The addresses that \<^verbatim>\<open>malloc\<close> returns, for a file and for its tree node; when there are none left it fails.\<close>

type_synonym mallocs = "(nat \<times> nat) list"

definition supplied :: "mallocs \<Rightarrow> nat \<times> nat" where
  "supplied m = (case m of [] \<Rightarrow> (0, 0) | x # xs \<Rightarrow> x)"

definition add_found :: "mallocs \<Rightarrow> 64 word \<Rightarrow> cstr \<Rightarrow> benchfiles \<Rightarrow> (mallocs \<times> benchfiles) outcome option" where
  "add_found m sz path b =
     obind (add_file_named (fst (supplied m)) (snd (supplied m)) sz path b) (\<lambda>r.
     obind (Some (unlock_file Wr (fst r) (snd r))) (\<lambda>b1. Some (Ok (tl m, b1))))"

text \<open>
  \<open>disk\<close> has the names in a directory that can be opened, in the order of \<^verbatim>\<open>readdir\<close>, and \<open>fsz\<close> the size of a
  file. The names left to read and the value so far are arguments.
\<close>

partial_function (option) add_entries ::
    "(benchfiles \<Rightarrow> cstr \<Rightarrow> bool) \<Rightarrow> (cstr \<rightharpoonup> cstr list) \<Rightarrow> (cstr \<Rightarrow> 64 word) \<Rightarrow> cstr \<Rightarrow> cstr list \<Rightarrow> int \<Rightarrow> mallocs \<Rightarrow>
      benchfiles \<Rightarrow> (int \<times> mallocs \<times> benchfiles) outcome option" where
  "add_entries vfunc disk fsz path es retval m b =
     (case es of
        [] \<Rightarrow> Some (Ok (retval, m, b))
      | n # es' \<Rightarrow>
          (let full = path @ ''/'' @ n; f = snprintf FILENAME_MAX full
           in if FILENAME_MAX < length full then Some (Ok (- 1, m, b))
              else case disk f of
                None \<Rightarrow>
                  obind (Some (validate_filename b n)) (\<lambda>v.
                    if v < 0 \<or> vfunc b f then Some (Ok (- 1, m, b))
                    else obind (add_found m (fsz f) f b) (\<lambda>r. add_entries vfunc disk fsz path es' retval (fst r) (snd r)))
              | Some ds \<Rightarrow>
                  if n = ''.'' \<or> n = ''..'' then add_entries vfunc disk fsz path es' retval m b
                  else obind (Some (validate_dirname b n)) (\<lambda>v.
                    if v < 0 \<or> vfunc b f then Some (Ok (- 1, m, b))
                    else obind (add_entries vfunc disk fsz f ds 0 m (b\<lparr>numsubdirs := numsubdirs b + 1\<rparr>)) (\<lambda>r.
                           add_entries vfunc disk fsz path es' (retval + fst r) (fst (snd r)) (snd (snd r))))))"

definition add_dir_to_filelist ::
    "(benchfiles \<Rightarrow> cstr \<Rightarrow> bool) \<Rightarrow> (cstr \<rightharpoonup> cstr list) \<Rightarrow> (cstr \<Rightarrow> 64 word) \<Rightarrow> cstr \<Rightarrow> cstr list \<Rightarrow> mallocs \<Rightarrow>
      benchfiles \<Rightarrow> (int \<times> mallocs \<times> benchfiles) outcome option" where
  "add_dir_to_filelist vfunc disk fsz path es m b = add_entries vfunc disk fsz path es 0 m b"

definition grab_old_fileset ::
    "(benchfiles \<Rightarrow> cstr \<Rightarrow> bool) \<Rightarrow> (cstr \<rightharpoonup> cstr list) \<Rightarrow> (cstr \<Rightarrow> 64 word) \<Rightarrow> mallocs \<Rightarrow>
      benchfiles \<Rightarrow> (int \<times> mallocs \<times> benchfiles) outcome option" where
  "grab_old_fileset vfunc disk fsz m b =
     (let buf = snprintf FILENAME_MAX (basedir b)
      in if FILENAME_MAX < length (basedir b) then Some (Ok (- 1, m, b))
         else case disk buf of
                None \<Rightarrow> Some (Ok (- 1, m, b))
              | Some es \<Rightarrow> add_dir_to_filelist vfunc disk fsz buf es m b)"

definition get_listsize :: "benchfiles \<Rightarrow> 32 word" where
  "get_listsize = listsize"

definition get_numsubdirs :: "benchfiles \<Rightarrow> 32 word" where
  "get_numsubdirs = numsubdirs"

section \<open>The invariant\<close>

text \<open>
  Every number below \<^verbatim>\<open>listsize\<close> belongs to one file, which is in the tree or in the queue of holes. The
  directories have numbers of their own. Nothing ever enters the queue of directory holes.
\<close>

definition fl_inv :: "benchfiles \<Rightarrow> tree \<Rightarrow> nat list \<Rightarrow> tree \<Rightarrow> bool" where
  "fl_inv b t xs td \<longleftrightarrow>
     rep (fnums b) (files b) t \<and> rep (fnums b) (dirs b) td \<and> holds (holes b) xs \<and> holds (dholes b) [] \<and>
     distinct (objs t @ xs @ objs td) \<and> set (objs t @ xs @ objs td) \<subseteq> dom (fstore b) \<and> fstore b 0 = None \<and>
     inj_on (fnums b) (set (objs t @ xs)) \<and> fnums b ` set (objs t @ xs) = {n. n < listsize b} \<and>
     uint (listsize b) \<le> 2 ^ 31 \<and> (\<forall>x \<in> set (objs td). fnums b x < numsubdirs b) \<and> uint (numsubdirs b) \<le> 2 ^ 31"

text \<open>The specification: the numbers in use, those to use again in their order, and the next new one.\<close>

type_synonym numbers = "32 word set \<times> 32 word list \<times> 32 word"

fun spec_add :: "numbers \<Rightarrow> 32 word \<times> numbers" where
  "spec_add (live, [], n) = (n, (insert n live, [], n + 1))"
| "spec_add (live, k # ks, n) = (k, (insert k live, ks, n))"

fun spec_remove :: "32 word \<Rightarrow> numbers \<Rightarrow> numbers" where
  "spec_remove k (live, ks, n) = (live - {k}, ks @ [k], n)"

definition numbers :: "benchfiles \<Rightarrow> tree \<Rightarrow> nat list \<Rightarrow> numbers" where
  "numbers b t xs = (fnums b ` set (objs t), map (fnums b) xs, listsize b)"

lemma file_name_simps [simp]:
  "file_name (b\<lparr>fstore := x\<rparr>) = file_name b" "file_name (b\<lparr>files := y\<rparr>) = file_name b"
  "file_name (b\<lparr>listsize := w\<rparr>) = file_name b" "file_name (b\<lparr>fileslock := l\<rparr>) = file_name b"
  by (simp_all add: file_name_def fun_eq_iff)

lemma rep_cong: "rep num s t \<Longrightarrow> \<forall>x \<in> set (objs t). num' x = num x \<Longrightarrow> rep num' s t"
  unfolding rep_def ordered_def small_def by (auto intro: sorted_wrt_mono_rel)

lemma rep_distinct: "rep num s t \<Longrightarrow> distinct (objs t)"
  unfolding rep_def ordered_def by (auto simp: distinct_conv_nth sorted_wrt_iff_nth_less) (metis less_irrefl linorder_neqE_nat)

lemma fnums_simps [simp]:
  "fnums (b\<lparr>files := x\<rparr>) = fnums b" "fnums (b\<lparr>dirs := x\<rparr>) = fnums b" "fnums (b\<lparr>holes := c\<rparr>) = fnums b" "fnums (b\<lparr>dholes := c\<rparr>) = fnums b"
  "fnums (b\<lparr>fileslock := l\<rparr>) = fnums b" "fnums (b\<lparr>listsize := w\<rparr>) = fnums b" "fnums (b\<lparr>numsubdirs := w\<rparr>) = fnums b"
  "fnums (b\<lparr>fstore := (fstore b)(p := v)\<rparr>) = (fnums b)(p := (case v of None \<Rightarrow> 0 | Some f \<Rightarrow> fnum f))"
  by (auto simp: fnums_def fun_eq_iff)

lemma fnums_at [simp]: "fstore b p = Some f \<Longrightarrow> fnums b p = fnum f"
  by (simp add: fnums_def)

lemma set_ins_num: "\<forall>y \<in> set ys. num y \<noteq> num x \<Longrightarrow> set (ins_num num x ys) = insert x (set ys)"
  unfolding ins_num_def by (auto simp: not_less_iff_gr_or_eq)

lemma enter_file_ok:
  assumes "rep (fnums b) (files b) t" "small (fnums b) x" "\<forall>y \<in> set (objs t). fnums b y \<noteq> fnums b x"
    "fstore b x = Some f" "flock f = 0" "nd \<noteq> 0" "nodes (files b) nd = None"
  shows "\<exists>s' t'. enter_file nd x b = Some (Ok (b\<lparr>files := s', fstore := (fstore b)(x \<mapsto> f\<lparr>flock := - 1\<rparr>)\<rparr>)) \<and>
    rep (fnums b) s' t' \<and> set (objs t') = insert x (set (objs t))"
proof -
  obtain s' t' where s': "rbtree_insert (fnums b) nd x (files b) = Some (Ok (nd, s'))" "rep (fnums b) s' t'"
    "objs t' = ins_num (fnums b) x (objs t)" using rbtree_insert_rep [OF assms(1,2,6,7,3)] by blast
  moreover have "enter_file nd x b = Some (Ok (b\<lparr>files := s', fstore := (fstore b)(x \<mapsto> f\<lparr>flock := - 1\<rparr>)\<rparr>))"
    using s'(1) assms(4,5) by (simp add: enter_file_def lock_file_def file_at_def acquire_def set_lock_def)
  ultimately show ?thesis using set_ins_num [OF assms(3)] by metis
qed

lemma fl_small: "fl_inv b t xs td \<Longrightarrow> x \<in> set (objs t @ xs) \<Longrightarrow> small (fnums b) x"
  unfolding fl_inv_def small_def word_less_def by (auto simp: image_subset_iff) (metis (mono_tags, lifting) UnCI image_eqI mem_Collect_eq order_less_le_trans)+

lemma add_file_hole:
  assumes I: "fl_inv b t (x # xs) td" and "fileslock b = 0" "newp \<noteq> 0" "fstore b newp = None" "nd \<noteq> 0" "nodes (files b) nd = None"
    "fstore b x = Some f" "flock f = 0"
  shows "\<exists>s' t' cl'. add_file newp nd sz rd b =
      Some (Ok (x, rd, b\<lparr>files := s', holes := cl', fstore := (fstore b)(x \<mapsto> f\<lparr>flock := - 1\<rparr>)\<rparr>)) \<and>
    rep (fnums b) s' t' \<and> set (objs t') = insert x (set (objs t)) \<and> holds cl' xs"
proof -
  let ?nf = "\<lparr>fname = None, fsize = sz, flock = 0, fnum = 0\<rparr>"
  have h: "rep (fnums b) (files b) t" "holds (holes b) (x # xs)" "x \<notin> set (objs t)" "newp \<noteq> x" "newp \<notin> set (objs t)"
    using I assms(4,7) by (auto simp: fl_inv_def)
  obtain cl' where cl: "cl_remove_head (holes b) = Ok (x, cl')" "holds cl' xs" using cq.get_law [OF h(2)] by blast
  let ?b = "b\<lparr>fstore := (fstore b)(newp \<mapsto> ?nf), fileslock := - 1, holes := cl'\<rparr>"
  have fn: "fnums ?b = (fnums b)(newp := 0)" by (simp add: fnums_def fun_eq_iff)
  have r: "rep (fnums ?b) (files ?b) t" using rep_cong [OF h(1)] h(5) by (auto simp: fn)
  have sm: "small (fnums ?b) x" using fl_small [OF I, of x] h(4) by (simp add: fn small_def)
  have ne: "\<forall>y \<in> set (objs t). fnums ?b y \<noteq> fnums ?b x" using I h(3-5) unfolding fl_inv_def inj_on_def fn by auto
  obtain s' t' where s': "enter_file nd x ?b = Some (Ok (?b\<lparr>files := s', fstore := (fstore ?b)(x \<mapsto> f\<lparr>flock := - 1\<rparr>)\<rparr>))"
    "rep (fnums ?b) s' t'" "set (objs t') = insert x (set (objs t))"
    using enter_file_ok [OF r sm ne, of f nd] assms(5-8) h(4) by auto
  have "(fstore b)(newp \<mapsto> ?nf, x \<mapsto> f\<lparr>flock := - 1\<rparr>, newp := None) = (fstore b)(x \<mapsto> f\<lparr>flock := - 1\<rparr>)"
    using assms(4) h(4) by (auto simp: fun_eq_iff)
  then have "add_file newp nd sz rd b = Some (Ok (x, rd, b\<lparr>files := s', holes := cl', fstore := (fstore b)(x \<mapsto> f\<lparr>flock := - 1\<rparr>)\<rparr>))"
    using assms(2,3) h(2) cl(1) s'(1) by (simp add: add_file_def new_file_def acquire_def release_list_def Let_def)
  moreover have "rep (fnums b) s' t'" using rep_cong [OF s'(2)] h(4,5) s'(3) by (auto simp: fn)
  ultimately show ?thesis using s'(3) cl(2) by blast
qed

lemma add_file_fresh:
  assumes I: "fl_inv b t [] td" and "fileslock b = 0" "newp \<noteq> 0" "fstore b newp = None" "nd \<noteq> 0" "nodes (files b) nd = None"
    "uint (listsize b) < 2 ^ 31" "filled rd"
  shows "\<exists>s' t' rd' r. getrandom rd (numsubdirs b + 1) = Ok (r, rd') \<and> filled rd' \<and> add_file newp nd sz rd b =
      Some (Ok (newp, rd', b\<lparr>files := s', listsize := listsize b + 1,
        fstore := (fstore b)(newp \<mapsto> \<lparr>fname = Some (file_name b (sint r) (sint (listsize b))), fsize = sz, flock = - 1, fnum = listsize b\<rparr>)\<rparr>)) \<and>
    rep ((fnums b)(newp := listsize b)) s' t' \<and> set (objs t') = insert newp (set (objs t))"
proof -
  let ?nf = "\<lparr>fname = None, fsize = sz, flock = 0, fnum = listsize b\<rparr>"
  have h: "rep (fnums b) (files b) t" "holds (holes b) []" "newp \<notin> set (objs t)"
    using I assms(4) by (auto simp: fl_inv_def)
  let ?b = "b\<lparr>fstore := (fstore b)(newp \<mapsto> ?nf), fileslock := - 1, listsize := listsize b + 1\<rparr>"
  have fn: "fnums ?b = (fnums b)(newp := listsize b)" by (simp add: fnums_def fun_eq_iff)
  have r: "rep (fnums ?b) (files ?b) t" using rep_cong [OF h(1)] h(3) by (auto simp: fn)
  have sm: "small (fnums ?b) newp" using assms(7) by (simp add: fn small_def)
  have "fnums b y < listsize b" if "y \<in> set (objs t)" for y using I that unfolding fl_inv_def by auto
  then have ne: "\<forall>y \<in> set (objs t). fnums ?b y \<noteq> fnums ?b newp" using h(3) unfolding fn by (metis fun_upd_apply less_irrefl)
  obtain s' t' where s': "enter_file nd newp ?b = Some (Ok (?b\<lparr>files := s', fstore := (fstore ?b)(newp \<mapsto> ?nf\<lparr>flock := - 1\<rparr>)\<rparr>))"
    "rep (fnums ?b) s' t'" "set (objs t') = insert newp (set (objs t))"
    using enter_file_ok [OF r sm ne, of ?nf nd] assms(5,6) by auto
  obtain q rd' where q: "getrandom rd (numsubdirs b + 1) = Ok (q, rd')" "filled rd'" using getrandom_filled [OF assms(8)] by blast
  have e: "cl_empty (holes b)" using h(2) by simp
  have n: "next_num newp (b\<lparr>fstore := (fstore b)(newp \<mapsto> ?nf\<lparr>fnum := 0\<rparr>), fileslock := - 1\<rparr>) = Ok ?b"
    by (simp add: next_num_def upd_file_def file_at_def)
  have "add_file newp nd sz rd b =
      Some (Ok (newp, rd', b\<lparr>files := s', listsize := listsize b + 1,
        fstore := (fstore b)(newp \<mapsto> \<lparr>fname = Some (file_name b (sint q) (sint (listsize b))), fsize = sz, flock = - 1, fnum = listsize b\<rparr>)\<rparr>))"
    using e n s'(1) q(1) assms(2,3)
    by (simp add: add_file_def new_file_def upd_file_def file_at_def acquire_def release_list_def Let_def)
  then show ?thesis using s' q fn by auto
qed

section \<open>The operations keep the invariant\<close>

lemma fl_inv_hole:
  assumes I: "fl_inv b t (x # xs) td" and "rep (fnums b) s' t'" "set (objs t') = insert x (set (objs t))" "holds cl' xs"
    "fstore b x = Some f" and b': "b' = b\<lparr>files := s', holes := cl', fstore := (fstore b)(x \<mapsto> f\<lparr>flock := l\<rparr>)\<rparr>"
  shows "fl_inv b' t' xs td \<and> spec_add (numbers b t (x # xs)) = (fnums b' x, numbers b' t' xs)"
proof -
  have fn: "fnums b' = fnums b" using assms(5) by (auto simp: b' fnums_def fun_eq_iff)
  have "distinct (objs t' @ xs @ objs td)" using rep_distinct [OF assms(2)] I assms(3) by (auto simp: fl_inv_def)
  moreover have "set (objs t' @ xs) = set (objs t @ x # xs)" using assms(3) by auto
  ultimately show ?thesis using I assms(2-5) unfolding fl_inv_def fn by (auto simp: b' numbers_def fnums_def fun_eq_iff)
qed

lemma below_Suc:
  assumes "uint (n :: 32 word) < 2 ^ 31"
  shows "{k. k < n + 1} = insert n {k. k < n}" "uint (n + 1) \<le> 2 ^ 31"
proof -
  have "uint (n + 1) = (uint n + 1) mod 2 ^ 32" by (simp add: uint_word_ariths)
  also have "\<dots> = uint n + 1" using assms by simp
  finally have u: "uint (n + 1) = uint n + 1" .
  have "k < n + 1 \<longleftrightarrow> k = n \<or> k < n" for k unfolding word_less_def word_uint_eq_iff u by linarith
  then show "{k. k < n + 1} = insert n {k. k < n}" by auto
  show "uint (n + 1) \<le> 2 ^ 31" using assms u by simp
qed

lemma fl_inv_fresh:
  assumes I: "fl_inv b t xs td" and "rep ((fnums b)(p := listsize b)) s' t'" "set (objs t') = insert p (set (objs t))"
    "p \<noteq> 0" "fstore b p = None" "uint (listsize b) < 2 ^ 31" "fnum f = listsize b"
    and b': "b' = b\<lparr>files := s', listsize := listsize b + 1, fstore := (fstore b)(p \<mapsto> f)\<rparr>"
  shows "fl_inv b' t' xs td \<and> fnums b' p = listsize b \<and>
    numbers b' t' xs = (insert (listsize b) (fnums b ` set (objs t)), map (fnums b) xs, listsize b + 1)"
proof -
  have fn: "fnums b' = (fnums b)(p := listsize b)" using assms(7) by (auto simp: b' fnums_def fun_eq_iff)
  have p: "p \<notin> set (objs t)" "p \<notin> set (objs td)" "p \<notin> set xs" using I assms(5) by (auto simp: fl_inv_def)
  have d: "distinct (objs t' @ xs @ objs td)" using rep_distinct [OF assms(2)] I assms(3) p by (auto simp: fl_inv_def)
  have img: "fnums b' ` set (objs t) = fnums b ` set (objs t)" "fnums b' ` set (objs t @ xs) = fnums b ` set (objs t @ xs)"
    "map (fnums b') xs = map (fnums b) xs" using p fn by auto
  have lt: "fnums b ` set (objs t @ xs) = {n. n < listsize b}" using I by (simp add: fl_inv_def)
  have st: "set (objs t' @ xs) = insert p (set (objs t @ xs))" using assms(3) by auto
  have inj: "inj_on (fnums b') (set (objs t' @ xs))"
    unfolding st inj_on_insert using I p img(2) lt by (auto simp: fl_inv_def fn inj_on_def)
  have td: "rep (fnums b') (dirs b) td" using I p(2) by (auto simp: fl_inv_def fn intro: rep_cong)
  note n = below_Suc [OF assms(6)]
  have "fnums b' ` set (objs t' @ xs) = {k. k < listsize b + 1}" unfolding st image_insert img lt n by (simp add: fn)
  with I d inj td n p assms(2-4) fn img show ?thesis by (auto simp: fl_inv_def b' numbers_def)
qed

end
