(* ===== verification/Ffsb_Choose.thy ===== *)
theory Ffsb_Choose
  imports Ffsb_Filelist
begin

text \<open>
  Choosing, naming and freeing the files of the list of \<^theory_text>\<open>Ffsb_Filelist\<close>: when the search for a file at random
  ends, that different files get different paths and that the number in a name can be read back,
  and what is freed with the list.
\<close>

section \<open>Choosing a file\<close>

definition drawn :: "randdata \<Rightarrow> 32 word \<Rightarrow> 32 word \<times> randdata" where
  "drawn rd m = (case getrandom rd m of Ok r \<Rightarrow> r | _ \<Rightarrow> (0, rd))"

text \<open>The numbers that the generator gives, one after the other.\<close>

primrec nth_draw :: "nat \<Rightarrow> randdata \<Rightarrow> 32 word \<Rightarrow> 32 word" where
  "nth_draw 0 rd m = fst (drawn rd m)"
| "nth_draw (Suc k) rd m = nth_draw k (snd (drawn rd m)) m"

abbreviation live :: "benchfiles \<Rightarrow> tree \<Rightarrow> 32 word \<Rightarrow> bool" where
  "live b t n \<equiv> n \<in> fnums b ` set (objs t)"

lemma drawn_filled:
  assumes "filled rd" "m \<noteq> 0"
  shows "getrandom rd m = Ok (drawn rd m)" "filled (snd (drawn rd m))" "fst (drawn rd m) < m"
  using getrandom_filled [OF assms(1), of m] assms(2) by (auto simp: drawn_def)

lemma find_number:
  assumes I: "fl_inv b t xs td" and "n < listsize b"
  shows "\<exists>cur. rbtree_find ((fnums b)(0 := n)) 0 (files b) = Some (Ok cur) \<and>
    (if live b t n then cur \<noteq> 0 \<and> (\<exists>nd. node (files b) cur = Ok nd \<and> object nd \<in> set (objs t) \<and> fnums b (object nd) = n) else cur = 0)"
proof -
  let ?num = "(fnums b)(0 := n)"
  have z: "0 \<notin> set (objs t)" using I by (auto simp: fl_inv_def)
  have r: "rep ?num (files b) t" using I z by (auto simp: fl_inv_def intro: rep_cong)
  have "small ?num 0" using I assms(2) by (simp add: fl_inv_def small_def word_less_def)
  from rbtree_find_rep [OF r this] obtain a where a: "rbtree_find ?num 0 (files b) = Some (Ok a)"
    "if \<exists>y \<in> set (objs t). ?num y = n then held_at ?num 0 a t else a = 0" by auto
  have l: "(\<exists>y \<in> set (objs t). ?num y = n) \<longleftrightarrow> live b t n" using z by auto
  have "a \<noteq> 0 \<and> (\<exists>nd. node (files b) a = Ok nd \<and> object nd \<in> set (objs t) \<and> fnums b (object nd) = n)" if "live b t n"
  proof -
    have "held_at ?num 0 a t" using a(2) that unfolding l by (simp only: if_True)
    then obtain k c ob tl tr where t: "t = fill k (Nd a c ob tl tr)" "?num ob = ?num 0" unfolding held_at_def by blast
    have o: "ob \<in> set (objs t)" by (simp add: t(1) objs_fill)
    have L: "linked (files b) (fill k (Nod SL a c ob tl tr))" using r t(1) by (simp add: rep_def Nd_as_Nod)
    have "a \<noteq> 0" using L by (auto simp: linked_def tree_at_fill)
    moreover have "node (files b) a = Ok (rec SL ob c (upper k 0) (rt tl) (rt tr))" by (rule linked_node [OF L])
    moreover have "fnums b ob = n" using o t(2) z by (auto split: if_split_asm)
    ultimately show ?thesis using o by simp
  qed
  with a(1) a(2) [unfolded l] show ?thesis by (auto split: if_split_asm)
qed

lemma choose_loop_step:
  assumes I: "fl_inv b t xs td" and "filled rd" "listsize b \<noteq> 0"
  shows "if live b t (fst (drawn rd (listsize b)))
    then \<exists>p. choose_loop b rd = Some (Ok (p, snd (drawn rd (listsize b)))) \<and> p \<in> set (objs t) \<and> fnums b p = fst (drawn rd (listsize b))
    else choose_loop b rd = choose_loop b (snd (drawn rd (listsize b)))"
proof -
  note d = drawn_filled [OF assms(2,3)]
  from find_number [OF I d(3)] show ?thesis by (subst (1 2) choose_loop.simps) (auto simp: d(1))
qed

lemma choose_loop_hit:
  assumes "fl_inv b t xs td" "filled rd" "listsize b \<noteq> 0" "live b t (nth_draw k rd (listsize b))" "\<forall>j < k. \<not> live b t (nth_draw j rd (listsize b))"
  shows "\<exists>p rd'. choose_loop b rd = Some (Ok (p, rd')) \<and> p \<in> set (objs t) \<and> fnums b p = nth_draw k rd (listsize b) \<and> filled rd'"
  using assms(2,4,5)
proof (induction k arbitrary: rd)
  case 0
  then have "live b t (fst (drawn rd (listsize b)))" by simp
  with choose_loop_step [OF assms(1) 0(1) assms(3)] drawn_filled(2) [OF 0(1) assms(3)] show ?case
    unfolding nth_draw.simps by (simp only: if_True) blast
next
  case (Suc k)
  have "\<not> live b t (fst (drawn rd (listsize b)))" using Suc.prems(3) by (metis nth_draw.simps(1) zero_less_Suc)
  with choose_loop_step [OF assms(1) Suc.prems(1) assms(3)] have e: "choose_loop b rd = choose_loop b (snd (drawn rd (listsize b)))" by simp
  have "\<forall>j < k. \<not> live b t (nth_draw j (snd (drawn rd (listsize b))) (listsize b))"
    using Suc.prems(3) by (metis Suc_mono nth_draw.simps(2))
  with Suc.IH [OF drawn_filled(2) [OF Suc.prems(1) assms(3)]] Suc.prems(2) e show ?case by simp
qed

lemma choose_loop_Some:
  assumes "choose_loop b rd = Some y" "fl_inv b t xs td" "filled rd" "listsize b \<noteq> 0"
  shows "\<exists>k. live b t (nth_draw k rd (listsize b))"
proof -
  let ?P = "\<lambda>b rd (y :: (nat \<times> randdata) outcome). fl_inv b t xs td \<longrightarrow> filled rd \<longrightarrow> listsize b \<noteq> 0 \<longrightarrow> (\<exists>k. live b t (nth_draw k rd (listsize b)))"
  have "?P b rd y"
  proof (rule choose_loop.raw_induct [of ?P, OF _ assms(1)], intro impI)
    fix loop b rd y
    assume IH: "\<And>b rd y. loop b rd = Some y \<Longrightarrow> ?P b rd y"
      and body: "obind (Some (getrandom rd (listsize b))) (\<lambda>r. obind (rbtree_find ((fnums b)(0 := fst r)) 0 (files b)) (\<lambda>cur.
        if cur = 0 then loop b (snd r) else obind (Some (node (files b) cur)) (\<lambda>n. Some (Ok (object n, snd r))))) = Some y"
      and I: "fl_inv b t xs td" "filled rd" "listsize b \<noteq> 0"
    note d = drawn_filled [OF I(2,3)]
    show "\<exists>k. live b t (nth_draw k rd (listsize b))"
    proof (cases "live b t (fst (drawn rd (listsize b)))")
      case True
      then show ?thesis by (metis nth_draw.simps(1))
    next
      case False
      with find_number [OF I(1) d(3)] body have "loop b (snd (drawn rd (listsize b))) = Some y" by (auto simp: d(1))
      with IH I(1,3) d(2) obtain k where "live b t (nth_draw k (snd (drawn rd (listsize b))) (listsize b))" by blast
      then show ?thesis by (metis nth_draw.simps(2))
    qed
  qed
  with assms(2-4) show ?thesis by blast
qed

lemma choose_file_ends:
  assumes "fl_inv b t xs td" "filled rd" "listsize b \<noteq> 0"
  shows "(if \<exists>k. live b t (nth_draw k rd (listsize b))
    then \<exists>p rd'. choose_file b rd = Some (Ok (p, rd')) \<and> p \<in> set (objs t) \<and> filled rd' else choose_file b rd = None)"
proof (cases "\<exists>k. live b t (nth_draw k rd (listsize b))")
  case True
  then obtain k where "live b t (nth_draw k rd (listsize b))" "\<forall>j < k. \<not> live b t (nth_draw j rd (listsize b))"
    using exists_least_iff [of "\<lambda>k. live b t (nth_draw k rd (listsize b))"] by blast
  from choose_loop_hit [OF assms this] True show ?thesis using assms(3) by (auto simp: choose_file_def)
next
  case False
  with choose_loop_Some [OF _ assms] assms(3) show ?thesis unfolding choose_file_def by (cases "choose_loop b rd") auto
qed

text \<open>All files are deleted exactly when there are as many holes as numbers.\<close>

lemma unat_small: "k < 2 ^ 32 \<Longrightarrow> unat (of_nat k :: 32 word) = k" "unat (w :: 32 word) < 2 ^ 32"
  using unsigned_less [of w, where ?'a = nat] by (simp_all add: unsigned_of_nat take_bit_nat_eq_self)

lemma card_below: "card {n :: 32 word. n < m} = unat m"
proof -
  have "unat ` {n :: 32 word. n < m} = {..<unat m}"
  proof (intro equalityI subsetI)
    fix k assume "k \<in> {..<unat m}"
    then have k: "k < unat m" by simp
    then have "unat (of_nat k :: 32 word) = k" using unat_small(2) [of m] by (intro unat_small(1)) linarith
    with k show "k \<in> unat ` {n :: 32 word. n < m}" by (intro image_eqI [of _ _ "of_nat k"]) (simp_all add: word_less_nat_alt)
  qed (auto simp: word_less_nat_alt)
  moreover have "inj_on unat {n :: 32 word. n < m}" by (auto simp: inj_on_def word_unat_eq_iff)
  ultimately show ?thesis by (metis card_image card_lessThan)
qed

lemma fl_count:
  assumes "fl_inv b t xs td"
  shows "length (addrs t) + length xs = unat (listsize b)"
proof -
  have "length (objs t @ xs) = card (set (objs t @ xs))" using assms by (intro distinct_card [symmetric]) (auto simp: fl_inv_def)
  also have "\<dots> = card (fnums b ` set (objs t @ xs))" using assms unfolding fl_inv_def by (intro card_image [symmetric]) blast
  also have "fnums b ` set (objs t @ xs) = {n. n < listsize b}" using assms unfolding fl_inv_def by blast
  finally show ?thesis by (simp add: card_below)
qed

lemma holes_full:
  assumes "fl_inv b t xs td"
  shows "word_of_int (cl_count (holes b)) = listsize b \<longleftrightarrow> t = Lf"
proof -
  note l = fl_count [OF assms]
  have c: "cl_count (holes b) = int (length xs)" using assms by (intro holds_count) (simp add: fl_inv_def)
  have "unat (of_nat (length xs) :: 32 word) = length xs" using l unat_small(2) [of "listsize b"] by (intro unat_small(1)) linarith
  then have "of_nat (length xs) = listsize b \<longleftrightarrow> length xs = unat (listsize b)" by (auto simp: word_unat_eq_iff)
  also have "\<dots> \<longleftrightarrow> t = Lf" using l by (cases t) auto
  finally show ?thesis by (simp add: c)
qed

lemma choose_for_none:
  assumes "fl_inv b Lf xs td" "0 \<le> fileslock b"
  shows "choose_file_for k b rd = Some Fault"
  using holes_full [OF assms(1)] assms(2) by (subst choose_file_for.simps) (simp add: acquire_def)

text \<open>When no file is locked, the first number drawn that is in use decides.\<close>

lemma choose_for_hit:
  assumes I: "fl_inv b t xs td" and "0 \<le> fileslock b" "filled rd" "live b t (nth_draw j rd (listsize b))"
    "\<forall>p \<in> set (objs t). \<exists>f. fstore b p = Some f \<and> flock f = 0"
  shows "\<exists>p rd'. choose_file_for k b rd = Some (Ok (p, rd', set_lock p (take_it k 0) b)) \<and> p \<in> set (objs t) \<and> filled rd'"
proof -
  let ?b = "b\<lparr>fileslock := fileslock b + 1\<rparr>"
  have t: "t \<noteq> Lf" using assms(4) by auto
  then have "listsize b \<noteq> 0" using fl_count [OF I] by (cases t) auto
  then have n: "listsize ?b \<noteq> 0" by simp
  have I': "fl_inv ?b t xs td" using I by (simp add: fl_inv_def)
  have "\<exists>k. live ?b t (nth_draw k rd (listsize ?b))" using assms(4) by (intro exI [of _ j]) simp
  with choose_file_ends [OF I' assms(3) n] obtain p rd' where p: "choose_file ?b rd = Some (Ok (p, rd'))" "p \<in> set (objs t)" "filled rd'"
    by (simp only: if_True) blast
  obtain f where f: "fstore b p = Some f" "flock f = 0" using p(2) assms(5) by blast
  have "may_take k 0" by (cases k) auto
  then have "choose_file_for k b rd = Some (Ok (p, rd', set_lock p (take_it k 0) b))"
    using holes_full [OF I] assms(2) t p(1) f
    by (subst choose_file_for.simps) (simp add: acquire_def file_at_def release_list_def set_lock_def)
  with p show ?thesis by blast
qed

section \<open>Starting, and adding directories\<close>

lemma init_filelist_inv:
  assumes "uint numsub \<le> 2 ^ 31" "init_filelist mk bdir bname numsub builddirs = Ok b"
  shows "fl_inv b Lf [] Lf \<and> fileslock b = 0 \<and> numbers b Lf [] = ({}, [], 0)"
proof -
  have b: "listsize b = 0" "numsubdirs b = numsub" "fstore b = Map.empty" "files b = rbtree_construct" "dirs b = rbtree_construct"
    "fileslock b = 0" "holds (holes b) []" "holds (dholes b) []"
    using assms(2) by (auto simp: init_filelist_def init_rwlock_def Let_def intro!: holds_init)
  have "rep num rbtree_construct Lf" for num
    by (simp add: rep_def linked_def rbtree_construct_def rbtree_init_def ordered_def)
  with b assms(1) show ?thesis by (auto simp: fl_inv_def numbers_def)
qed

lemma add_dir_inv:
  assumes I: "fl_inv b t xs td" and A: "fileslock b = 0" "newp \<noteq> 0" "fstore b newp = None" "nd \<noteq> 0" "nodes (dirs b) nd = None"
    "uint (numsubdirs b) < 2 ^ 31"
  shows "\<exists>b' td'. add_dir newp nd b = Some (Ok (newp, b')) \<and> fl_inv b' t xs td' \<and> set (objs td') = insert newp (set (objs td)) \<and>
    fnums b' newp = numsubdirs b \<and> numsubdirs b' = numsubdirs b + 1 \<and> numbers b' t xs = numbers b t xs"
proof -
  let ?n = "numsubdirs b" and ?nf = "\<lparr>fname = None, fsize = 0, flock = 0, fnum = numsubdirs b\<rparr>"
  let ?b = "b\<lparr>fstore := (fstore b)(newp \<mapsto> ?nf), fileslock := - 1, numsubdirs := ?n + 1\<rparr>"
  have h: "rep (fnums b) (files b) t" "rep (fnums b) (dirs b) td" "holds (dholes b) []" "newp \<notin> set (objs t @ xs @ objs td)"
    "\<forall>x \<in> set (objs td). fnums b x < ?n" using I A(3) by (auto simp: fl_inv_def)
  have fn: "fnums ?b = (fnums b)(newp := ?n)" by (simp add: fnums_def fun_eq_iff)
  have r: "rep (fnums ?b) (dirs b) td" "rep (fnums ?b) (files b) t" using rep_cong [OF h(2)] rep_cong [OF h(1)] h(4) unfolding fn by auto
  have sm: "small (fnums ?b) newp" using A(6) by (simp add: fn small_def)
  have ne: "\<forall>y \<in> set (objs td). fnums ?b y \<noteq> fnums ?b newp" using h(4,5) unfolding fn by (auto dest: bspec)
  obtain s' td' where s': "rbtree_insert (fnums ?b) nd newp (dirs b) = Some (Ok (nd, s'))" "rep (fnums ?b) s' td'"
    "objs td' = ins_num (fnums ?b) newp (objs td)" using rbtree_insert_rep [OF r(1) sm A(4,5) ne] by blast
  have so: "set (objs td') = insert newp (set (objs td))" unfolding s'(3) by (rule set_ins_num [OF ne])
  let ?b' = "b\<lparr>dirs := s', numsubdirs := ?n + 1, fstore := (fstore b)(newp \<mapsto> ?nf\<lparr>flock := - 1, fname := Some (subdir_name b (sint ?n))\<rparr>)\<rparr>"
  have e: "next_dir newp (b\<lparr>fstore := (fstore b)(newp \<mapsto> ?nf\<lparr>fnum := 0\<rparr>), fileslock := - 1\<rparr>) = Ok ?b"
    by (simp add: next_dir_def upd_file_def file_at_def)
  have d: "enter_dir nd newp ?b = Some (Ok (?b\<lparr>dirs := s', fstore := (fstore b)(newp \<mapsto> ?nf\<lparr>flock := - 1\<rparr>)\<rparr>))"
    using s'(1) by (simp add: enter_dir_def lock_file_def file_at_def acquire_def set_lock_def)
  have "add_dir newp nd b = Some (Ok (newp, ?b'))"
    using e d h(3) A(1,2) by (simp add: add_dir_def new_file_def upd_file_def file_at_def acquire_def release_list_def subdir_name_def)
  moreover have fb: "fnums ?b' = fnums ?b" by (simp add: fnums_def fun_eq_iff)
  moreover have "fl_inv ?b' t xs td'"
  proof -
    have "distinct (objs t @ xs @ objs td')" using rep_distinct [OF s'(2)] I so h(4) by (auto simp: fl_inv_def)
    moreover have "fnums ?b x = fnums b x" if "x \<in> set (objs t @ xs)" for x using that h(4) by (auto simp: fn)
    then have "inj_on (fnums ?b) (set (objs t @ xs)) = inj_on (fnums b) (set (objs t @ xs))" "fnums ?b ` set (objs t @ xs) = fnums b ` set (objs t @ xs)"
      by (auto simp: inj_on_def intro!: image_cong)
    moreover have "\<forall>x \<in> set (objs td'). fnums ?b x < ?n + 1" using so h(4,5) below_Suc(1) [OF A(6)] by (auto simp: fn)
    ultimately show ?thesis using I s'(2) r so A(2) below_Suc(2) [OF A(6)] unfolding fl_inv_def fb by auto
  qed
  moreover have "numbers ?b' t xs = numbers b t xs" unfolding numbers_def fb using h(4) by (auto simp: fn)
  ultimately show ?thesis using so by (intro exI [of _ ?b'] exI [of _ td']) simp
qed

section \<open>Names\<close>

definition plain :: "cstr \<Rightarrow> bool" where
  "plain s \<longleftrightarrow> (\<forall>c \<in> set s. \<not> is_space c \<and> c \<noteq> CHR ''%'' \<and> c \<noteq> CHR ''/'')"

text \<open>The part of a path after the last slash.\<close>

definition last_part :: "cstr \<Rightarrow> cstr" where
  "last_part path = rev (takeWhile (\<lambda>c. c \<noteq> CHR ''/'') (rev path))"

lemma last_part_slash: "CHR ''/'' \<notin> set s \<Longrightarrow> last_part (d @ CHR ''/'' # s) = s"
  unfolding last_part_def by (subst rev_append, subst rev.simps, subst append_assoc, subst takeWhile_append2) auto

lemma scan_fmt_lit:
  "plain pre \<Longrightarrow> scan_fmt (pre @ ''%d'') (pre @ s) = Ok (map_option (\<lambda>(neg, n, rest). int_of_scan neg n) (scan_number s))"
  by (induction pre) (auto simp: plain_def is_space_def)

lemma plain_bases [simp]: "plain FILENAME_BASE" "plain SUBDIRNAME_BASE"
  by (simp_all add: plain_def FILENAME_BASE_def SUBDIRNAME_BASE_def is_space_def)

lemma plain_append [simp]: "plain (a @ b) \<longleftrightarrow> plain a \<and> plain b"
  by (auto simp: plain_def)

lemma slash_free: "plain s \<Longrightarrow> CHR ''/'' \<notin> set s" "CHR ''/'' \<notin> set (dec_nat n)"
  using dec_nat_digits [of n] by (auto simp: plain_def is_digit_def)

lemma validate_dec:
  assumes "plain (basename b)" "plain base" "length (basename b @ base) + 2 < FILENAME_MAX" "n < 2 ^ 31"
  shows "validate_name base b (basename b @ base @ dec_nat n) = Ok (int n)"
proof -
  have "scan_fmt ((basename b @ base) @ ''%d'') ((basename b @ base) @ dec_nat n) = Ok (Some (int_of_scan False n))"
    using scan_number_dec [of "[]" n] assms(1,2) by (subst scan_fmt_lit) simp_all
  moreover have "int_of_scan False n = int n" using assms(4) by (simp add: int_of_scan_def to_int32_id)
  ultimately show ?thesis using assms(3) by (simp add: validate_name_def Let_def)
qed

lemma file_name_last:
  assumes "plain (basename b)" "length (basedir b) + 2 * length (basename b) + 40 < FILENAME_MAX" "0 \<le> r" "r < 2 ^ 31" "n < 2 ^ 31"
  shows "last_part (file_name b r (int n)) = basename b @ FILENAME_BASE @ dec_nat n"
proof -
  have "n < 10 ^ 10" "nat (r - 1) < 10 ^ 10" using assms(3-5) by simp_all
  then have l: "length (dec_nat n) \<le> 10" "length (dec_int (r - 1)) \<le> 11 \<or> r = 0"
    using length_dec_nat [of n 10] length_dec_nat [of "nat (r - 1)" 10] assms(3) by (auto simp: dec_int_def)
  let ?s = "basename b @ FILENAME_BASE @ dec_nat n"
  have n: "CHR ''/'' \<notin> set ?s" using slash_free assms(1) plain_bases by simp
  have i: "dec_int (int n) = dec_nat n" by (simp add: dec_int_def)
  show ?thesis
  proof (cases "r = 0")
    case True
    then have "file_name b r (int n) = basedir b @ CHR ''/'' # ?s"
      using assms(2) l(1) by (simp add: file_name_def snprintf_def i FILENAME_BASE_def)
    then show ?thesis using last_part_slash [OF n, of "basedir b"] by simp
  next
    case False
    let ?d = "basedir b @ CHR ''/'' # basename b @ SUBDIRNAME_BASE @ dec_int (r - 1)"
    have "file_name b r (int n) = ?d @ CHR ''/'' # ?s"
      using False assms(2) l by (simp add: file_name_def snprintf_def i FILENAME_BASE_def SUBDIRNAME_BASE_def)
    then show ?thesis using last_part_slash [OF n, of ?d] by simp
  qed
qed

section \<open>Freeing the list\<close>

lemma tree_at_cong: "(\<And>a. a \<in> set (addrs t) \<Longrightarrow> h' a = h a) \<Longrightarrow> tree_at h' p t = tree_at h p t"
  by (induction t arbitrary: p) auto

lemma destruct_tree:
  assumes "tree_at (nodes s) b t" "distinct (addrs t)"
  shows "\<exists>os. rbnode_destruct True s (rt t) = Some (Ok (os, s\<lparr>nodes := nodes s |` (- set (addrs t))\<rparr>)) \<and> mset os = mset (objs t)"
  using assms
proof (induction t arbitrary: b s)
  case Lf
  show ?case by (subst rbnode_destruct.simps) (simp add: restrict_map_def)
next
  case (Nd a c ob l r)
  let ?s1 = "s\<lparr>nodes := nodes s |` (- set (addrs r))\<rparr>"
  obtain o1 where o1: "rbnode_destruct True s (rt r) = Some (Ok (o1, ?s1))" "mset o1 = mset (objs r)"
    using Nd.IH(2) [of s a] Nd.prems by auto
  have "nodes ?s1 x = nodes s x" if "x \<in> set (addrs l)" for x using Nd.prems(2) that by (auto simp: restrict_map_def)
  then have "tree_at (nodes ?s1) a l" using Nd.prems(1) tree_at_cong [of l "nodes ?s1" "nodes s" a] by simp
  then obtain o2 where o2: "rbnode_destruct True ?s1 (rt l) = Some (Ok (o2, ?s1\<lparr>nodes := nodes ?s1 |` (- set (addrs l))\<rparr>))" "mset o2 = mset (objs l)"
    using Nd.IH(1) [of ?s1 a] Nd.prems by auto
  have e: "(nodes s |` (- set (addrs r)) |` (- set (addrs l)))(a := None) = nodes s |` (- set (addrs (Nd a c ob l r)))"
    by (auto simp: restrict_map_def fun_eq_iff)
  have "rbnode_destruct True s a = Some (Ok (ob # o1 @ o2, s\<lparr>nodes := nodes s |` (- set (addrs (Nd a c ob l r)))\<rparr>))"
    using Nd.prems o1(1) o2(1) e
    by (subst rbnode_destruct.simps) (auto simp: node_def free_node_def rec_left_right restrict_map_def)
  with o1(2) o2(2) show ?case by simp
qed

lemma destruct_all_ok:
  "distinct ps \<Longrightarrow> set ps \<subseteq> dom (fstore b) \<Longrightarrow> destruct_all ps b = Ok (b\<lparr>fstore := fstore b |` (- set ps)\<rparr>)"
proof (induction ps arbitrary: b)
  case (Cons p ps)
  let ?b = "b\<lparr>fstore := (fstore b)(p := None)\<rparr>"
  have "file_destructor p b = Ok ?b" using Cons.prems by (auto simp: file_destructor_def file_at_def)
  moreover have "destruct_all ps ?b = Ok (?b\<lparr>fstore := fstore ?b |` (- set ps)\<rparr>)" using Cons.prems by (intro Cons.IH) auto
  moreover have "(fstore b)(p := None) |` (- set ps) = fstore b |` (- set (p # ps))" by (auto simp: restrict_map_def fun_eq_iff)
  ultimately show ?case by simp
qed (simp add: restrict_map_def)

lemma drain_holes_ok:
  "holds (holes b) xs \<Longrightarrow> distinct xs \<Longrightarrow> set xs \<subseteq> dom (fstore b) \<Longrightarrow>
    \<exists>cl. drain_holes b = Some (Ok (b\<lparr>holes := cl, fstore := fstore b |` (- set xs)\<rparr>)) \<and> holds cl []"
proof (induction xs arbitrary: b)
  case Nil
  then have "cl_empty (holes b)" by simp
  with Nil show ?case by (subst drain_holes.simps) (auto simp: restrict_map_def intro!: exI [of _ "holes b"])
next
  case (Cons x xs)
  obtain cl where cl: "cl_remove_head (holes b) = Ok (x, cl)" "holds cl xs" using cq.get_law [OF Cons.prems(1)] by blast
  let ?b = "b\<lparr>holes := cl, fstore := (fstore b)(x := None)\<rparr>"
  have p: "holds (holes ?b) xs" "distinct xs" "set xs \<subseteq> dom (fstore ?b)" using Cons.prems cl(2) by auto
  obtain cl' where cl': "drain_holes ?b = Some (Ok (?b\<lparr>holes := cl', fstore := fstore ?b |` (- set xs)\<rparr>))" "holds cl' []"
    using Cons.IH [OF p] by blast
  have ne: "\<not> cl_empty (holes b)" using Cons.prems(1) by simp
  have d: "file_destructor x (b\<lparr>holes := cl\<rparr>) = Ok ?b" using Cons.prems(3) by (auto simp: file_destructor_def file_at_def)
  have e: "(fstore b)(x := None) |` (- set xs) = fstore b |` (- set (x # xs))" by (auto simp: restrict_map_def fun_eq_iff)
  have "drain_holes b = Some (Ok (b\<lparr>holes := cl', fstore := fstore b |` (- set (x # xs))\<rparr>))"
    using ne cl(1) d cl'(1) e by (subst drain_holes.simps) simp
  with cl'(2) show ?case by blast
qed

section \<open>Properties\<close>

text \<open>A list as \<^verbatim>\<open>init_filelist\<close> leaves it, and one with a file in the tree.\<close>

definition demo_list :: benchfiles where
  "demo_list =
     \<lparr>basedir = ''/data'', basename = ''fs'', numsubdirs = 3, files = rbtree_construct, dirs = rbtree_construct,
      holes = \<lparr>cl_count = 0, cl_head = 0, cl_nodes = Map.empty\<rparr>, dholes = \<lparr>cl_count = 0, cl_head = 0, cl_nodes = Map.empty\<rparr>,
      fileslock = 0, listsize = 0, fstore = Map.empty\<rparr>"

definition demo_one :: benchfiles where
  "demo_one = demo_list
     \<lparr>files := \<lparr>nodes = [2 \<mapsto> \<lparr>object = 1, color = Black, parent = 0, right = 0, left = 0\<rparr>], root = 2, isize = 1\<rparr>,
      listsize := 1, fstore := [1 \<mapsto> \<lparr>fname = Some ''/data/fsfile0'', fsize = 8, flock = 0, fnum = 0\<rparr>]\<rparr>"

definition demo_one_tree :: tree where
  "demo_one_tree = Nd 2 Black 1 Lf Lf"

lemma demo_list_inv: "fl_inv demo_list Lf [] Lf"
proof -
  have "init_filelist (\<lambda>_. None) ''/data'' ''fs'' 3 False = Ok demo_list"
    by (simp add: init_filelist_def demo_list_def init_cirlist_def init_rwlock_def Let_def)
  from init_filelist_inv [OF _ this] show ?thesis by simp
qed

lemma demo_one_inv: "fl_inv demo_one demo_one_tree [] Lf"
proof -
  have "{n :: 32 word. n < 1} = {0}" using below_Suc(1) [of 0] by simp
  moreover have "holds (holes demo_one) []" "holds (dholes demo_one) []" "rep num (dirs demo_one) Lf" for num
    using demo_list_inv by (auto simp: fl_inv_def demo_one_def intro: rep_cong)
  moreover have "rep (fnums demo_one) (files demo_one) demo_one_tree"
    by (simp add: demo_one_def demo_one_tree_def rep_def linked_def rec_def ordered_def small_def fnums_def)
  ultimately show ?thesis by (simp add: fl_inv_def demo_one_tree_def) (simp add: demo_one_def demo_list_def fnums_def)
qed

text \<open>
  C10: Adding a file implements the specification of the numbers: the file has the number that waits longest in the
  queue of holes, or the next new one if there is none; every number below \<^verbatim>\<open>listsize\<close> still belongs to one file, in
  the tree or in the queue; and the file that is returned is in the tree and locked for writing.
\<close>

theorem filelist_add_refines:
  assumes I: "fl_inv b t xs td" and A: "fileslock b = 0" "newp \<noteq> 0" "fstore b newp = None" "nd \<noteq> 0" "nodes (files b) nd = None"
    "uint (listsize b) < 2 ^ 31" "filled rd" "xs \<noteq> [] \<Longrightarrow> \<exists>f. fstore b (hd xs) = Some f \<and> flock f = 0"
  shows "\<exists>p rd' b' t' xs'. add_file newp nd sz rd b = Some (Ok (p, rd', b')) \<and> fl_inv b' t' xs' td \<and>
    spec_add (numbers b t xs) = (fnums b' p, numbers b' t' xs') \<and> p \<in> set (objs t') \<and> (\<exists>f. fstore b' p = Some f \<and> flock f = - 1)"
proof (cases xs)
  case Nil
  obtain s' t' rd' and r :: "32 word" where s': "add_file newp nd sz rd b =
      Some (Ok (newp, rd', b\<lparr>files := s', listsize := listsize b + 1,
        fstore := (fstore b)(newp \<mapsto> \<lparr>fname = Some (file_name b (sint r) (sint (listsize b))), fsize = sz, flock = - 1, fnum = listsize b\<rparr>)\<rparr>))"
    "rep ((fnums b)(newp := listsize b)) s' t'" "set (objs t') = insert newp (set (objs t))"
    using add_file_fresh [OF I [unfolded Nil] A(1-7), of sz] by blast
  let ?b = "b\<lparr>files := s', listsize := listsize b + 1,
        fstore := (fstore b)(newp \<mapsto> \<lparr>fname = Some (file_name b (sint r) (sint (listsize b))), fsize = sz, flock = - 1, fnum = listsize b\<rparr>)\<rparr>"
  have "fl_inv ?b t' [] td \<and> fnums ?b newp = listsize b \<and>
      numbers ?b t' [] = (insert (listsize b) (fnums b ` set (objs t)), map (fnums b) [], listsize b + 1)"
    by (rule fl_inv_fresh [OF I [unfolded Nil] s'(2,3) A(2,3,6) _ refl]) simp
  then have "fl_inv ?b t' [] td \<and> spec_add (numbers b t []) = (fnums ?b newp, numbers ?b t' [])"
    by (simp add: numbers_def del: fnums_at fnums_simps)
  with s'(1,3) Nil show ?thesis
    by (intro exI [of _ newp] exI [of _ rd'] exI [of _ ?b] exI [of _ t'] exI [of _ "[]"]) simp
next
  case (Cons x ys)
  obtain f where f: "fstore b x = Some f" "flock f = 0" using A(8) Cons by auto
  obtain s' t' cl' where s': "add_file newp nd sz rd b =
      Some (Ok (x, rd, b\<lparr>files := s', holes := cl', fstore := (fstore b)(x \<mapsto> f\<lparr>flock := - 1\<rparr>)\<rparr>))"
    "rep (fnums b) s' t'" "set (objs t') = insert x (set (objs t))" "holds cl' ys"
    using add_file_hole [OF I [unfolded Cons] A(1-5) f, of sz rd] by blast
  let ?b = "b\<lparr>files := s', holes := cl', fstore := (fstore b)(x \<mapsto> f\<lparr>flock := - 1\<rparr>)\<rparr>"
  have "fl_inv ?b t' ys td \<and> spec_add (numbers b t (x # ys)) = (fnums ?b x, numbers ?b t' ys)"
    by (rule fl_inv_hole [OF I [unfolded Cons] s'(2-4) f(1) refl])
  with s'(1,3) Cons show ?thesis
    by (intro exI [of _ x] exI [of _ rd] exI [of _ ?b] exI [of _ t'] exI [of _ ys]) simp
qed

theorem filelist_add_refines_witness:
  "\<exists>p rd' b' t' xs'. add_file 4 5 100 demo_rand demo_one = Some (Ok (p, rd', b')) \<and> fl_inv b' t' xs' Lf \<and>
    (1, ({0, 1}, [], 2)) = (fnums b' p, numbers b' t' xs') \<and> p \<in> set (objs t') \<and> (\<exists>f. fstore b' p = Some f \<and> flock f = - 1)"
proof -
  have "spec_add (numbers demo_one demo_one_tree []) = (1, ({0, 1}, [], 2))"
    by (auto simp: numbers_def demo_one_def demo_one_tree_def fnums_def)
  with filelist_add_refines [OF demo_one_inv, of 4 5 demo_rand 100] demo_rand_filled show ?thesis
    by (simp add: demo_one_def demo_list_def)
qed

text \<open>
  C16: Removing a file implements the specification: its number goes to the end of the queue of the numbers to use again,
  and every number below \<^verbatim>\<open>listsize\<close> still belongs to one file. \<^verbatim>\<open>listsize\<close> itself is not changed.
\<close>

theorem filelist_remove_refines:
  assumes I: "fl_inv b t xs td" and A: "fileslock b = 0" "x \<in> set (objs t)" "cn \<noteq> 0" "cl_nodes (holes b) cn = None"
  shows "\<exists>b' t'. remove_file cn x b = Some (Ok b') \<and> fl_inv b' t' (xs @ [x]) td \<and>
    numbers b' t' (xs @ [x]) = spec_remove (fnums b x) (numbers b t xs)"
proof -
  have h: "rep (fnums b) (files b) t" "holds (holes b) xs" "inj_on (fnums b) (set (objs t @ xs))" using I by (auto simp: fl_inv_def)
  have sm: "small (fnums b) x" using fl_small [OF I] A(2) by simp
  obtain s' t' where s': "rbtree_remove (fnums b) False x (files b) = Some (Ok ([], s'))" "rep (fnums b) s' t'"
    "objs t' = filter (\<lambda>y. fnums b y \<noteq> fnums b x) (objs t)" using remove_rep [OF h(1) sm, of False] A(2) by auto
  have so: "set (objs t') = set (objs t) - {x}" unfolding s'(3) using h(3) A(2) by (auto simp: inj_on_def)
  obtain cl' where cl: "cl_insert_tail cn x (holes b) = Ok cl'" "holds cl' (xs @ [x])"
    using cq.put_law [OF h(2) A(3)] A(4) by (metis domIff)
  let ?b = "b\<lparr>files := s', holes := cl'\<rparr>"
  have "remove_file cn x b = Some (Ok ?b)" using A(1) s'(1) cl(1) by (simp add: remove_file_def acquire_def release_list_def)
  moreover have "fl_inv ?b t' (xs @ [x]) td"
  proof -
    have "distinct (objs t' @ (xs @ [x]) @ objs td)" using rep_distinct [OF s'(2)] I so A(2) by (auto simp: fl_inv_def)
    moreover have "set (objs t' @ xs @ [x]) = set (objs t @ xs)" using so A(2) by auto
    ultimately show ?thesis using I s'(2) cl(2) A(2) unfolding fl_inv_def by auto
  qed
  moreover have "fnums b ` (set (objs t) - {x}) = fnums b ` set (objs t) - {fnums b x}" using h(3) A(2) by (auto simp: inj_on_def)
  ultimately show ?thesis using so by (intro exI [of _ ?b] exI [of _ t']) (simp add: numbers_def)
qed

theorem filelist_remove_refines_witness:
  "\<exists>b' t'. remove_file 6 1 demo_one = Some (Ok b') \<and> fl_inv b' t' [1] Lf \<and> numbers b' t' [1] = ({}, [0], 1)"
proof -
  have "spec_remove (fnums demo_one 1) (numbers demo_one demo_one_tree []) = ({}, [0], 1)"
    by (simp add: numbers_def demo_one_def demo_one_tree_def fnums_def)
  with filelist_remove_refines [OF demo_one_inv, of 1 6] show ?thesis by (simp add: demo_one_def demo_list_def demo_one_tree_def)
qed

text \<open>
  C18: Choosing a file at random ends exactly if one of the numbers that the generator gives belongs to an existing file, and then
  with such a file. As the buffer of random bytes is read round and round, there may be no such number.
\<close>

theorem choose_file_ends_iff:
  assumes "fl_inv b t xs td" "filled rd" "listsize b \<noteq> 0"
  shows "if \<exists>k. nth_draw k rd (listsize b) \<in> fnums b ` set (objs t)
    then \<exists>p rd'. choose_file b rd = Some (Ok (p, rd')) \<and> p \<in> set (objs t) \<and> filled rd' else choose_file b rd = None"
  by (rule choose_file_ends [OF assms])

theorem choose_file_ends_iff_witness: "\<exists>rd'. choose_file demo_one demo_rand = Some (Ok (1, rd')) \<and> filled rd'"
proof -
  have "nth_draw 0 demo_rand (listsize demo_one) \<in> fnums demo_one ` set (objs demo_one_tree)"
    by (simp add: drawn_def getrandom_def demo_one_def demo_one_tree_def fnums_def)
  then have "\<exists>k. nth_draw k demo_rand (listsize demo_one) \<in> fnums demo_one ` set (objs demo_one_tree)" by blast
  moreover have "listsize demo_one \<noteq> 0" by (simp add: demo_one_def)
  ultimately show ?thesis using choose_file_ends_iff [OF demo_one_inv demo_rand_filled] by (simp add: demo_one_tree_def)
qed

text \<open>
  C27: The number in the last part of a path that a new file gets is read back by \<^verbatim>\<open>validate_filename\<close>, for names without
  blanks, percent signs and slashes that fit in the buffer. So different numbers give different paths.
\<close>

theorem file_number_read_back:
  assumes "plain (basename b)" "length (basedir b) + 2 * length (basename b) + 40 < FILENAME_MAX" "0 \<le> r" "r < 2 ^ 31" "n < 2 ^ 31"
  shows "validate_filename b (last_part (file_name b r (int n))) = Ok (int n)"
  unfolding file_name_last [OF assms] validate_filename_def
  using assms(2) by (intro validate_dec [OF assms(1) plain_bases(1) _ assms(5)]) (simp add: FILENAME_BASE_def)

theorem file_number_read_back_witness: "validate_filename demo_list (last_part (file_name demo_list 2 (int 57))) = Ok (int 57)"
  by (rule file_number_read_back) (simp_all add: demo_list_def plain_def is_space_def FILENAME_MAX_def)

text \<open>
  C26: Destroying the list frees each file of the tree and of the queue once and every node of the tree, and ends without a
  fault; the structures of the directories are not freed.
\<close>

theorem filelist_freed:
  assumes I: "fl_inv b t xs td"
  shows "\<exists>b'. destroy_filelist b = Some (Ok b') \<and> fstore b' = fstore b |` (- set (objs t @ xs)) \<and> dom (nodes (files b')) = {} \<and> set (objs td) \<subseteq> dom (fstore b')"
proof -
  have h: "holds (holes b) xs" "distinct xs" "set xs \<subseteq> dom (fstore b)" "rep (fnums b) (files b) t" "distinct (objs t)"
    "set (objs t) \<subseteq> dom (fstore b)" "set xs \<inter> set (objs t) = {}" "set (objs td) \<inter> set (objs t @ xs) = {}" "set (objs td) \<subseteq> dom (fstore b)"
    using I by (auto simp: fl_inv_def)
  obtain cl where cl: "drain_holes b = Some (Ok (b\<lparr>holes := cl, fstore := fstore b |` (- set xs)\<rparr>))" using drain_holes_ok [OF h(1-3)] by blast
  let ?b = "b\<lparr>holes := cl, fstore := fstore b |` (- set xs)\<rparr>"
  have L: "tree_at (nodes (files b)) 0 t" "distinct (addrs t)" "root (files b) = rt t" "dom (nodes (files b)) = set (addrs t)"
    using h(4) by (auto simp: rep_def linked_def)
  obtain os where os: "rbnode_destruct True (files b) (rt t) = Some (Ok (os, (files b)\<lparr>nodes := nodes (files b) |` (- set (addrs t))\<rparr>))"
    "mset os = mset (objs t)" using destruct_tree [OF L(1,2)] by blast
  let ?s = "(files b)\<lparr>nodes := nodes (files b) |` (- set (addrs t)), root := 0, isize := 0\<rparr>"
  have c: "rbtree_clean True (files b) = Some (Ok (os, ?s))"
  proof (cases "rt t = 0")
    case True
    then have "t = Lf" using rt_zero [OF L(1)] by simp
    with os L show ?thesis by (auto simp: rbtree_clean_def restrict_map_def)
  next
    case False
    with os L(3) show ?thesis by (simp add: rbtree_clean_def)
  qed
  have so: "set os = set (objs t)" "distinct os" using os(2) h(5) by (metis set_mset_mset, metis mset_eq_imp_distinct_iff)
  have d: "destruct_all os (?b\<lparr>files := ?s\<rparr>) = Ok (?b\<lparr>files := ?s, fstore := fstore b |` (- set xs) |` (- set os)\<rparr>)"
  proof -
    have "set os \<subseteq> dom (fstore (?b\<lparr>files := ?s\<rparr>))" using h(6,7) so(1) by auto
    from destruct_all_ok [OF so(2) this] show ?thesis by simp
  qed
  have "destroy_filelist b = Some (Ok (?b\<lparr>files := ?s, fstore := fstore b |` (- set xs) |` (- set os)\<rparr>))"
    using cl c d by (simp add: destroy_filelist_def)
  moreover have "fstore b |` (- set xs) |` (- set os) = fstore b |` (- set (objs t @ xs))" using so(1) by (auto simp: restrict_map_def fun_eq_iff)
  ultimately show ?thesis using L(4) h(8,9) by (auto simp del: dom_eq_empty_conv)
qed

theorem filelist_freed_witness: "\<exists>b'. destroy_filelist demo_one = Some (Ok b') \<and> fstore b' 1 = None \<and> dom (nodes (files b')) = {}"
  using filelist_freed [OF demo_one_inv] by (auto simp: demo_one_tree_def)

end
