(* ===== verification/Spec2Isabelle.thy ===== *)
theory Spec2Isabelle
  imports Splitstr Zoolib Pan_Sched Tst_Res Random_Range Tag_Report Write_Log Open_Flags Parse_Opts Ffsb_Choose
begin

text \<open>
  A verification development of the programs and the library of the Linux Test Project that run,
  record and report tests.

  \<^bold>\<open>The parts.\<close> The driver \<^verbatim>\<open>pan\<close> (\<^verbatim>\<open>pan/ltp-pan.c\<close>) reads a command file, keeps a number of tests
  running, forwards signals to them, reaps them and logs their ends. It registers itself and every
  running test in the zoo (\<^verbatim>\<open>pan/zoolib.c\<close>), a file of lines of 80 characters shared by drivers, and
  cuts command lines into words with \<^verbatim>\<open>pan/splitstr.c\<close>. The scanner of pan's output keeps what it
  reads in a tree of keys (\<^verbatim>\<open>pan/symbol.c\<close>) and prints reports from it (\<^verbatim>\<open>pan/tag_report.c\<close>,
  \<^verbatim>\<open>pan/reporter.c\<close>). A test is linked with the library: it reads its options and decides how often to
  loop (\<^verbatim>\<open>lib/parse_opts.c\<close>), asks for the kernel version (\<^verbatim>\<open>lib/tst_kvercmp.c\<close>), reports results and
  exits with a status that pan counts (\<^verbatim>\<open>lib/tst_res.c\<close>). The I/O tests draw parameters from ranges
  (\<^verbatim>\<open>lib/random_range.c\<close>), name open flags (\<^verbatim>\<open>lib/open_flags.c\<close>), fill buffers with data they can
  check (\<^verbatim>\<open>lib/pattern.c\<close>, \<^verbatim>\<open>lib/dataascii.c\<close>, \<^verbatim>\<open>lib/databin.c\<close>) and log their writes
  (\<^verbatim>\<open>lib/write_log.c\<close>). The benchmark ffsb that comes with the project keeps the files it works on in a
  red-black tree and the deleted ones in a circular list, under readers-writer locks
  (\<^verbatim>\<open>utils/ffsb-6.0-rc2\<close>).

  \<^bold>\<open>Conventions.\<close> Every C function is a definition of the same name, or a few definitions for its
  loops and blocks. A C string is a \<^verbatim>\<open>string\<close> without NUL, a buffer in memory is a list of bytes, C
  integers are integers with the wrap-around or the overflow written out. A function that may end
  the process or run into undefined behaviour returns an outcome: \<^verbatim>\<open>Ok\<close> a value, \<^verbatim>\<open>Exit\<close> a status or
  \<^verbatim>\<open>Fault\<close>. What the operating system and the C library answer (fork, wait, kill, the clock,
  getopt, random numbers, failures of malloc) are arguments. A loop that need not end is a
  \<^verbatim>\<open>partial_function (option)\<close>, and that it ends is a theorem; the loops over a tree of keys have the
  number of allocated blocks as their bound, which every chain of distinct blocks respects.

  \<^bold>\<open>The theories.\<close>
  \<^item> \<^verbatim>\<open>LTP_Prelude\<close>: outcomes, C strings and their library functions, numbers as text, wait status
    words, result flags, memory blocks, C division and overflow.
  \<^item> \<^verbatim>\<open>Splitstr\<close>: \<^verbatim>\<open>splitstr\<close>, \<^verbatim>\<open>splitstr_free\<close>, \<^verbatim>\<open>string_to_tokens\<close>. The tokens are those of the
    reference function, inside the growing array.
  \<^item> \<^verbatim>\<open>Zoolib\<close>: the zoo file. \<^verbatim>\<open>zoo_mark\<close> and \<^verbatim>\<open>zoo_clear\<close> refine first-fit insertion and removal on a
    list of lines; the locale \<^verbatim>\<open>pid_registry\<close> is what pan relies on and is interpreted on them.
  \<^item> \<^verbatim>\<open>Pan_Collection\<close>, \<^verbatim>\<open>Pan_Signal\<close>, \<^verbatim>\<open>Pan_Run\<close>, \<^verbatim>\<open>Pan_Setup\<close>, \<^verbatim>\<open>Pan_Sched\<close>: pan, in the order of its
    work: \<^verbatim>\<open>get_collection\<close>; \<^verbatim>\<open>wait_handler\<close>, \<^verbatim>\<open>propagate_signal\<close>, \<^verbatim>\<open>check_orphans\<close>; \<^verbatim>\<open>run_child\<close> and
    \<^verbatim>\<open>check_pids\<close>; the options and the setup of \<^verbatim>\<open>main\<close>; its loop as a step relation in which signals
    arrive between any two steps. The invariant ties the count of active tests, the slots, the
    orphans and the zoo together along every run.
  \<^item> \<^verbatim>\<open>Symbol\<close>, \<^verbatim>\<open>Symbol_Tree\<close>, \<^verbatim>\<open>Tag_Report\<close>: the table of keys on an explicit store of blocks, that it
    refines a tree of keys (locale \<^verbatim>\<open>key_table\<close>), what \<^verbatim>\<open>sym_rm\<close> frees, and the reports.
  \<^item> \<^verbatim>\<open>Name_Tables\<close>, \<^verbatim>\<open>Tst_Res\<close>: names of errors and signals; results, condensed output and exit
    codes.
  \<^item> \<^verbatim>\<open>Kver\<close>, \<^verbatim>\<open>Parse_Opts\<close>: kernel versions; options, environment and the loop of a test.
  \<^item> \<^verbatim>\<open>Random_Range\<close>, \<^verbatim>\<open>Open_Flags\<close>: ranges and random numbers in them; names of flags.
  \<^item> \<^verbatim>\<open>Data_Gen\<close>, \<^verbatim>\<open>Write_Log\<close>: generators and checkers of data (locale \<^verbatim>\<open>data_pair\<close> for the two pairs of
    functions that make and check data by position); the log of writes with its packed records and
    the backward scan.
  \<^item> \<^verbatim>\<open>Ffsb_Rbt\<close>, \<^verbatim>\<open>Ffsb_Tree\<close>, \<^verbatim>\<open>Ffsb_Insert\<close>, \<^verbatim>\<open>Ffsb_Remove\<close>: the red-black trees of the benchmark ffsb
    (\<^verbatim>\<open>utils/ffsb-6.0-rc2/rbt.c\<close>) on a store of nodes with parent pointers; the trees that a store holds
    and the places in them; insertion and search; removal. Insertion keeps the order and the red-black
    properties; removal keeps the order and the links, but not always the black heights.
  \<^item> \<^verbatim>\<open>Ffsb_Cirlist\<close>: circular doubly linked lists (\<^verbatim>\<open>cirlist.c\<close>), which implement a queue; the locale \<^verbatim>\<open>fifo\<close>
    is what its clients rely on and is interpreted on them.
  \<^item> \<^verbatim>\<open>Ffsb_Rwlock\<close>: the readers-writer lock (\<^verbatim>\<open>rwlock.c\<close>) with any number of threads as a step relation over
    mutex, condition variable and count; exclusion, and that no wake-up is lost.
  \<^item> \<^verbatim>\<open>Ffsb_Rand\<close>: the buffer of random bytes (\<^verbatim>\<open>rand.c\<close>) and the bounds of the numbers made from it.
  \<^item> \<^verbatim>\<open>Ffsb_Filelist\<close>, \<^verbatim>\<open>Ffsb_Choose\<close>: the list of files (\<^verbatim>\<open>filelist.c\<close>) built from the four components before:
    files in a tree by number, deleted ones in a queue. Adding and removing refine an allocator of
    numbers; when choosing a file at random ends; names; what is freed with the list.

  This theory holds the properties that join components: an error in the options ends a test as
  broken (\<^verbatim>\<open>Parse_Opts\<close> with \<^verbatim>\<open>Tst_Res\<close>), and pan counts a test as an error exactly for its bad
  results (\<^verbatim>\<open>Tst_Res\<close> with \<^verbatim>\<open>Pan_Run\<close>).

  \<^bold>\<open>Not modelled.\<close> The lexical scanner \<^verbatim>\<open>pan/scan.l\<close> is generated by lex. The wrappers of system calls
  (\<^verbatim>\<open>lib/safe_*.c\<close>) and the functions on processes, devices, mounts and file systems (\<^verbatim>\<open>lib/tst_*.c\<close>
  other than those above, \<^verbatim>\<open>lib/forker.c\<close>, \<^verbatim>\<open>lib/rmobj.c\<close>, \<^verbatim>\<open>lib/cloner.c\<close>, \<^verbatim>\<open>lib/tlibio.c\<close>) have the
  effects of the kernel as their behaviour. \<^verbatim>\<open>lib/bytes_by_prefix.c\<close> computes in floating point;
  \<^verbatim>\<open>lib/datapid.c\<close> is empty on Linux. \<^verbatim>\<open>sym_dump_s\<close> prints addresses. The \<^verbatim>\<open>UNIT_TEST\<close> mains, the parts
  for UCLINUX and CRAY and output for debugging are left out. The test cases exercise the kernel
  under test, whose behaviour is not in the sources; of
  the imported benchmark ffsb the operations on files, the threads, the statistics in floating point and the
  configuration with its callbacks are left out, and the other tools and imported benchmarks are
  programs of their own.
\<close>

section \<open>Options that are in error end the test\<close>

definition std_option :: "char \<times> cstr \<times> int \<Rightarrow> bool" where
  "std_option r \<longleftrightarrow> fst r \<in> {CHR ''i'', CHR ''I'', CHR ''P'', CHR ''p''}"

lemma opt_loop_stops:
  assumes "list_all std_option pre" "c \<in> {CHR ''?'', CHR '':''}"
  shows "\<exists>m b o1. opt_loop F user (pre @ (c, a, k) # rs) st = Ok (Some m, b, o1)"
  using assms(1)
proof (induction pre arbitrary: st)
  case Nil
  show ?case using assms(2) by (cases st) (auto simp: opt_round_def Let_def)
next
  case (Cons r pre)
  have "\<exists>st'. opt_round F user r st = Ok (None, st')"
    using Cons.prems by (cases r; cases st) (auto simp: opt_round_def std_option_def Let_def)
  then show ?case using Cons by auto
qed

lemma parse_opts_stops:
  assumes "list_all std_option pre" "c \<in> {CHR ''?'', CHR '':''}"
  shows "\<exists>m o1. parse_opts F mem env user (pre @ (c, a, k) # rs) ind o0 = Ok (Some m, o1)"
proof -
  obtain m where m: "make_optionstr mem user = Ok m" using make_optionstr_fits by blast
  obtain t b o1 where "opt_loop F user (pre @ (c, a, k) # rs)
      (\<lparr>OPT_iteration = False, OPT_duration = False, OPT_delay = False\<rparr>, o0) = Ok (Some t, b, o1)"
    using opt_loop_stops [OF assms] by blast
  with m show ?thesis by (cases m) (simp_all add: parse_opts_def)
qed

lemma expand_nonempty: "m \<noteq> [] \<Longrightarrow> expand USERMESG m \<noteq> []"
  by (cases m) (simp_all add: expand_def)

text \<open>How a call of \<^verbatim>\<open>tst_brkm\<close> leaves the test.\<close>

definition ended_with :: "int \<Rightarrow> tst_result \<Rightarrow> bool" where
  "ended_with r x \<longleftrightarrow> (case x of Running s' \<Rightarrow> False | Exited c s' \<Rightarrow> c AND r = r | Aborted s' \<Rightarrow> True)"

lemma tst_brkm_ends:
  assumes "TTYPE_RESULT ttype = r" "r \<in> {TFAIL, TBROK, TCONF}" "tst_brk_entered s = 0" "res_inv s" "m \<noteq> []"
  shows "ended_with r (tst_brkm env loc ttype None m s)"
  using tst_brk_result [OF assms(1-4) expand_nonempty [OF assms(5)], of env loc] assms(5)
  by (cases "tst_brk env loc ttype None (expand USERMESG m) s") (simp_all add: tst_brkm_def ended_with_def)



section \<open>What pan makes of the results of a test\<close>

lemma pan_sees_exit:
  assumes "0 \<le> c" "c < 64"
  shows "WIFEXITED (c * 256)" "reap_errors stopped (c * 256) = (if c \<in> {0, TCONF} then 0 else 1)"
  using assms by (auto simp: reap_errors_def wait_defs)

lemma single_bit:
  fixes c t :: int
  assumes t: "\<And>k. bit t k \<longleftrightarrow> k = b"
  shows "c \<in> {0, t} \<longleftrightarrow> (\<forall>k. bit c k \<longrightarrow> k = b)"
proof
  assume "c \<in> {0, t}"
  then consider "c = 0" | "c = t" by blast
  then show "\<forall>k. bit c k \<longrightarrow> k = b" by cases (simp, simp only: t, blast)
next
  assume a: "\<forall>k. bit c k \<longrightarrow> k = b"
  show "c \<in> {0, t}"
  proof (cases "bit c b")
    case True
    have "c = t" by (rule bit_eqI) (unfold t, use a True in blast)
    then show ?thesis by blast
  next
    case False
    have "c = 0" by (rule bit_eqI) (use a False in \<open>auto\<close>)
    then show ?thesis by blast
  qed
qed

lemma exit_without_error:
  assumes "\<forall>i \<in> set rs. item_type i \<in> result_flags"
    and "c = fold (\<lambda>i v. v OR item_type i) rs 0 AND NOT TINFO"
  shows "c \<in> {0, TCONF} \<longleftrightarrow> (\<forall>i \<in> set rs. item_type i \<in> {TPASS, TINFO, TCONF})"
proof -
  have t: "bit TCONF k \<longleftrightarrow> k = 5" for k unfolding flag_powers(5) bit_pow2 by simp
  have "c \<in> {0, TCONF} \<longleftrightarrow> (\<forall>k. bit c k \<longrightarrow> k = 5)" by (rule single_bit [OF t])
  also have "\<dots> \<longleftrightarrow> (\<forall>i \<in> set rs. item_type i \<notin> {TFAIL, TBROK, TWARN})" (is "?l \<longleftrightarrow> ?r")
  proof
    assume ?l
    note l = this [unfolded exit_bits [OF assms], rule_format]
    show ?r
    proof
      fix i assume "i \<in> set rs"
      with l [of 0] l [of 1] l [of 2] show "item_type i \<notin> {TFAIL, TBROK, TWARN}" by simp blast
    qed
  qed (unfold exit_bits [OF assms], blast)
  also have "\<dots> \<longleftrightarrow> (\<forall>i \<in> set rs. item_type i \<in> {TPASS, TINFO, TCONF})"
    using assms(1) by (intro ball_cong refl) (auto simp: result_flags_def)
  finally show ?thesis .
qed

text \<open>
  C5: pan counts a test as an error exactly for its bad results. A test reports any results and ends
  with \<^verbatim>\<open>tst_exit\<close>; when pan reaps its process with that status, \<^verbatim>\<open>check_pids\<close> returns 0 if every
  result was TPASS, TINFO or TCONF and 1 if one was TFAIL, TBROK or TWARN, also for a test that
  pan was stopping, and the slot of the test is free again.
\<close>

theorem results_reach_pan:
  assumes "report env rs s = Running s'" "tst_exit env s' = Exited c s''" "res_inv s" "T_exitval s = 0"
    and "\<forall>i \<in> set rs. item_type i \<in> result_flags"
    and "pan_inv cfg base p" "coll_ok cfg" "output_ok cfg e"
    and "0 < we_cpid e" "we_cpid e \<in># groups (running p)" "we_status e = c * 256"
  shows "\<exists>q. check_pids cfg e p = Ok (if \<forall>i \<in> set rs. item_type i \<in> {TPASS, TINFO, TCONF} then 0 else 1, q) \<and>
    pan_inv cfg base q \<and> groups (running q) = groups (running p) - {#we_cpid e#}"
proof -
  note c = report_then_exit [OF assms(1-4)]
  note st = pan_sees_exit [OF exit_status_range [OF assms(5) c]]
  have "wait_ok e p" using assms(10,11) st(1) by (simp add: wait_ok_def)
  from check_pids_reaps [OF assms(6-8) this assms(9)] show ?thesis
    unfolding assms(11) st(2) exit_without_error [OF assms(5) c] by blast
qed

theorem results_reach_pan_witness:
  "\<exists>s' s'' q. report demo_env [(None, TPASS, ''good''), (None, TBROK, ''bad'')] (fresh_state DISCARD) = Running s' \<and>
     tst_exit demo_env s' = Exited 2 s'' \<and> check_pids demo_cfg demo_wait demo_busy = Ok (1, q)"
proof -
  let ?rs = "[(None, TPASS, ''good''), (None, TBROK, ''bad'')]"
  obtain s' where s': "report demo_env ?rs (fresh_state DISCARD) = Running s'" "T_mode s' = DISCARD" "Buffered s' = False"
    by (simp add: tst_res_def fresh_state_def demo_env_def check_env_def tst_print_def TTYPE_RESULT_def flag_defs Let_def)
  have r: "res_inv (fresh_state DISCARD)" "T_exitval (fresh_state DISCARD) = 0"
    by (simp_all add: res_inv_def buffer_counted_def fresh_state_def)
  from report_exitval [OF s'(1) r(1)] r(2) have "T_exitval s' = 2" by (simp add: TTYPE_RESULT_def flag_defs)
  then have e: "tst_exit demo_env s' = Exited 2 s'" using s'(2,3) by (simp add: tst_exit_def tst_flush_def TINFO_def)
  have "output_ok demo_cfg demo_wait" "0 < we_cpid demo_wait" "we_cpid demo_wait \<in># groups (running demo_busy)"
    "we_status demo_wait = 2 * 256"
    by (simp_all add: demo_wait_def demo_busy_def idle_pan_def output_ok_def demo_cfg_def)
  from results_reach_pan [OF s'(1) e r _ demo_busy_inv demo_coll_ok this]
  show ?thesis using s'(1) e by (auto simp: result_flags_def TTYPE_RESULT_def flag_defs)
qed

end
